(* ===== verification/Prelude.thy ===== *)
theory Prelude
  imports Main "HOL-Library.Word" "HOL-Library.Sublist"
begin

text \<open>
  The shared vocabulary of the development: bytes and byte strings as the Go code has them
  (\<^typ>\<open>8 word\<close> and lists of it), the helpers of the Go standard library that the
  modelled sources call on byte slices, and the generic lemmas on lists and words that the
  component theories rely on.
\<close>

unbundle bit_operations_syntax

section \<open>Bytes and integers\<close>

type_synonym byte = "8 word"
type_synonym bytes = "byte list"
type_synonym u16 = "16 word"
type_synonym u32 = "32 word"
type_synonym u64 = "64 word"

named_theorems go_simps "evaluation rules of the Go library helpers"
named_theorems len_simps "length and bound facts used by the termination and bound proofs"

text \<open>A Go string literal is a sequence of bytes.\<close>

definition s2b :: "string \<Rightarrow> bytes" where
  "s2b s = map of_char s"

lemma s2b_Nil [simp, go_simps]: "s2b [] = []"
  by (simp add: s2b_def)

lemma s2b_Cons [simp, go_simps]: "s2b (c # cs) = of_char c # s2b cs"
  by (simp add: s2b_def)

lemma length_s2b [simp]: "length (s2b s) = length s"
  by (simp add: s2b_def)

text \<open>
  The largest value of Go's \<open>int\<close> on a 64-bit target: \<open>int(^uint(0) >> 1)\<close>.
\<close>

definition maxInt :: nat where
  "maxInt = 2 ^ 63 - 1"

section \<open>Byte-slice helpers\<close>

text \<open>\<open>bytes.IndexByte\<close>: the first position of a byte; \<^term>\<open>None\<close> stands for \<open>-1\<close>.\<close>

fun indexByte :: "bytes \<Rightarrow> byte \<Rightarrow> nat option" where
  "indexByte [] c = None"
| "indexByte (x # xs) c = (if x = c then Some 0 else map_option Suc (indexByte xs c))"

lemma indexByte_None_iff: "indexByte xs c = None \<longleftrightarrow> c \<notin> set xs"
  by (induction xs) auto

lemma indexByte_SomeD:
  "indexByte xs c = Some i \<Longrightarrow> i < length xs \<and> xs ! i = c \<and> c \<notin> set (take i xs)"
  by (induction xs arbitrary: i) (auto split: if_splits)

lemma indexByte_append_notin:
  "c \<notin> set xs \<Longrightarrow> indexByte (xs @ c # ys) c = Some (length xs)"
  by (induction xs) auto

lemma indexByte_less [len_simps]: "indexByte xs c = Some i \<Longrightarrow> i < length xs"
  by (simp add: indexByte_SomeD)

lemma indexByte_split:
  "indexByte xs c = Some i \<Longrightarrow> xs = take i xs @ c # drop (Suc i) xs"
  by (metis append_take_drop_id Cons_nth_drop_Suc indexByte_SomeD)

lemma unat_byte_less [len_simps]: "unat (b :: byte) < 256"
  using unsigned_less [of b, where 'a = nat] by simp

text \<open>\<open>binary.BigEndian\<close> on two bytes.\<close>

definition be16 :: "byte \<Rightarrow> byte \<Rightarrow> nat" where
  "be16 hi lo = unat hi * 256 + unat lo"

lemma be16_less: "be16 hi lo < 65536"
  using unat_byte_less [of hi] unat_byte_less [of lo] by (simp add: be16_def)

section \<open>Words\<close>

lemma mask7: "(0x7F :: 'a::len word) = mask 7"
  by (simp add: mask_eq_exp_minus_1)

lemma bit_0x7F [simp]: "bit (0x7F :: 'a::len word) n \<longleftrightarrow> n < 7 \<and> n < LENGTH('a)"
  unfolding mask7 by (auto simp: bit_simps)

lemma bit_0x80 [simp]: "bit (0x80 :: 'a::len word) n \<longleftrightarrow> n = 7 \<and> 7 < LENGTH('a)"
proof -
  have "bit (2 ^ 7 :: 'a word) n \<longleftrightarrow> n = 7 \<and> 7 < LENGTH('a)"
    by (auto simp only: bit_exp_iff possible_bit_word)
  then show ?thesis by simp
qed

lemma bit_int_127 [simp]: "bit (127 :: int) n \<longleftrightarrow> n < 7"
proof -
  have "(127 :: int) = mask 7" by (simp add: mask_eq_exp_minus_1)
  then show ?thesis by (simp only: bit_mask_iff) simp
qed

lemma bit_int_128 [simp]: "bit (128 :: int) n \<longleftrightarrow> n = 7"
proof -
  have "(128 :: int) = 2 ^ 7" by simp
  then show ?thesis by (simp only: bit_exp_iff) auto
qed

lemma unat_exp: "k < LENGTH('a) \<Longrightarrow> unat (2 ^ k :: 'a::len word) = 2 ^ k"
  using of_nat_inverse [of "2 ^ k" "2 ^ k :: 'a word"] by simp

lemma unat_ucast_up:
  fixes w :: "'a::len word"
  assumes "LENGTH('a) \<le> LENGTH('b::len)"
  shows "unat (ucast w :: 'b word) = unat w"
proof -
  have "unat w < 2 ^ LENGTH('a)" by (rule unsigned_less)
  also have "(2::nat) ^ LENGTH('a) \<le> 2 ^ LENGTH('b)" using assms by simp
  finally show ?thesis by (simp add: unsigned_ucast_eq take_bit_nat_eq_self)
qed

lemma word_bound_high_bits:
  fixes w :: "'a::len word"
  assumes "w < 2 ^ k" and "k \<le> n"
  shows "\<not> bit w n"
  using assms less_mask_eq [of w k] by (metis bit_and_iff bit_mask_iff not_le)

section \<open>Lists\<close>

lemma take_append_exact [simp]: "take (length xs) (xs @ ys) = xs"
  by simp

lemma nth_append_length_Suc: "(xs @ x # ys) ! length xs = x"
  by simp

text \<open>The last position at which a predicate holds, counted from the front.\<close>

fun last_index :: "('a \<Rightarrow> bool) \<Rightarrow> 'a list \<Rightarrow> nat option" where
  "last_index P [] = None"
| "last_index P (x # xs) =
     (case last_index P xs of Some i \<Rightarrow> Some (Suc i) | None \<Rightarrow> if P x then Some 0 else None)"

lemma last_index_None: "last_index P xs = None \<longleftrightarrow> (\<forall>x \<in> set xs. \<not> P x)"
  by (induction xs) (auto split: option.splits)

lemma last_index_SomeD:
  "last_index P xs = Some i \<Longrightarrow> i < length xs \<and> P (xs ! i) \<and> (\<forall>x \<in> set (drop (Suc i) xs). \<not> P x)"
  by (induction xs arbitrary: i) (auto split: option.splits if_splits simp: last_index_None)

lemma last_index_snoc:
  "last_index P (xs @ [x]) = (if P x then Some (length xs) else last_index P xs)"
  by (induction xs) (auto split: option.splits)

lemma last_index_drop:
  "last_index P (drop n xs) =
     (case last_index P xs of None \<Rightarrow> None | Some i \<Rightarrow> if i < n then None else Some (i - n))"
proof (induction n arbitrary: xs)
  case 0
  then show ?case by (simp split: option.splits)
next
  case (Suc n)
  then show ?case by (cases xs) (auto split: option.splits)
qed

end
