(* ===== verification/Hpack_Base.thy ===== *)
theory Hpack_Base
  imports Prelude
begin

text \<open>
  HPACK (\<open>src/pkg/hpack/hpack.go\<close>): header fields, the error values of the package, and
  the variable-length integers of RFC 7541 section 5.1 (\<open>readVarInt\<close>, \<open>appendVarInt\<close>).
  The lemmas show that the two are inverse on every value the encoder can produce, that a
  truncated integer asks for more data and that nothing beyond the integer is looked at.
\<close>

section \<open>Header fields and errors\<close>

record HeaderField =
  Name :: bytes
  Value :: bytes
  Sensitive :: bool

abbreviation emptyField :: HeaderField where
  "emptyField \<equiv> \<lparr>Name = [], Value = [], Sensitive = False\<rparr>"

definition IsPseudo :: "HeaderField \<Rightarrow> bool" where
  "IsPseudo hf = (length (Name hf) \<noteq> 0 \<and> Name hf ! 0 = 0x3A)"

text \<open>The size of RFC 7541 section 4.1, at the width the code keeps it.\<close>

definition Size :: "HeaderField \<Rightarrow> u32" where
  "Size hf = word_of_nat (length (Name hf) + length (Value hf) + 32)"

definition nsize :: "HeaderField \<Rightarrow> nat" where
  "nsize hf = length (Name hf) + length (Value hf) + 32"

lemma unat_Size: "nsize hf < 2 ^ 32 \<Longrightarrow> unat (Size hf) = nsize hf"
  unfolding Size_def nsize_def by (rule of_nat_inverse) simp_all

lemma nsize_pos [simp]: "0 < nsize hf"
  by (simp add: nsize_def)

datatype hpack_error =
    ErrStringLength
  | ErrHeaderListSize
  | ErrInvalidHuffman
  | ErrNeedMore
  | ErrVarintOverflow
  | InvalidIndexError u64
  | ErrInvalidEncoding byte
  | ErrSizeUpdatePosition u32
  | ErrSizeUpdateTooLarge
  | ErrTruncatedHeaders nat
  | ErrShortWrite nat nat

datatype indexType = indexedTrue | indexedFalse | indexedNever

definition indexed :: "indexType \<Rightarrow> bool" where
  "indexed v = (v = indexedTrue)"

definition sensitive :: "indexType \<Rightarrow> bool" where
  "sensitive v = (v = indexedNever)"

definition maxDynamicTableSize :: u32 where
  "maxDynamicTableSize = 65536"

definition maxHeaderBlockSize :: u32 where
  "maxHeaderBlockSize = 1048576"

definition maxHeaderFieldSize :: int where
  "maxHeaderFieldSize = 8192"

definition maxSaveBufSize :: int where
  "maxSaveBufSize = 1048576"

section \<open>Variable-length integers\<close>

text \<open>
  The loop of \<open>readVarInt\<close> over the bytes that follow the prefix. \<open>orig\<close> is the slice the
  error returns hand back.
\<close>

fun readVarInt_loop :: "bytes \<Rightarrow> u64 \<Rightarrow> nat \<Rightarrow> bytes \<Rightarrow> u64 \<times> bytes \<times> hpack_error option" where
  "readVarInt_loop orig i shift [] = (0, orig, Some ErrNeedMore)"
| "readVarInt_loop orig i shift (b # p) =
     (let i' = i + push_bit shift (ucast (b AND 0x7F))
      in if b AND 0x80 = 0 then (i', p, None)
         else if shift + 7 \<ge> 63 then (0, orig, Some ErrVarintOverflow)
         else readVarInt_loop orig i' (shift + 7) p)"

text \<open>\<open>uint64((1 << n) - 1)\<close>: the largest value of an n-bit prefix.\<close>

definition prefixMask :: "nat \<Rightarrow> u64" where
  "prefixMask n = push_bit n 1 - 1"

definition readVarInt :: "nat \<Rightarrow> bytes \<Rightarrow> u64 \<times> bytes \<times> hpack_error option" where
  "readVarInt n p =
     (case p of
        [] \<Rightarrow> (0, p, Some ErrNeedMore)
      | b # q \<Rightarrow>
          let m = prefixMask n; i = ucast b AND m
          in if i < m then (i, q, None) else readVarInt_loop p i 0 q)"

function appendVarInt_loop :: "bytes \<Rightarrow> u64 \<Rightarrow> bytes" where
  "appendVarInt_loop dst i =
     (if i \<ge> 128 then appendVarInt_loop (dst @ [ucast (0x80 OR (i AND 0x7F))]) (drop_bit 7 i)
      else dst @ [ucast i])"
  by pat_completeness auto
termination
proof (relation "measure (\<lambda>(dst, i). unat i)", goal_cases)
  case 1
  then show ?case by simp
next
  case (2 dst i)
  then have "128 \<le> unat i" by (simp add: word_le_nat_alt)
  then show ?case by (simp add: unat_div drop_bit_eq_div)
qed

declare appendVarInt_loop.simps [simp del]

definition appendVarInt :: "bytes \<Rightarrow> nat \<Rightarrow> u64 \<Rightarrow> bytes" where
  "appendVarInt dst n i =
     (let k = prefixMask n
      in if i < k then dst @ [ucast i] else appendVarInt_loop (dst @ [ucast k]) (i - k))"

text \<open>The accumulator only collects: the loop appends to it.\<close>

lemma appendVarInt_loop_append:
  "appendVarInt_loop (dst @ acc) i = dst @ appendVarInt_loop acc i"
proof (induction acc i rule: appendVarInt_loop.induct)
  case (1 acc i)
  then show ?case
    by (simp add: appendVarInt_loop.simps [of "dst @ acc"] appendVarInt_loop.simps [of acc])
qed

lemma appendVarInt_append:
  "appendVarInt (dst @ acc) n i = dst @ appendVarInt acc n i"
  using appendVarInt_loop_append [of dst "acc @ [ucast (prefixMask n)]" "i - prefixMask n"]
  by (simp add: appendVarInt_def Let_def)

abbreviation varint_tail :: "u64 \<Rightarrow> bytes" where
  "varint_tail i \<equiv> appendVarInt_loop [] i"

lemma varint_tail_rec:
  "varint_tail i =
     (if i \<ge> 128 then ucast (0x80 OR (i AND 0x7F)) # varint_tail (drop_bit 7 i) else [ucast i])"
  using appendVarInt_loop_append [of "[ucast (0x80 OR (i AND 0x7F))]" "[]" "drop_bit 7 i"]
  by (simp add: appendVarInt_loop.simps [of "[]"])

lemma varint_byte_cont:
  fixes i :: u64
  shows "(ucast (0x80 OR (i AND 0x7F)) :: byte) AND 0x80 \<noteq> 0"
    and "ucast ((ucast (0x80 OR (i AND 0x7F)) :: byte) AND 0x7F) = take_bit 7 i"
proof -
  have "bit ((ucast (0x80 OR (i AND 0x7F)) :: byte) AND 0x80) 7"
    by (simp add: bit_simps)
  then show "(ucast (0x80 OR (i AND 0x7F)) :: byte) AND 0x80 \<noteq> 0"
    by (metis bit_0_eq bot_apply bot_bool_def)
  show "ucast ((ucast (0x80 OR (i AND 0x7F)) :: byte) AND 0x7F) = take_bit 7 i"
    by (rule bit_word_eqI) (auto simp: bit_simps)
qed

lemma varint_byte_last:
  fixes i :: u64
  assumes "i < 128"
  shows "(ucast i :: byte) AND 0x80 = 0" and "ucast ((ucast i :: byte) AND 0x7F) = i"
proof -
  have hi: "\<not> bit i n" if "n \<ge> 7" for n
    using assms that word_bound_high_bits [of i 7 n] by simp
  show "(ucast i :: byte) AND 0x80 = 0"
    by (rule bit_word_eqI) (auto simp: bit_simps hi)
  show "ucast ((ucast i :: byte) AND 0x7F) = i"
  proof (rule bit_word_eqI)
    fix n assume "n < LENGTH(64)"
    then show "bit (ucast ((ucast i :: byte) AND 0x7F) :: u64) n = bit i n"
      by (cases "n < 7") (auto simp: bit_simps hi)
  qed
qed

text \<open>
  What \<open>readVarInt\<close> reads back from the continuation bytes of a value. The bound is exactly
  the one at which the overflow guard of the code starts to fire.
\<close>

lemma readVarInt_loop_tail:
  assumes "i < 2 ^ (63 - shift)" and "shift < 63"
  shows "readVarInt_loop orig acc shift (varint_tail i @ rest) = (acc + push_bit shift i, rest, None)"
  using assms
proof (induction i arbitrary: acc shift rule: measure_induct_rule [where f = unat])
  case (less i)
  show ?case
  proof (cases "128 \<le> i")
    case True
    then have big: "2 ^ 7 \<le> unat i" by (simp add: word_le_nat_alt)
    have ub: "unat i < 2 ^ (63 - shift)"
      using less.prems by (simp add: word_less_nat_alt unat_exp)
    with big have "(2::nat) ^ 7 < 2 ^ (63 - shift)" by linarith
    then have sh: "7 < 63 - shift" by (rule power_less_imp_less_exp [rotated]) simp
    have "unat (drop_bit 7 i) = unat i div 2 ^ 7"
      by (simp add: unat_div drop_bit_eq_div)
    moreover have "unat i < 2 ^ (63 - (shift + 7)) * 2 ^ 7"
      using ub sh by (simp only: flip: power_add) (simp add: le_diff_conv2)
    then have "unat i div 2 ^ 7 < 2 ^ (63 - (shift + 7))"
      by (rule less_mult_imp_div_less)
    moreover have "unat i div 2 ^ 7 < unat i" using big by simp
    ultimately have smaller: "unat (drop_bit 7 i) < unat i"
      and bound: "drop_bit 7 i < 2 ^ (63 - (shift + 7))"
      by (simp_all add: word_less_nat_alt unat_exp)
    have "push_bit shift (take_bit 7 i) + push_bit (shift + 7) (drop_bit 7 i) = push_bit shift i"
      by (metis add.commute bits_ident push_bit_add push_bit_push_bit)
    then show ?thesis
      using less.IH [OF smaller bound, of "acc + push_bit shift (take_bit 7 i)"] sh True
      by (simp add: varint_tail_rec [of i] varint_byte_cont Let_def add.assoc)
  next
    case False
    then have "i < 128" by simp
    with False show ?thesis
      using varint_byte_last [of i] by (simp add: varint_tail_rec [of i] Let_def del: not_le)
  qed
qed

text \<open>Reading looks at the integer only: what follows it is handed back untouched.\<close>

lemma readVarInt_loop_cases:
  "readVarInt_loop orig i shift p = (v, r, e) \<Longrightarrow>
     (e = None \<and> (\<exists>pre. pre \<noteq> [] \<and> p = pre @ r)) \<or>
     (r = orig \<and> v = 0 \<and> (e = Some ErrNeedMore \<or> e = Some ErrVarintOverflow))"
proof (induction orig i shift p rule: readVarInt_loop.induct)
  case (1 orig i shift)
  then show ?case by auto
next
  case (2 orig i shift b p)
  then show ?case
    by (fastforce simp: Let_def split: if_splits intro: exI [of _ "[b]"] exI [of _ "b # pre" for pre])
qed

lemma readVarInt_loop_extend:
  "readVarInt_loop orig i shift p = (v, r, e) \<Longrightarrow> e \<noteq> Some ErrNeedMore \<Longrightarrow>
     readVarInt_loop (orig @ q) i shift (p @ q) = (v, r @ q, e)"
  by (induction orig i shift p rule: readVarInt_loop.induct) (auto simp: Let_def split: if_splits)

lemma readVarInt_loop_truncated:
  "readVarInt_loop orig i shift (a @ b) = (v, r, None) \<Longrightarrow> length r < length b \<Longrightarrow>
     readVarInt_loop orig' i shift a = (0, orig', Some ErrNeedMore)"
proof (induction a arbitrary: i shift)
  case Nil
  then show ?case by simp
next
  case (Cons x a)
  then show ?case by (auto simp: Let_def split: if_splits)
qed

lemma readVarInt_cases:
  assumes "readVarInt n p = (v, r, e)"
  shows "(e = None \<and> (\<exists>pre. pre \<noteq> [] \<and> p = pre @ r)) \<or>
     (r = p \<and> v = 0 \<and> (e = Some ErrNeedMore \<or> e = Some ErrVarintOverflow))"
proof (cases p)
  case Nil
  with assms show ?thesis by (simp add: readVarInt_def)
next
  case (Cons b q)
  show ?thesis
  proof (cases "ucast b AND prefixMask n < prefixMask n")
    case True
    with assms Cons show ?thesis by (auto simp: readVarInt_def Let_def intro: exI [of _ "[b]"])
  next
    case False
    with assms Cons have "readVarInt_loop p (ucast b AND prefixMask n) 0 q = (v, r, e)"
      by (simp add: readVarInt_def Let_def)
    from readVarInt_loop_cases [OF this] show ?thesis
      using Cons by (auto intro: exI [of _ "b # pre" for pre])
  qed
qed

lemma readVarInt_extend:
  "readVarInt n p = (v, r, e) \<Longrightarrow> e \<noteq> Some ErrNeedMore \<Longrightarrow> readVarInt n (p @ q) = (v, r @ q, e)"
  by (cases p) (auto simp: readVarInt_def Let_def split: if_splits dest: readVarInt_loop_extend)

lemma readVarInt_shorter [len_simps]: "readVarInt n p = (v, r, None) \<Longrightarrow> length r < length p"
  by (drule readVarInt_cases) auto

lemma readVarInt_truncated:
  "readVarInt n (a @ b) = (v, r, None) \<Longrightarrow> length r < length b \<Longrightarrow>
     readVarInt n a = (0, a, Some ErrNeedMore)"
  by (cases a)
    (auto simp: readVarInt_def Let_def split: if_splits intro: readVarInt_loop_truncated)

section \<open>The integer round trip\<close>

text \<open>The encoder merges the representation's flag bits into the first byte it wrote.\<close>

definition orFirst :: "byte \<Rightarrow> bytes \<Rightarrow> bytes" where
  "orFirst flag bs = (case bs of [] \<Rightarrow> [] | b # r \<Rightarrow> (b OR flag) # r)"

lemma appendVarInt_Nil:
  "appendVarInt [] n i =
     (if i < prefixMask n then [ucast i]
      else ucast (prefixMask n) # varint_tail (i - prefixMask n))"
  using appendVarInt_loop_append [of "[ucast (prefixMask n)]" "[]"]
  by (simp add: appendVarInt_def Let_def)

lemma prefixMask_mask: "prefixMask n = mask n"
  by (simp add: prefixMask_def mask_eq_exp_minus_1)

lemma mask_high_bits:
  fixes i :: u64
  assumes "n \<le> 8" and "i \<le> mask n" and "n \<le> k"
  shows "\<not> bit i k"
proof -
  have "unat i \<le> 2 ^ n - 1"
    using assms(1,2) by (simp add: mask_eq_exp_minus_1 word_le_nat_alt unat_exp unat_sub_if')
  moreover have "(0::nat) < 2 ^ n" by simp
  ultimately have "unat i < 2 ^ n" by linarith
  then have "i < 2 ^ n"
    using assms(1) by (simp add: word_less_nat_alt unat_exp)
  then show ?thesis using assms(3) by (rule word_bound_high_bits)
qed

lemma varint_first_byte:
  fixes i :: u64
  assumes "n \<le> 8" and "i \<le> mask n" and "flag AND mask n = 0"
  shows "ucast ((ucast i :: byte) OR flag) AND mask n = i"
proof (rule bit_word_eqI)
  fix k assume k: "k < LENGTH(64)"
  have hi: "\<not> bit i k" if "n \<le> k" using mask_high_bits [OF assms(1,2) that] .
  have fl: "\<not> bit flag k" if "k < n"
  proof -
    have "\<not> bit (flag AND mask n) k" by (simp add: assms(3))
    then show ?thesis using assms(1) that by (simp add: bit_simps)
  qed
  show "bit (ucast ((ucast i :: byte) OR flag) AND mask n :: u64) k = bit i k"
    using hi fl assms(1) k by (cases "k < n") (auto simp: bit_simps)
qed

text \<open>The flag bits can be read off the first byte.\<close>

lemma varint_flag_bits:
  assumes "n \<le> 8" and "flag AND mask n = 0"
  shows "hd (orFirst flag (appendVarInt [] n i)) AND NOT (mask n) = flag"
proof -
  define v where "v = (if i < prefixMask n then i else prefixMask n)"
  have v: "v \<le> mask n" by (simp add: v_def prefixMask_mask less_imp_le)
  have "hd (orFirst flag (appendVarInt [] n i)) = ucast v OR flag"
    by (simp add: appendVarInt_Nil orFirst_def v_def)
  moreover have "(ucast v OR flag) AND NOT (mask n) = flag"
  proof (rule bit_word_eqI)
    fix k assume k: "k < LENGTH(8)"
    have fl: "\<not> bit flag k" if "k < n"
    proof -
      have "\<not> bit (flag AND mask n) k" by (simp add: assms(2))
      then show ?thesis using assms(1) that by (simp add: bit_simps)
    qed
    show "bit ((ucast v OR flag) AND NOT (mask n)) k = bit flag k"
      using mask_high_bits [OF assms(1) v] fl k by (cases "k < n") (auto simp: bit_simps)
  qed
  ultimately show ?thesis by simp
qed

lemma varint_roundtrip_flag:
  assumes "1 \<le> n" and "n \<le> 8" and "i < 2 ^ 63" and "flag AND mask n = 0"
  shows "readVarInt n (orFirst flag (appendVarInt [] n i) @ rest) = (i, rest, None)"
proof -
  note m = prefixMask_mask
  show ?thesis
  proof (cases "i < mask n")
    case True
    then show ?thesis
      using varint_first_byte [of n i flag] assms
      by (simp add: readVarInt_def appendVarInt_Nil orFirst_def m)
  next
    case False
    have "i - mask n \<le> i" using False by (simp add: word_sub_le)
    then have "i - mask n < 2 ^ (63 - 0)" using assms(3) by simp
    from readVarInt_loop_tail [OF this] show ?thesis
      using varint_first_byte [of n "mask n" flag] assms False
      by (simp add: readVarInt_def appendVarInt_Nil orFirst_def m)
  qed
qed

section \<open>Properties\<close>

text \<open>
  C29: The integer encoding round-trips: reading back an integer below 2 to the 63 that was
  written with an n-bit prefix, under any flag bits above the prefix and before any other
  bytes, yields the integer and leaves exactly the bytes that follow it.
\<close>

theorem varint_roundtrip:
  assumes "1 \<le> n" and "n \<le> 8" and "i < 2 ^ 63" and "flag AND mask n = 0"
  shows "readVarInt n (orFirst flag (appendVarInt [] n i) @ rest) = (i, rest, None)"
  using assms by (rule varint_roundtrip_flag)

theorem varint_roundtrip_witness:
  "readVarInt 5 (orFirst 0x20 (appendVarInt [] 5 1337) @ [7]) = (1337, [7], None)"
  by (rule varint_roundtrip) (simp_all add: mask_eq_exp_minus_1)

text \<open>
  A truncated integer is never misread: on every proper prefix of the bytes of an integer,
  \<open>readVarInt\<close> asks for more data and returns its input untouched.
\<close>

theorem varint_prefix_needs_more:
  assumes "readVarInt n (a @ b) = (v, r, None)" and "length r < length b"
  shows "readVarInt n a = (0, a, Some ErrNeedMore)"
  using assms by (rule readVarInt_truncated)

theorem varint_prefix_needs_more_witness:
  "readVarInt 5 [0x1F, 0x9A] = (0, [0x1F, 0x9A], Some ErrNeedMore)"
proof -
  have "readVarInt 5 ([0x1F, 0x9A] @ [0x0A]) = (1337, [], None)" by code_simp
  then show ?thesis by (rule varint_prefix_needs_more) simp
qed

end
