(* ===== verification/Hpack_Table.thy ===== *)
theory Hpack_Table
  imports Hpack_Base
begin

text \<open>
  The indexing tables of HPACK (\<open>src/pkg/hpack/tables.go\<close>): \<open>headerFieldTable\<close> with its two
  lookup maps, the size-bounded \<open>dynamicTable\<close> built on it, and the static table. The lookup
  maps are an optimisation; the invariant \<open>table_inv\<close> says what they cache, and the locale
  \<open>indexed_table\<close> states the contract the encoder and the decoder rely on, interpreted on both
  tables. Entry identifiers (\<open>uint64\<close>, incremented once per insertion) are natural numbers;
  sizes are kept at 32 bits.
\<close>

section \<open>headerFieldTable\<close>

record headerFieldTable =
  ents :: "HeaderField list"
  evictCount :: nat
  byName :: "bytes \<rightharpoonup> nat"
  byNameValue :: "bytes \<times> bytes \<rightharpoonup> nat"

definition emptyTable :: headerFieldTable where
  "emptyTable = \<lparr>ents = [], evictCount = 0, byName = Map.empty, byNameValue = Map.empty\<rparr>"

text \<open>\<open>init\<close> and \<open>reset\<close> both leave a table with no entries and empty maps.\<close>

definition table_init :: "headerFieldTable \<Rightarrow> headerFieldTable" where
  "table_init t = t\<lparr>byName := Map.empty, byNameValue := Map.empty\<rparr>"

definition table_reset :: "headerFieldTable \<Rightarrow> headerFieldTable" where
  "table_reset t = t\<lparr>byName := Map.empty, byNameValue := Map.empty, ents := [], evictCount := 0\<rparr>"

definition table_len :: "headerFieldTable \<Rightarrow> nat" where
  "table_len t = length (ents t)"

definition addEntry :: "headerFieldTable \<Rightarrow> HeaderField \<Rightarrow> headerFieldTable" where
  "addEntry t f =
     (let i = evictCount t + table_len t + 1
      in t\<lparr>byName := (byName t)(Name f \<mapsto> i),
           byNameValue := (byNameValue t)((Name f, Value f) \<mapsto> i),
           ents := ents t @ [f]\<rparr>)"

text \<open>A Go map read of an absent key yields zero.\<close>

definition mget :: "('k \<rightharpoonup> nat) \<Rightarrow> 'k \<Rightarrow> nat" where
  "mget m k = (case m k of None \<Rightarrow> 0 | Some v \<Rightarrow> v)"

definition delIf :: "('k \<rightharpoonup> nat) \<Rightarrow> 'k \<Rightarrow> nat \<Rightarrow> ('k \<rightharpoonup> nat)" where
  "delIf m k i = (if mget m k = i then m(k := None) else m)"

text \<open>The key-removal loop of \<open>evictOldest\<close>: \<open>c\<close> is \<open>evictCount + k\<close>.\<close>

fun evictOldest_loop :: "nat \<Rightarrow> HeaderField list \<Rightarrow> headerFieldTable \<Rightarrow> headerFieldTable" where
  "evictOldest_loop c [] t = t"
| "evictOldest_loop c (f # fs) t =
     evictOldest_loop (c + 1) fs
       (t\<lparr>byName := delIf (byName t) (Name f) (c + 1),
          byNameValue := delIf (byNameValue t) (Name f, Value f) (c + 1)\<rparr>)"

definition evictOldest :: "headerFieldTable \<Rightarrow> nat \<Rightarrow> headerFieldTable" where
  "evictOldest t n =
     (let t' = evictOldest_loop (evictCount t) (take n (ents t)) t
      in t'\<lparr>ents := drop n (ents t), evictCount := evictCount t + n\<rparr>)"

text \<open>
  \<open>idToIndex\<close> compares its receiver with the global static table; the model passes the
  outcome of that comparison.
\<close>

definition idToIndex :: "bool \<Rightarrow> headerFieldTable \<Rightarrow> nat \<Rightarrow> nat" where
  "idToIndex isStatic t i =
     (let k = i - evictCount t - 1 in if isStatic then k + 1 else table_len t - k)"

definition search :: "bool \<Rightarrow> headerFieldTable \<Rightarrow> HeaderField \<Rightarrow> nat \<times> bool" where
  "search isStatic t f =
     (if \<not> Sensitive f \<and> mget (byNameValue t) (Name f, Value f) \<noteq> 0
      then (idToIndex isStatic t (mget (byNameValue t) (Name f, Value f)), True)
      else if mget (byName t) (Name f) \<noteq> 0
      then (idToIndex isStatic t (mget (byName t) (Name f)), False)
      else (0, False))"

section \<open>dynamicTable\<close>

record dynamicTable =
  dtTable :: headerFieldTable
  dtSize :: u32
  dtMaxSize :: u32
  allowedMaxSize :: u32

definition emptyDynamicTable :: dynamicTable where
  "emptyDynamicTable = \<lparr>dtTable = emptyTable, dtSize = 0, dtMaxSize = 0, allowedMaxSize = 0\<rparr>"

text \<open>The counting loop of \<open>evict\<close> over the entries from the oldest on.\<close>

fun evict_loop :: "u32 \<Rightarrow> HeaderField list \<Rightarrow> u32 \<Rightarrow> nat \<Rightarrow> nat \<times> u32" where
  "evict_loop mx [] sz n = (n, sz)"
| "evict_loop mx (e # es) sz n = (if mx < sz then evict_loop mx es (sz - Size e) (n + 1) else (n, sz))"

definition evict :: "dynamicTable \<Rightarrow> dynamicTable" where
  "evict dt =
     (case evict_loop (dtMaxSize dt) (ents (dtTable dt)) (dtSize dt) 0 of (n, sz) \<Rightarrow>
        let dt' = dt\<lparr>dtSize := sz\<rparr>
        in if n > 0 then dt'\<lparr>dtTable := evictOldest (dtTable dt') n\<rparr> else dt')"

definition setMaxSize :: "dynamicTable \<Rightarrow> u32 \<Rightarrow> dynamicTable" where
  "setMaxSize dt v = evict (dt\<lparr>dtMaxSize := v\<rparr>)"

definition dt_add :: "dynamicTable \<Rightarrow> HeaderField \<Rightarrow> dynamicTable" where
  "dt_add dt f = evict (dt\<lparr>dtTable := addEntry (dtTable dt) f, dtSize := dtSize dt + Size f\<rparr>)"

section \<open>The static table\<close>

abbreviation hfield :: "string \<Rightarrow> string \<Rightarrow> HeaderField" where
  "hfield n v \<equiv> \<lparr>Name = s2b n, Value = s2b v, Sensitive = False\<rparr>"

definition staticTableEntries :: "HeaderField list" where
  "staticTableEntries =
     [hfield '':authority'' '''', hfield '':method'' ''GET'', hfield '':method'' ''POST'',
      hfield '':path'' ''/'', hfield '':path'' ''/index.html'', hfield '':scheme'' ''http'',
      hfield '':scheme'' ''https'', hfield '':status'' ''200'', hfield '':status'' ''204'',
      hfield '':status'' ''206'', hfield '':status'' ''304'', hfield '':status'' ''400'',
      hfield '':status'' ''404'', hfield '':status'' ''500'', hfield ''accept-charset'' '''',
      hfield ''accept-encoding'' ''gzip, deflate'', hfield ''accept-language'' '''',
      hfield ''accept-ranges'' '''', hfield ''accept'' '''',
      hfield ''access-control-allow-origin'' '''', hfield ''age'' '''', hfield ''allow'' '''',
      hfield ''authorization'' '''', hfield ''cache-control'' '''',
      hfield ''content-disposition'' '''', hfield ''content-encoding'' '''',
      hfield ''content-language'' '''', hfield ''content-length'' '''',
      hfield ''content-location'' '''', hfield ''content-range'' '''',
      hfield ''content-type'' '''', hfield ''cookie'' '''', hfield ''date'' '''',
      hfield ''etag'' '''', hfield ''expect'' '''', hfield ''expires'' '''', hfield ''from'' '''',
      hfield ''host'' '''', hfield ''if-match'' '''', hfield ''if-modified-since'' '''',
      hfield ''if-none-match'' '''', hfield ''if-range'' '''', hfield ''if-unmodified-since'' '''',
      hfield ''last-modified'' '''', hfield ''link'' '''', hfield ''location'' '''',
      hfield ''max-forwards'' '''', hfield ''proxy-authenticate'' '''',
      hfield ''proxy-authorization'' '''', hfield ''range'' '''', hfield ''referer'' '''',
      hfield ''refresh'' '''', hfield ''retry-after'' '''', hfield ''server'' '''',
      hfield ''set-cookie'' '''', hfield ''strict-transport-security'' '''',
      hfield ''transfer-encoding'' '''', hfield ''user-agent'' '''', hfield ''vary'' '''',
      hfield ''via'' '''', hfield ''www-authenticate'' '''']"

definition staticTable :: headerFieldTable where
  "staticTable = foldl addEntry (table_init emptyTable) staticTableEntries"

section \<open>What the lookup maps cache\<close>

definition table_inv :: "headerFieldTable \<Rightarrow> bool" where
  "table_inv t \<longleftrightarrow>
     (\<forall>k. byName t k =
        map_option (\<lambda>i. evictCount t + i + 1) (last_index (\<lambda>f. Name f = k) (ents t))) \<and>
     (\<forall>k. byNameValue t k =
        map_option (\<lambda>i. evictCount t + i + 1) (last_index (\<lambda>f. (Name f, Value f) = k) (ents t)))"

lemma table_inv_empty [simp]: "table_inv emptyTable"
  by (simp add: table_inv_def emptyTable_def)

lemma table_inv_reset [simp]: "table_inv (table_reset t)"
  by (simp add: table_inv_def table_reset_def)

lemma ents_addEntry [simp]: "ents (addEntry t f) = ents t @ [f]"
  by (simp add: addEntry_def Let_def)

lemma table_inv_addEntry: "table_inv t \<Longrightarrow> table_inv (addEntry t f)"
  by (simp add: table_inv_def addEntry_def table_len_def Let_def last_index_snoc)

text \<open>The removal loop on one map, for either kind of key.\<close>

fun evict_keys :: "(HeaderField \<Rightarrow> 'k) \<Rightarrow> nat \<Rightarrow> HeaderField list \<Rightarrow> ('k \<rightharpoonup> nat) \<Rightarrow> ('k \<rightharpoonup> nat)" where
  "evict_keys key c [] m = m"
| "evict_keys key c (f # fs) m = evict_keys key (c + 1) fs (delIf m (key f) (c + 1))"

lemma evictOldest_loop_maps:
  "byName (evictOldest_loop c fs t) = evict_keys Name c fs (byName t)"
  "byNameValue (evictOldest_loop c fs t) = evict_keys (\<lambda>f. (Name f, Value f)) c fs (byNameValue t)"
  by (induction c fs t rule: evictOldest_loop.induct) simp_all

lemma mget_eq_Suc: "mget m k = Suc i \<longleftrightarrow> m k = Some (Suc i)"
  by (simp add: mget_def split: option.splits)

lemma delIf_lookup:
  assumes "0 < i" and "\<And>k'. m k' = Some i \<Longrightarrow> j = k'"
  shows "delIf m j i k = (if m k = Some i then None else m k)"
proof (cases "m j = Some i")
  case True
  then have "delIf m j i = m(j := None)" by (simp add: delIf_def mget_def)
  moreover have "m k = Some i \<longleftrightarrow> k = j" using True assms(2) by blast
  ultimately show ?thesis by simp
next
  case False
  then have "delIf m j i = m" using assms(1) by (simp add: delIf_def mget_def split: option.splits)
  moreover have "m k \<noteq> Some i" using False assms(2) by blast
  ultimately show ?thesis by simp
qed

lemma evict_keys_lookup:
  assumes "\<And>k i. m k = Some i \<Longrightarrow> c < i \<Longrightarrow> i \<le> c + length fs \<Longrightarrow> key (fs ! (i - c - 1)) = k"
  shows "evict_keys key c fs m k =
    (case m k of None \<Rightarrow> None | Some i \<Rightarrow> if c < i \<and> i \<le> c + length fs then None else Some i)"
  using assms
proof (induction key c fs m rule: evict_keys.induct)
  case (1 key c m)
  show ?case by (auto split: option.splits)
next
  case (2 key c f fs m)
  let ?m = "delIf m (key f) (c + 1)"
  have key0: "m k = Some (c + 1) \<Longrightarrow> key f = k" for k
    using "2.prems" [of k "c + 1"] by simp
  have m': "?m k = (if m k = Some (c + 1) then None else m k)" for k
    by (rule delIf_lookup) (use key0 in simp_all)
  have "key (fs ! (i - (c + 1) - 1)) = k"
    if "?m k = Some i" and "c + 1 < i" and "i \<le> c + 1 + length fs" for k i
  proof -
    have "m k = Some i" using that(1) m' [of k] by (simp split: if_splits)
    then have "key ((f # fs) ! (i - c - 1)) = k"
      by (rule "2.prems") (use that(2,3) in simp_all)
    moreover have "i - c - 1 = Suc (i - (c + 1) - 1)" using that(2) by simp
    ultimately show ?thesis by simp
  qed
  from "2.IH" [OF this]
  have "evict_keys key c (f # fs) m k =
      (case ?m k of None \<Rightarrow> None
       | Some i \<Rightarrow> if c + 1 < i \<and> i \<le> c + 1 + length fs then None else Some i)"
    by simp
  with m' [of k] show ?case
    by (cases "m k") (auto simp del: evict_keys.simps)
qed

lemma evictOldest_sel [simp]:
  "ents (evictOldest t n) = drop n (ents t)"
  "evictCount (evictOldest t n) = evictCount t + n"
  "byName (evictOldest t n) = evict_keys Name (evictCount t) (take n (ents t)) (byName t)"
  "byNameValue (evictOldest t n) =
     evict_keys (\<lambda>f. (Name f, Value f)) (evictCount t) (take n (ents t)) (byNameValue t)"
  by (simp_all add: evictOldest_def Let_def evictOldest_loop_maps)

lemma table_inv_evictOldest:
  assumes inv: "table_inv t" and n: "n \<le> length (ents t)"
  shows "table_inv (evictOldest t n)"
proof -
  have lookup: "evict_keys key (evictCount t) (take n (ents t)) m k =
      map_option (\<lambda>i. evictCount t + n + i + 1) (last_index (\<lambda>f. key f = k) (drop n (ents t)))"
    if m: "\<And>k. m k = map_option (\<lambda>i. evictCount t + i + 1) (last_index (\<lambda>f. key f = k) (ents t))"
    for key :: "HeaderField \<Rightarrow> 'k" and m k
  proof -
    have "key (take n (ents t) ! (j - evictCount t - 1)) = k'"
      if j: "m k' = Some j" "j \<le> evictCount t + length (take n (ents t))" for k' j
    proof -
      obtain i where i: "last_index (\<lambda>f. key f = k') (ents t) = Some i" "j = evictCount t + i + 1"
        using j(1) unfolding m by (cases "last_index (\<lambda>f. key f = k') (ents t)") simp_all
      then have "key (ents t ! i) = k'" by (blast dest: last_index_SomeD)
      then show ?thesis using i(2) j(2) n by simp
    qed
    then have "evict_keys key (evictCount t) (take n (ents t)) m k =
        (case m k of None \<Rightarrow> None
         | Some i \<Rightarrow> if evictCount t < i \<and> i \<le> evictCount t + length (take n (ents t))
             then None else Some i)"
      by (intro evict_keys_lookup)
    then show ?thesis
      unfolding m last_index_drop using n
      by (cases "last_index (\<lambda>f. key f = k) (ents t)") simp_all
  qed
  have a: "evict_keys Name (evictCount t) (take n (ents t)) (byName t) k =
      map_option (\<lambda>i. evictCount t + n + i + 1) (last_index (\<lambda>f. Name f = k) (drop n (ents t)))" for k
    using inv by (intro lookup) (simp only: table_inv_def)
  have b: "evict_keys (\<lambda>f. (Name f, Value f)) (evictCount t) (take n (ents t)) (byNameValue t) k =
      map_option (\<lambda>i. evictCount t + n + i + 1)
        (last_index (\<lambda>f. (Name f, Value f) = k) (drop n (ents t)))" for k
    using inv by (intro lookup) (simp only: table_inv_def)
  show ?thesis
    unfolding table_inv_def evictOldest_sel by (intro conjI allI a b)
qed

section \<open>The lookup contract\<close>

text \<open>
  What the encoder and the decoder need from a table: \<open>entries\<close> lists the fields in the order
  of their HPACK index (index 1 first) and \<open>find\<close> returns an index of a matching field.
\<close>

locale indexed_table =
  fixes entries :: "'t \<Rightarrow> HeaderField list"
    and find :: "'t \<Rightarrow> HeaderField \<Rightarrow> nat \<times> bool"
    and ok :: "'t \<Rightarrow> bool"
  assumes find_match: "ok t \<Longrightarrow> find t f = (i, True) \<Longrightarrow>
      0 < i \<and> i \<le> length (entries t) \<and> \<not> Sensitive f \<and>
      Name (entries t ! (i - 1)) = Name f \<and> Value (entries t ! (i - 1)) = Value f"
    and find_name: "ok t \<Longrightarrow> find t f = (i, False) \<Longrightarrow> i \<noteq> 0 \<Longrightarrow>
      i \<le> length (entries t) \<and> Name (entries t ! (i - 1)) = Name f"
    and find_absent: "ok t \<Longrightarrow> find t f = (0, b) \<Longrightarrow> \<forall>e \<in> set (entries t). Name e \<noteq> Name f"
    and find_no_pair: "ok t \<Longrightarrow> \<not> Sensitive f \<Longrightarrow> find t f = (i, False) \<Longrightarrow>
      \<forall>e \<in> set (entries t). Name e \<noteq> Name f \<or> Value e \<noteq> Value f"

lemma mget_cached:
  assumes "m k = map_option (\<lambda>i. c + i + 1) (last_index P xs)"
  shows "mget m k = 0 \<longleftrightarrow> (\<forall>x \<in> set xs. \<not> P x)"
    and "mget m k \<noteq> 0 \<Longrightarrow> \<exists>i < length xs. mget m k = c + i + 1 \<and> P (xs ! i)"
proof -
  show "mget m k = 0 \<longleftrightarrow> (\<forall>x \<in> set xs. \<not> P x)"
    unfolding last_index_None [symmetric] mget_def assms by (simp split: option.splits)
  show "\<exists>i < length xs. mget m k = c + i + 1 \<and> P (xs ! i)" if nz: "mget m k \<noteq> 0"
  proof -
    obtain i where "last_index P xs = Some i"
      using nz by (cases "last_index P xs") (simp_all add: mget_def assms)
    then show ?thesis using last_index_SomeD [of P xs i] by (simp add: mget_def assms)
  qed
qed

text \<open>Reading the maps of a table that satisfies the invariant.\<close>

lemma table_inv_mget:
  assumes "table_inv t"
  shows "mget (byName t) n = 0 \<longleftrightarrow> (\<forall>e \<in> set (ents t). Name e \<noteq> n)"
    and "mget (byName t) n \<noteq> 0 \<Longrightarrow>
      \<exists>i < length (ents t). mget (byName t) n = evictCount t + i + 1 \<and> Name (ents t ! i) = n"
    and "mget (byNameValue t) (n, v) = 0 \<longleftrightarrow> (\<forall>e \<in> set (ents t). Name e \<noteq> n \<or> Value e \<noteq> v)"
    and "mget (byNameValue t) (n, v) \<noteq> 0 \<Longrightarrow>
      \<exists>i < length (ents t). mget (byNameValue t) (n, v) = evictCount t + i + 1 \<and>
        Name (ents t ! i) = n \<and> Value (ents t ! i) = v"
  using assms mget_cached [of "byName t" n "evictCount t" "\<lambda>f. Name f = n" "ents t"]
    mget_cached [of "byNameValue t" "(n, v)" "evictCount t" "\<lambda>f. (Name f, Value f) = (n, v)" "ents t"]
  unfolding table_inv_def by auto

definition static_ok :: "headerFieldTable \<Rightarrow> bool" where
  "static_ok t \<longleftrightarrow> table_inv t \<and> evictCount t = 0"

lemma search_result:
  "search st t f = (i, b) \<Longrightarrow>
     (b \<and> \<not> Sensitive f \<and> mget (byNameValue t) (Name f, Value f) \<noteq> 0 \<and>
        i = idToIndex st t (mget (byNameValue t) (Name f, Value f))) \<or>
     (\<not> b \<and> (Sensitive f \<or> mget (byNameValue t) (Name f, Value f) = 0) \<and>
        (if mget (byName t) (Name f) = 0 then i = 0
         else i = idToIndex st t (mget (byName t) (Name f))))"
  by (auto simp: search_def split: if_splits)

interpretation static_lookup: indexed_table ents "search True" static_ok
proof unfold_locales
  fix t and f :: HeaderField and i b
  assume ok: "static_ok t"
  then have inv: "table_inv t" and ec: "evictCount t = 0" by (simp_all add: static_ok_def)
  have idx: "idToIndex True t (Suc (evictCount t + k)) = Suc k" for k
    by (simp add: idToIndex_def)
  note tm = table_inv_mget [OF inv]
  have nz: "mget (byName t) (Name f) \<noteq> 0 \<Longrightarrow> idToIndex True t (mget (byName t) (Name f)) \<noteq> 0"
    "mget (byNameValue t) (Name f, Value f) \<noteq> 0 \<Longrightarrow>
      idToIndex True t (mget (byNameValue t) (Name f, Value f)) \<noteq> 0"
    using tm(2) [of "Name f"] tm(4) [of "Name f" "Value f"] by (auto simp: idx)
  show "search True t f = (i, True) \<Longrightarrow>
      0 < i \<and> i \<le> length (ents t) \<and> \<not> Sensitive f \<and>
      Name (ents t ! (i - 1)) = Name f \<and> Value (ents t ! (i - 1)) = Value f"
    using tm(4) [of "Name f" "Value f"] by (auto dest!: search_result simp: idx)
  show "search True t f = (i, False) \<Longrightarrow> i \<noteq> 0 \<Longrightarrow>
      i \<le> length (ents t) \<and> Name (ents t ! (i - 1)) = Name f"
    using tm(2) [of "Name f"] by (auto dest!: search_result simp: idx split: if_splits)
  show "search True t f = (0, b) \<Longrightarrow> \<forall>e \<in> set (ents t). Name e \<noteq> Name f"
    unfolding set_rev tm(1) [symmetric] using nz by (auto dest!: search_result split: if_splits)
  show "\<not> Sensitive f \<Longrightarrow> search True t f = (i, False) \<Longrightarrow>
      \<forall>e \<in> set (ents t). Name e \<noteq> Name f \<or> Value e \<noteq> Value f"
    using tm(3) [of "Name f" "Value f"] by (auto dest!: search_result)
qed

interpretation dynamic_lookup: indexed_table "\<lambda>t. rev (ents t)" "search False" table_inv
proof unfold_locales
  fix t and f :: HeaderField and i b
  assume inv: "table_inv t"
  have idx: "idToIndex False t (Suc (evictCount t + k)) = length (ents t) - k" for k
    by (simp add: idToIndex_def table_len_def)
  have at: "rev (ents t) ! (length (ents t) - Suc k) = ents t ! k" if "k < length (ents t)" for k
    using that by (simp add: rev_nth)
  note tm = table_inv_mget [OF inv]
  have nz: "mget (byName t) (Name f) \<noteq> 0 \<Longrightarrow> idToIndex False t (mget (byName t) (Name f)) \<noteq> 0"
    "mget (byNameValue t) (Name f, Value f) \<noteq> 0 \<Longrightarrow>
      idToIndex False t (mget (byNameValue t) (Name f, Value f)) \<noteq> 0"
    using tm(2) [of "Name f"] tm(4) [of "Name f" "Value f"] by (auto simp: idx)
  show "search False t f = (i, True) \<Longrightarrow>
      0 < i \<and> i \<le> length (rev (ents t)) \<and> \<not> Sensitive f \<and>
      Name (rev (ents t) ! (i - 1)) = Name f \<and> Value (rev (ents t) ! (i - 1)) = Value f"
    using tm(4) [of "Name f" "Value f"] by (auto dest!: search_result simp: idx at)
  show "search False t f = (i, False) \<Longrightarrow> i \<noteq> 0 \<Longrightarrow>
      i \<le> length (rev (ents t)) \<and> Name (rev (ents t) ! (i - 1)) = Name f"
    using tm(2) [of "Name f"] by (auto dest!: search_result simp: idx at split: if_splits)
  show "search False t f = (0, b) \<Longrightarrow> \<forall>e \<in> set (rev (ents t)). Name e \<noteq> Name f"
    unfolding set_rev tm(1) [symmetric] using nz by (auto dest!: search_result split: if_splits)
  show "\<not> Sensitive f \<Longrightarrow> search False t f = (i, False) \<Longrightarrow>
      \<forall>e \<in> set (rev (ents t)). Name e \<noteq> Name f \<or> Value e \<noteq> Value f"
    using tm(3) [of "Name f" "Value f"] by (auto dest!: search_result)
qed

text \<open>
  The single index space of RFC 7541 section 2.3.3: the entries of a static table followed by
  those of a dynamic one. The lookup strategy of the encoder, proved for any two tables that
  keep the contract.
\<close>

locale address_space =
  st: indexed_table sentries sfind sok + dy: indexed_table dentries dfind dok
  for sentries :: "'s \<Rightarrow> HeaderField list" and sfind sok
    and dentries :: "'d \<Rightarrow> HeaderField list" and dfind dok
begin

definition find_both :: "'s \<Rightarrow> 'd \<Rightarrow> HeaderField \<Rightarrow> nat \<times> bool" where
  "find_both s d f =
     (case sfind s f of (i, m) \<Rightarrow>
        if m then (i, True)
        else case dfind d f of (j, m') \<Rightarrow>
          if m' \<or> (i = 0 \<and> j \<noteq> 0) then (j + length (sentries s), m') else (i, False))"

lemma find_both_sound:
  assumes "sok s" and "dok d" and "find_both s d f = (k, b)" and "k \<noteq> 0"
  shows "k \<le> length (sentries s @ dentries d) \<and>
    Name ((sentries s @ dentries d) ! (k - 1)) = Name f \<and>
    (b \<longrightarrow> Value ((sentries s @ dentries d) ! (k - 1)) = Value f \<and> \<not> Sensitive f)"
proof -
  obtain i m where i: "sfind s f = (i, m)" by fastforce
  obtain j m' where j: "dfind d f = (j, m')" by fastforce
  show ?thesis
  proof (cases m)
    case True
    then show ?thesis
      using st.find_match [of s f i] assms i by (auto simp: find_both_def nth_append)
  next
    case m: False
    show ?thesis
    proof (cases "m' \<or> (i = 0 \<and> j \<noteq> 0)")
      case True
      then have k: "k = j + length (sentries s)" "b = m'"
        using assms(3) i j m by (auto simp: find_both_def)
      show ?thesis
      proof (cases m')
        case True
        then show ?thesis
          using dy.find_match [of d f j] assms(2) j k by (auto simp: nth_append)
      next
        case False
        then show ?thesis
          using dy.find_name [of d f j] assms(2) j k \<open>m' \<or> _\<close> by (auto simp: nth_append)
      qed
    next
      case False
      then have "k = i" and "\<not> b" using assms(3) i j m by (auto simp: find_both_def)
      then show ?thesis
        using st.find_name [of s f i] assms(1,4) i m by (auto simp: nth_append)
    qed
  qed
qed

lemma find_both_absent:
  assumes "sok s" and "dok d" and "find_both s d f = (0, b)"
  shows "\<not> b \<and> (\<forall>e \<in> set (sentries s @ dentries d). Name e \<noteq> Name f)"
proof -
  obtain i m where i: "sfind s f = (i, m)" by fastforce
  obtain j m' where j: "dfind d f = (j, m')" by fastforce
  have m: "\<not> m" using assms i st.find_match [of s f i] by (auto simp: find_both_def)
  have m': "\<not> m'" using assms i j m dy.find_match [of d f j] by (auto simp: find_both_def)
  have "i = 0" and "j = 0" and "\<not> b" using assms(3) i j m m' by (auto simp: find_both_def split: if_splits)
  then show ?thesis
    using st.find_absent [of s f m] dy.find_absent [of d f m'] assms(1,2) i j by auto
qed

end

section \<open>Sizes\<close>

definition entries_size :: "HeaderField list \<Rightarrow> nat" where
  "entries_size es = sum_list (map nsize es)"

lemma entries_size_simps [simp]:
  "entries_size [] = 0"
  "entries_size (e # es) = nsize e + entries_size es"
  "entries_size (xs @ ys) = entries_size xs + entries_size ys"
  by (simp_all add: entries_size_def)

text \<open>The reference semantics of eviction: drop the oldest entries until the rest fits.\<close>

fun fit :: "nat \<Rightarrow> HeaderField list \<Rightarrow> HeaderField list" where
  "fit mx [] = []"
| "fit mx (e # es) = (if mx < entries_size (e # es) then fit mx es else e # es)"

lemma fit_size: "entries_size (fit mx es) \<le> mx"
  by (induction es) auto

lemma fit_id: "entries_size es \<le> mx \<Longrightarrow> fit mx es = es"
  by (cases es) auto

lemma fit_suffix: "\<exists>pre. es = pre @ fit mx es"
  by (induction es) (auto intro: exI [of _ "[]"] exI [of _ "x # xs" for x xs])

lemma fit_too_big: "mx < nsize f \<Longrightarrow> fit mx (es @ [f]) = []"
  by (induction es) auto

lemma fit_fit: "mx \<le> mx' \<Longrightarrow> fit mx (fit mx' es) = fit mx es"
  by (induction es) auto

text \<open>The invariant of a dynamic table; \<open>dt_sized\<close> is what holds between an insertion and the eviction.\<close>

definition dt_sized :: "dynamicTable \<Rightarrow> bool" where
  "dt_sized dt \<longleftrightarrow> table_inv (dtTable dt) \<and> unat (dtSize dt) = entries_size (ents (dtTable dt))"

definition dt_inv :: "dynamicTable \<Rightarrow> bool" where
  "dt_inv dt \<longleftrightarrow> dt_sized dt \<and> dtSize dt \<le> dtMaxSize dt"

lemma evict_loop_fit:
  assumes "unat sz = entries_size es"
  shows "\<exists>k sz'. evict_loop mx es sz n = (n + k, sz') \<and> k \<le> length es \<and>
    drop k es = fit (unat mx) es \<and> unat sz' = entries_size (fit (unat mx) es)"
  using assms
proof (induction mx es sz n rule: evict_loop.induct)
  case (1 mx sz n)
  then show ?case by auto
next
  case (2 mx e es sz n)
  show ?case
  proof (cases "mx < sz")
    case True
    have lt: "nsize e < 2 ^ 32"
      using "2.prems" unsigned_less [of sz, where 'a = nat] by simp
    then have "unat (sz - Size e) = entries_size es"
      using "2.prems" by (simp add: unat_sub_if' unat_Size)
    from "2.IH" [OF True this] obtain k sz' where
      "evict_loop mx es (sz - Size e) (n + 1) = (n + 1 + k, sz')" "k \<le> length es"
      "drop k es = fit (unat mx) es" "unat sz' = entries_size (fit (unat mx) es)" by auto
    with True "2.prems" show ?thesis
      by (intro exI [of _ "Suc k"] exI [of _ sz']) (simp add: word_less_nat_alt)
  next
    case False
    with "2.prems" show ?thesis
      by (intro exI [of _ 0] exI [of _ sz]) (simp add: word_less_nat_alt)
  qed
qed

lemma evict_correct:
  assumes "dt_sized dt"
  shows "dt_inv (evict dt)"
    and "ents (dtTable (evict dt)) = fit (unat (dtMaxSize dt)) (ents (dtTable dt))"
    and "dtMaxSize (evict dt) = dtMaxSize dt"
    and "allowedMaxSize (evict dt) = allowedMaxSize dt"
proof -
  obtain k sz where ev: "evict_loop (dtMaxSize dt) (ents (dtTable dt)) (dtSize dt) 0 = (k, sz)"
    and k: "k \<le> length (ents (dtTable dt))"
      "drop k (ents (dtTable dt)) = fit (unat (dtMaxSize dt)) (ents (dtTable dt))"
      "unat sz = entries_size (fit (unat (dtMaxSize dt)) (ents (dtTable dt)))"
    using assms evict_loop_fit [of "dtSize dt" "ents (dtTable dt)" "dtMaxSize dt" 0]
    by (auto simp: dt_sized_def)
  have le: "sz \<le> dtMaxSize dt" using k(3) fit_size by (simp add: word_le_nat_alt)
  show "ents (dtTable (evict dt)) = fit (unat (dtMaxSize dt)) (ents (dtTable dt))"
    using k(2) by (auto simp: evict_def ev Let_def)
  show "dt_inv (evict dt)"
    using assms k le
    by (auto simp: dt_inv_def dt_sized_def evict_def ev Let_def table_inv_evictOldest)
  show "dtMaxSize (evict dt) = dtMaxSize dt" and "allowedMaxSize (evict dt) = allowedMaxSize dt"
    by (simp_all add: evict_def ev Let_def)
qed

text \<open>
  The two mutators of a dynamic table, as the reference semantics has them: the newest
  entries that fit are kept, in order.
\<close>

lemma setMaxSize_correct:
  assumes "dt_inv dt"
  shows "dt_inv (setMaxSize dt v)"
    and "ents (dtTable (setMaxSize dt v)) = fit (unat v) (ents (dtTable dt))"
    and "dtMaxSize (setMaxSize dt v) = v"
    and "allowedMaxSize (setMaxSize dt v) = allowedMaxSize dt"
  using assms evict_correct [of "dt\<lparr>dtMaxSize := v\<rparr>"]
  by (simp_all add: setMaxSize_def dt_inv_def dt_sized_def)

lemma dt_add_correct:
  assumes "dt_inv dt" and "unat (dtSize dt) + nsize f < 2 ^ 32"
  shows "dt_inv (dt_add dt f)"
    and "ents (dtTable (dt_add dt f)) = fit (unat (dtMaxSize dt)) (ents (dtTable dt) @ [f])"
    and "dtMaxSize (dt_add dt f) = dtMaxSize dt"
    and "allowedMaxSize (dt_add dt f) = allowedMaxSize dt"
proof -
  have "unat (dtSize dt + Size f) = unat (dtSize dt) + nsize f"
    using assms(2) by (simp add: unat_plus_if' unat_Size)
  then have "dt_sized (dt\<lparr>dtTable := addEntry (dtTable dt) f, dtSize := dtSize dt + Size f\<rparr>)"
    using assms(1) by (simp add: dt_inv_def dt_sized_def table_inv_addEntry)
  from evict_correct [OF this] show "dt_inv (dt_add dt f)"
    and "ents (dtTable (dt_add dt f)) = fit (unat (dtMaxSize dt)) (ents (dtTable dt) @ [f])"
    and "dtMaxSize (dt_add dt f) = dtMaxSize dt"
    and "allowedMaxSize (dt_add dt f) = allowedMaxSize dt"
    by (simp_all add: dt_add_def)
qed

section \<open>The static table keeps the contract\<close>

lemma foldl_addEntry:
  "ents (foldl addEntry t fs) = ents t @ fs"
  "evictCount (foldl addEntry t fs) = evictCount t"
  "table_inv t \<Longrightarrow> table_inv (foldl addEntry t fs)"
  by (induction fs arbitrary: t) (simp_all add: table_inv_addEntry, simp add: addEntry_def Let_def)

lemma ents_staticTable [simp]: "ents staticTable = staticTableEntries"
  by (simp add: staticTable_def foldl_addEntry table_init_def emptyTable_def)

lemma static_ok_staticTable [simp]: "static_ok staticTable"
proof -
  have "table_init emptyTable = emptyTable" by (simp add: table_init_def emptyTable_def)
  then show ?thesis
    by (simp add: static_ok_def staticTable_def foldl_addEntry) (simp add: emptyTable_def)
qed

lemma length_staticTableEntries [simp]: "length staticTableEntries = 61"
  by (simp add: staticTableEntries_def)

lemma table_len_staticTable [simp]: "table_len staticTable = 61"
  by (simp add: table_len_def)

text \<open>The entries and their number are known without evaluating the insertions.\<close>

declare ents_staticTable [code_unfold] length_staticTableEntries [code_unfold] table_len_staticTable [code_unfold]

interpretation hpack_space:
  address_space ents "search True" static_ok "\<lambda>t. rev (ents t)" "search False" table_inv
  by unfold_locales

section \<open>Properties\<close>

text \<open>
  C14: The dynamic table implements its specification: inserting a field keeps the newest entries
  whose sizes fit the maximum, in order, and keeps the invariant (lookup maps in step with the
  entries, the recorded size equal to the sum of the entry sizes and at most the maximum).
\<close>

theorem dt_add_refines_fit:
  assumes "dt_inv dt" and "unat (dtSize dt) + nsize f < 2 ^ 32"
  shows "dt_inv (dt_add dt f) \<and>
    ents (dtTable (dt_add dt f)) = fit (unat (dtMaxSize dt)) (ents (dtTable dt) @ [f])"
  using dt_add_correct [OF assms] by blast

theorem dt_add_refines_fit_witness:
  "dt_inv (dt_add (emptyDynamicTable\<lparr>dtMaxSize := 4096\<rparr>) (hfield ''a'' ''b'')) \<and>
   ents (dtTable (dt_add (emptyDynamicTable\<lparr>dtMaxSize := 4096\<rparr>) (hfield ''a'' ''b''))) = [hfield ''a'' ''b'']"
proof -
  have "dt_inv (emptyDynamicTable\<lparr>dtMaxSize := 4096\<rparr>)"
    by (simp add: dt_inv_def dt_sized_def emptyDynamicTable_def) (simp add: emptyTable_def)
  from dt_add_refines_fit [OF this, of "hfield ''a'' ''b''"] show ?thesis
    by (simp add: emptyDynamicTable_def emptyTable_def nsize_def)
qed

text \<open>
  C27: A lookup in the dynamic table is sound and complete: it reports a full match only for an
  entry with the same name and value and only for a field that is not sensitive, a name match only
  for an entry with the same name, and no match only when no entry has the name. The index it
  reports counts from the newest entry.
\<close>

theorem search_dynamic_correct:
  assumes "table_inv t" and "search False t f = (i, full)"
  shows "if i = 0 then \<not> full \<and> (\<forall>e \<in> set (ents t). Name e \<noteq> Name f)
    else i \<le> length (ents t) \<and> Name (rev (ents t) ! (i - 1)) = Name f \<and>
      (full \<longrightarrow> Value (rev (ents t) ! (i - 1)) = Value f \<and> \<not> Sensitive f) \<and>
      (\<not> full \<and> \<not> Sensitive f \<longrightarrow> (\<forall>e \<in> set (ents t). Name e \<noteq> Name f \<or> Value e \<noteq> Value f))"
  using dynamic_lookup.find_match [OF assms(1), of f i] dynamic_lookup.find_name [OF assms(1), of f i]
    dynamic_lookup.find_absent [OF assms(1), of f full] dynamic_lookup.find_no_pair [OF assms(1), of f i] assms(2)
  by (cases full) auto

theorem search_dynamic_correct_witness:
  "Name (rev [hfield ''a'' ''b'', hfield ''c'' ''d''] ! 1) = s2b ''a''"
proof -
  let ?t = "addEntry (addEntry emptyTable (hfield ''a'' ''b'')) (hfield ''c'' ''d'')"
  have inv: "table_inv ?t" by (intro table_inv_addEntry table_inv_empty)
  have s: "search False ?t (hfield ''a'' ''x'') = (2, False)"
    by (simp add: search_def mget_def idToIndex_def addEntry_def emptyTable_def table_len_def Let_def)
  have e: "ents ?t = [hfield ''a'' ''b'', hfield ''c'' ''d'']" by (simp add: emptyTable_def)
  show ?thesis using search_dynamic_correct [OF inv s] by (simp add: e)
qed

end
