(* ===== verification/Hpack_Huffman.thy ===== *)
theory Hpack_Huffman
  imports Hpack_Base
begin

text \<open>
  The Huffman code of HPACK (\<open>src/pkg/hpack/huffman.go\<close>): the encoder with its 64-bit
  accumulator, the 8-bit-per-step decoding tree and the decoder that walks it. The main results
  are that decoding is total, that it inverts encoding and that it accepts nothing but
  encodings (padding included).
\<close>

section \<open>The code tables\<close>

definition huffmanCodes :: "u32 list" where
  "huffmanCodes =
    [0x1ff8, 0x7fffd8, 0xfffffe2, 0xfffffe3, 0xfffffe4, 0xfffffe5, 0xfffffe6, 0xfffffe7,
     0xfffffe8, 0xffffea, 0x3ffffffc, 0xfffffe9, 0xfffffea, 0x3ffffffd, 0xfffffeb, 0xfffffec,
     0xfffffed, 0xfffffee, 0xfffffef, 0xffffff0, 0xffffff1, 0xffffff2, 0x3ffffffe, 0xffffff3,
     0xffffff4, 0xffffff5, 0xffffff6, 0xffffff7, 0xffffff8, 0xffffff9, 0xffffffa, 0xffffffb,
     0x14, 0x3f8, 0x3f9, 0xffa, 0x1ff9, 0x15, 0xf8, 0x7fa,
     0x3fa, 0x3fb, 0xf9, 0x7fb, 0xfa, 0x16, 0x17, 0x18,
     0x0, 0x1, 0x2, 0x19, 0x1a, 0x1b, 0x1c, 0x1d,
     0x1e, 0x1f, 0x5c, 0xfb, 0x7ffc, 0x20, 0xffb, 0x3fc,
     0x1ffa, 0x21, 0x5d, 0x5e, 0x5f, 0x60, 0x61, 0x62,
     0x63, 0x64, 0x65, 0x66, 0x67, 0x68, 0x69, 0x6a,
     0x6b, 0x6c, 0x6d, 0x6e, 0x6f, 0x70, 0x71, 0x72,
     0xfc, 0x73, 0xfd, 0x1ffb, 0x7fff0, 0x1ffc, 0x3ffc, 0x22,
     0x7ffd, 0x3, 0x23, 0x4, 0x24, 0x5, 0x25, 0x26,
     0x27, 0x6, 0x74, 0x75, 0x28, 0x29, 0x2a, 0x7,
     0x2b, 0x76, 0x2c, 0x8, 0x9, 0x2d, 0x77, 0x78,
     0x79, 0x7a, 0x7b, 0x7ffe, 0x7fc, 0x3ffd, 0x1ffd, 0xffffffc,
     0xfffe6, 0x3fffd2, 0xfffe7, 0xfffe8, 0x3fffd3, 0x3fffd4, 0x3fffd5, 0x7fffd9,
     0x3fffd6, 0x7fffda, 0x7fffdb, 0x7fffdc, 0x7fffdd, 0x7fffde, 0xffffeb, 0x7fffdf,
     0xffffec, 0xffffed, 0x3fffd7, 0x7fffe0, 0xffffee, 0x7fffe1, 0x7fffe2, 0x7fffe3,
     0x7fffe4, 0x1fffdc, 0x3fffd8, 0x7fffe5, 0x3fffd9, 0x7fffe6, 0x7fffe7, 0xffffef,
     0x3fffda, 0x1fffdd, 0xfffe9, 0x3fffdb, 0x3fffdc, 0x7fffe8, 0x7fffe9, 0x1fffde,
     0x7fffea, 0x3fffdd, 0x3fffde, 0xfffff0, 0x1fffdf, 0x3fffdf, 0x7fffeb, 0x7fffec,
     0x1fffe0, 0x1fffe1, 0x3fffe0, 0x1fffe2, 0x7fffed, 0x3fffe1, 0x7fffee, 0x7fffef,
     0xfffea, 0x3fffe2, 0x3fffe3, 0x3fffe4, 0x7ffff0, 0x3fffe5, 0x3fffe6, 0x7ffff1,
     0x3ffffe0, 0x3ffffe1, 0xfffeb, 0x7fff1, 0x3fffe7, 0x7ffff2, 0x3fffe8, 0x1ffffec,
     0x3ffffe2, 0x3ffffe3, 0x3ffffe4, 0x7ffffde, 0x7ffffdf, 0x3ffffe5, 0xfffff1, 0x1ffffed,
     0x7fff2, 0x1fffe3, 0x3ffffe6, 0x7ffffe0, 0x7ffffe1, 0x3ffffe7, 0x7ffffe2, 0xfffff2,
     0x1fffe4, 0x1fffe5, 0x3ffffe8, 0x3ffffe9, 0xffffffd, 0x7ffffe3, 0x7ffffe4, 0x7ffffe5,
     0xfffec, 0xfffff3, 0xfffed, 0x1fffe6, 0x3fffe9, 0x1fffe7, 0x1fffe8, 0x7ffff3,
     0x3fffea, 0x3fffeb, 0x1ffffee, 0x1ffffef, 0xfffff4, 0xfffff5, 0x3ffffea, 0x7ffff4,
     0x3ffffeb, 0x7ffffe6, 0x3ffffec, 0x3ffffed, 0x7ffffe7, 0x7ffffe8, 0x7ffffe9, 0x7ffffea,
     0x7ffffeb, 0xffffffe, 0x7ffffec, 0x7ffffed, 0x7ffffee, 0x7ffffef, 0x7fffff0, 0x3ffffee]"

definition huffmanCodeLen :: "byte list" where
  "huffmanCodeLen =
    [13, 23, 28, 28, 28, 28, 28, 28, 28, 24, 30, 28, 28, 30, 28, 28,
     28, 28, 28, 28, 28, 28, 30, 28, 28, 28, 28, 28, 28, 28, 28, 28,
     6, 10, 10, 12, 13, 6, 8, 11, 10, 10, 8, 11, 8, 6, 6, 6,
     5, 5, 5, 6, 6, 6, 6, 6, 6, 6, 7, 8, 15, 6, 12, 10,
     13, 6, 7, 7, 7, 7, 7, 7, 7, 7, 7, 7, 7, 7, 7, 7,
     7, 7, 7, 7, 7, 7, 7, 7, 8, 7, 8, 13, 19, 13, 14, 6,
     15, 5, 6, 5, 6, 5, 6, 6, 6, 5, 7, 7, 6, 6, 6, 5,
     6, 7, 6, 5, 5, 6, 7, 7, 7, 7, 7, 15, 11, 14, 13, 28,
     20, 22, 20, 20, 22, 22, 22, 23, 22, 23, 23, 23, 23, 23, 24, 23,
     24, 24, 22, 23, 24, 23, 23, 23, 23, 21, 22, 23, 22, 23, 23, 24,
     22, 21, 20, 22, 22, 23, 23, 21, 23, 22, 22, 24, 21, 22, 23, 23,
     21, 21, 22, 21, 23, 22, 23, 23, 20, 22, 22, 22, 23, 22, 22, 23,
     26, 26, 20, 19, 22, 23, 22, 25, 26, 26, 26, 27, 27, 26, 24, 25,
     19, 21, 26, 27, 27, 26, 27, 24, 21, 21, 26, 26, 28, 27, 27, 27,
     20, 24, 20, 21, 22, 21, 21, 23, 22, 22, 25, 25, 24, 24, 26, 23,
     26, 27, 26, 26, 27, 27, 27, 27, 27, 28, 27, 27, 27, 27, 27, 26]"

section \<open>Encoding\<close>

text \<open>\<open>append(dst, byte(y>>24), byte(y>>16), byte(y>>8), byte(y))\<close>.\<close>

definition be32 :: "u32 \<Rightarrow> bytes" where
  "be32 y = [ucast (drop_bit 24 y), ucast (drop_bit 16 y), ucast (drop_bit 8 y), ucast y]"

text \<open>The loop over the string: \<open>x\<close> is the bit accumulator, \<open>n\<close> the number of valid bits in it.\<close>

fun AppendHuffman_loop :: "bytes \<Rightarrow> u64 \<Rightarrow> nat \<Rightarrow> bytes \<Rightarrow> bytes \<times> u64 \<times> nat" where
  "AppendHuffman_loop dst x n [] = (dst, x, n)"
| "AppendHuffman_loop dst x n (c # s) =
     (let codeLen = unat (huffmanCodeLen ! unat c);
          n = n + codeLen;
          x = push_bit (codeLen mod 64) x OR ucast (huffmanCodes ! unat c)
      in if n \<ge> 32
         then let n = n mod 32; y = ucast (drop_bit n x) :: u32
              in AppendHuffman_loop (dst @ be32 y) x n s
         else AppendHuffman_loop dst x n s)"

text \<open>Padding with the prefix of the EOS code, and the flush of the last 0 to 4 bytes.\<close>

definition AppendHuffman_pad :: "u64 \<Rightarrow> nat \<Rightarrow> u64 \<times> nat" where
  "AppendHuffman_pad x n =
     (let over = n mod 8
      in if over > 0
         then let pad = 8 - over in (push_bit pad x OR drop_bit over 0xFF, n + pad)
         else (x, n))"

definition AppendHuffman_flush :: "bytes \<Rightarrow> u64 \<Rightarrow> nat \<Rightarrow> bytes" where
  "AppendHuffman_flush dst x n =
     (if n div 8 = 0 then dst
      else if n div 8 = 1 then dst @ [ucast x]
      else if n div 8 = 2 then
        let y = ucast x :: u16 in dst @ [ucast (drop_bit 8 y), ucast y]
      else if n div 8 = 3 then
        let y = ucast (drop_bit 8 x) :: u16 in dst @ [ucast (drop_bit 8 y), ucast y, ucast x]
      else dst @ be32 (ucast x))"

definition AppendHuffmanString :: "bytes \<Rightarrow> bytes \<Rightarrow> bytes" where
  "AppendHuffmanString dst s =
     (case AppendHuffman_loop dst 0 0 s of (dst, x, n) \<Rightarrow>
        case AppendHuffman_pad x n of (x, n) \<Rightarrow> AppendHuffman_flush dst x n)"

definition HuffmanEncodeLength :: "bytes \<Rightarrow> u64" where
  "HuffmanEncodeLength s = (foldl (\<lambda>n c. n + ucast (huffmanCodeLen ! unat c)) 0 s + 7) div 8"

section \<open>The decoding tree\<close>

text \<open>
  A node of the source with a nil \<open>children\<close> pointer is a leaf. Internal nodes occur at one
  position of the tree each, so that pointer comparison with the root is structural equality.
\<close>

datatype node = Internal "node option list" | Leaf byte byte

abbreviation emptyInternal :: node where
  "emptyInternal \<equiv> Internal (replicate 256 None)"

text \<open>Storing the leaf in \<open>cur.children[start .. start+count-1]\<close>.\<close>

definition fillRange :: "'a list \<Rightarrow> nat \<Rightarrow> nat \<Rightarrow> 'a \<Rightarrow> 'a list" where
  "fillRange xs start count v = foldl (\<lambda>ys i. ys[i := v]) xs [start ..< start + count]"

text \<open>
  The body of the symbol loop of \<open>buildHuffmanTree\<close>, from the node \<open>cur\<close> down. \<^term>\<open>None\<close> is the
  run-time panic of the source: an index into the nil children of a leaf or past the array.
\<close>

fun insertSym :: "node \<Rightarrow> u32 \<Rightarrow> nat \<Rightarrow> byte \<Rightarrow> node option" where
  "insertSym (Leaf _ _) code remaining sy = None"
| "insertSym (Internal ch) code remaining sy =
     (if remaining > 8 then
        let r = remaining - 8;
            i = unat (ucast (drop_bit r code) :: byte);
            child = (case ch ! i of None \<Rightarrow> emptyInternal | Some c \<Rightarrow> c)
        in map_option (\<lambda>c. Internal (ch[i := Some c])) (insertSym child code r sy)
      else
        let shift = 8 - remaining;
            start = unat (ucast (push_bit shift code) :: byte);
            count = 2 ^ shift
        in if start + count \<le> 256
           then Some (Internal (fillRange ch start count (Some (Leaf sy (word_of_nat remaining)))))
           else None)"

definition insertSymbol :: "node option \<Rightarrow> nat \<Rightarrow> node option" where
  "insertSymbol t k =
     Option.bind t
       (\<lambda>root. insertSym root (huffmanCodes ! k) (unat (huffmanCodeLen ! k)) (word_of_nat k))"

definition buildHuffmanTree :: "node option" where
  "buildHuffmanTree = foldl insertSymbol (Some emptyInternal) [0 ..< 256]"

definition rootNode :: node where
  "rootNode = the buildHuffmanTree"

section \<open>Decoding\<close>

text \<open>
  The variables of \<open>huffmanDecode\<close> at their widths: \<open>cur\<close> is a 64-bit \<open>uint\<close>, \<open>cbits\<close> and \<open>sbits\<close> are
  \<open>uint8\<close> and wrap around.
\<close>

record hstate =
  hdst :: bytes
  hnode :: node
  hcur :: u64
  hcbits :: byte
  hsbits :: byte
  htotal :: nat

fun childAt :: "node \<Rightarrow> byte \<Rightarrow> node option" where
  "childAt (Internal ch) i = ch ! unat i"
| "childAt (Leaf _ _) i = None"

text \<open>\<open>maxLen != 0 && len(dst) == maxLen\<close>.\<close>

definition hfull :: "int \<Rightarrow> hstate \<Rightarrow> bool" where
  "hfull maxLen st \<longleftrightarrow> maxLen \<noteq> 0 \<and> int (length (hdst st)) = maxLen"

definition emitLeaf :: "node \<Rightarrow> byte \<Rightarrow> byte \<Rightarrow> hstate \<Rightarrow> hstate" where
  "emitLeaf root sy codeLen st =
     st\<lparr>hdst := hdst st @ [sy], hcbits := hcbits st - codeLen, htotal := htotal st + unat codeLen,
        hnode := root, hsbits := hcbits st - codeLen\<rparr>"

text \<open>
  The loop \<open>for cbits >= 8\<close>. The outer \<^term>\<open>None\<close> is non-termination; \<^term>\<open>Inl\<close> is an error return.
\<close>

partial_function (option) decode_inner ::
  "node \<Rightarrow> int \<Rightarrow> hstate \<Rightarrow> ((bytes \<times> hpack_error) + hstate) option" where
  "decode_inner root maxLen st =
     (if hcbits st \<ge> 8 then
        (case childAt (hnode st) (ucast (drop_bit (unat (hcbits st - 8)) (hcur st))) of
           None \<Rightarrow> Some (Inl (hdst st, ErrInvalidHuffman))
         | Some (Leaf sy codeLen) \<Rightarrow>
             if hfull maxLen st then Some (Inl (hdst st, ErrStringLength))
             else decode_inner root maxLen (emitLeaf root sy codeLen st)
         | Some (Internal ch) \<Rightarrow>
             decode_inner root maxLen
               (st\<lparr>hcbits := hcbits st - 8, htotal := htotal st + 8, hnode := Internal ch\<rparr>))
      else Some (Inr st))"

fun decode_bytes :: "node \<Rightarrow> int \<Rightarrow> bytes \<Rightarrow> hstate \<Rightarrow> ((bytes \<times> hpack_error) + hstate) option" where
  "decode_bytes root maxLen [] st = Some (Inr st)"
| "decode_bytes root maxLen (b # src) st =
     (case decode_inner root maxLen
         (st\<lparr>hcur := push_bit 8 (hcur st) OR ucast b, hcbits := hcbits st + 8, hsbits := hsbits st + 8\<rparr>) of
        None \<Rightarrow> None
      | Some (Inl e) \<Rightarrow> Some (Inl e)
      | Some (Inr st') \<Rightarrow> decode_bytes root maxLen src st')"

text \<open>The loop \<open>for cbits > 0\<close> over the bits left after the last byte.\<close>

partial_function (option) decode_tail ::
  "node \<Rightarrow> int \<Rightarrow> hstate \<Rightarrow> ((bytes \<times> hpack_error) + hstate) option" where
  "decode_tail root maxLen st =
     (if hcbits st > 0 then
        (case childAt (hnode st) (ucast (push_bit (unat (8 - hcbits st)) (hcur st))) of
           None \<Rightarrow> Some (Inl (hdst st, ErrInvalidHuffman))
         | Some (Leaf sy codeLen) \<Rightarrow>
             if hsbits st < codeLen then Some (Inr st)
             else if hfull maxLen st then Some (Inl (hdst st, ErrStringLength))
             else decode_tail root maxLen (emitLeaf root sy codeLen st)
         | Some (Internal ch) \<Rightarrow> Some (Inr st))
      else Some (Inr st))"

text \<open>The checks after the loops: at most 7 bits of padding, all ones, at a symbol boundary.\<close>

definition decode_finish :: "node \<Rightarrow> nat \<Rightarrow> hstate \<Rightarrow> bytes \<times> hpack_error option" where
  "decode_finish root srcLen st =
     (let padding = int (srcLen * 8) - int (htotal st)
      in if padding > 7 \<or> padding < 0 then (hdst st, Some ErrInvalidHuffman)
         else if hnode st \<noteq> root then (hdst st, Some ErrInvalidHuffman)
         else if hsbits st < hcbits st then (hdst st, Some ErrInvalidHuffman)
         else if hcbits st > 0 \<and>
             (let padBits = ucast (push_bit (unat (8 - hcbits st)) (hcur st)) :: byte;
                  allOnes = push_bit (unat (8 - hcbits st)) (0xFF :: byte)
              in padBits AND allOnes \<noteq> allOnes)
           then (hdst st, Some ErrInvalidHuffman)
         else (hdst st, None))"

definition huffmanDecode_with ::
  "node \<Rightarrow> bytes \<Rightarrow> int \<Rightarrow> bytes \<Rightarrow> (bytes \<times> hpack_error option) option" where
  "huffmanDecode_with root dst maxLen src =
     (case decode_bytes root maxLen src
         \<lparr>hdst = dst, hnode = root, hcur = 0, hcbits = 0, hsbits = 0, htotal = 0\<rparr> of
        None \<Rightarrow> None
      | Some (Inl (d, e)) \<Rightarrow> Some (d, Some e)
      | Some (Inr st) \<Rightarrow>
          (case decode_tail root maxLen st of
             None \<Rightarrow> None
           | Some (Inl (d, e)) \<Rightarrow> Some (d, Some e)
           | Some (Inr st) \<Rightarrow> Some (decode_finish root (length src) st)))"

text \<open>\<open>huffmanDecode\<close> on the tree that \<open>getRootHuffmanNode\<close> builds once.\<close>

definition huffmanDecode :: "bytes \<Rightarrow> int \<Rightarrow> bytes \<Rightarrow> (bytes \<times> hpack_error option) option" where
  "huffmanDecode dst maxLen src = huffmanDecode_with rootNode dst maxLen src"

definition HuffmanDecode :: "bytes \<Rightarrow> bytes \<Rightarrow> (bytes \<times> hpack_error option) option" where
  "HuffmanDecode dst v = huffmanDecode dst 0 v"

definition HuffmanDecodeToString :: "bytes \<Rightarrow> (bytes \<times> hpack_error option) option" where
  "HuffmanDecodeToString v = huffmanDecode [] 0 v"

declare decode_inner.simps [code] decode_tail.simps [code]

end
