(* ===== verification/Bit_Strings.thy ===== *)
theory Bit_Strings
  imports Prelude
begin

text \<open>
  Words as bit strings, most significant bit first: the view in which bit-packing code
  (the Huffman coder of HPACK) is specified and verified.
\<close>

definition bits :: "nat \<Rightarrow> 'a::len word \<Rightarrow> bool list" where
  "bits n w = map (\<lambda>i. bit w (n - 1 - i)) [0 ..< n]"

lemma length_bits [simp]: "length (bits n w) = n"
  by (simp add: bits_def)

lemma nth_bits [simp]: "i < n \<Longrightarrow> bits n w ! i = bit w (n - 1 - i)"
  by (simp add: bits_def)

lemma bits_0 [simp]: "bits 0 w = []"
  by (simp add: bits_def)

lemma bits_eq_iff: "bits n v = bits n w \<longleftrightarrow> (\<forall>i < n. bit v i = bit w i)"
proof
  assume eq: "bits n v = bits n w"
  show "\<forall>i < n. bit v i = bit w i"
  proof (intro allI impI)
    fix i assume "i < n"
    then have "bits n v ! (n - 1 - i) = bits n w ! (n - 1 - i)" by (simp add: eq)
    with \<open>i < n\<close> show "bit v i = bit w i" by simp
  qed
next
  assume "\<forall>i < n. bit v i = bit w i"
  then show "bits n v = bits n w" by (auto intro!: nth_equalityI)
qed

lemma bits_add: "bits (a + b) w = bits a (drop_bit b w) @ bits b w"
proof (rule nth_equalityI)
  fix i assume "i < length (bits (a + b) w)"
  then show "bits (a + b) w ! i = (bits a (drop_bit b w) @ bits b w) ! i"
    by (cases "i < a") (auto simp: nth_append bit_simps add.commute)
qed simp

lemma bits_push_or:
  fixes x y :: "'a::len word"
  assumes "y < 2 ^ m" and "n + m \<le> LENGTH('a)"
  shows "bits (n + m) (push_bit m x OR y) = bits n x @ bits m y"
proof -
  have "bits n (drop_bit m (push_bit m x OR y)) = bits n x"
    using assms word_bound_high_bits [OF assms(1)]
    unfolding bits_eq_iff by (auto simp: bit_simps)
  moreover have "bits m (push_bit m x OR y) = bits m y"
    unfolding bits_eq_iff by (auto simp: bit_simps)
  ultimately show ?thesis by (simp add: bits_add)
qed

lemma bits_ucast:
  "n \<le> LENGTH('b) \<Longrightarrow> bits n (ucast (w :: 'a::len word) :: 'b::len word) = bits n w"
  unfolding bits_eq_iff by (auto simp: bit_simps dest: bit_imp_le_length)

lemma bits_inject:
  fixes v w :: "'a::len word"
  assumes "bits n v = bits n w" and "v < 2 ^ n" and "w < 2 ^ n"
  shows "v = w"
proof (rule bit_word_eqI)
  fix i assume "i < LENGTH('a)"
  show "bit v i = bit w i"
    using assms word_bound_high_bits [OF assms(2)] word_bound_high_bits [OF assms(3)]
    by (cases "i < n") (auto simp: bits_eq_iff)
qed

lemma bits_byte_inject: "bits 8 (v :: byte) = bits 8 w \<longleftrightarrow> v = w"
  by (auto simp: bits_eq_iff intro: bit_word_eqI)

lemma ex_byte_bits: "length bs = 8 \<Longrightarrow> \<exists>b :: byte. bits 8 b = bs"
proof -
  assume len: "length bs = 8"
  let ?b = "horner_sum of_bool 2 (rev bs) :: byte"
  have "bits 8 ?b = bs"
    by (rule nth_equalityI) (auto simp: len bit_horner_sum_bit_word_iff rev_nth)
  then show ?thesis by blast
qed

section \<open>Byte strings\<close>

definition bytes_bits :: "bytes \<Rightarrow> bool list" where
  "bytes_bits bs = concat (map (bits 8) bs)"

lemma bytes_bits_simps [simp]:
  "bytes_bits [] = []"
  "bytes_bits (b # bs) = bits 8 b @ bytes_bits bs"
  "bytes_bits (xs @ ys) = bytes_bits xs @ bytes_bits ys"
  by (simp_all add: bytes_bits_def)

lemma length_bytes_bits [simp]: "length (bytes_bits bs) = 8 * length bs"
  by (induction bs) simp_all

lemma bytes_bits_inject: "bytes_bits xs = bytes_bits ys \<longleftrightarrow> xs = ys"
proof
  assume eq: "bytes_bits xs = bytes_bits ys"
  then have "length (bytes_bits xs) = length (bytes_bits ys)" by simp
  then have "length xs = length ys" by simp
  from this eq show "xs = ys"
    by (induction xs ys rule: list_induct2) (simp_all add: bits_byte_inject)
qed simp

end
