(* ===== verification/Hpack_Huffman_Code.thy ===== *)
theory Hpack_Huffman_Code
  imports Hpack_Huffman Bit_Strings "HOL-Library.Multiset"
begin

text \<open>
  The code of the HPACK tables as bit strings: every symbol has a code of 5 to 30 bits, no
  code is a prefix of another, and the encoder emits the concatenated codes padded with ones.
\<close>

section \<open>Facts checked on the tables\<close>

lemma table_lengths [simp]: "length huffmanCodes = 256" "length huffmanCodeLen = 256"
  by (simp_all add: huffmanCodes_def huffmanCodeLen_def)

text \<open>The tables as integers, where the checks below evaluate fast.\<close>

definition codeInts :: "(int \<times> int) list" where
  "codeInts = zip (map uint huffmanCodes) (map uint huffmanCodeLen)"

lemma length_codeInts [simp]: "length codeInts = 256"
  by (simp add: codeInts_def)

lemma nth_codeInts: "i < 256 \<Longrightarrow> codeInts ! i = (uint (huffmanCodes ! i), uint (huffmanCodeLen ! i))"
  by (simp add: codeInts_def)

lemma tables_in_range: "list_all (\<lambda>(c, l). 5 \<le> l \<and> l \<le> 30 \<and> c < 2 ^ nat l) codeInts"
  by (simp add: codeInts_def huffmanCodes_def huffmanCodeLen_def)

definition codeLen :: "byte \<Rightarrow> nat" where
  "codeLen c = unat (huffmanCodeLen ! unat c)"

definition codeWord :: "byte \<Rightarrow> u32" where
  "codeWord c = huffmanCodes ! unat c"

definition code_bits :: "byte \<Rightarrow> bool list" where
  "code_bits c = bits (codeLen c) (codeWord c)"

lemma codeLen_bounds: "5 \<le> codeLen c" "codeLen c \<le> 30"
  and codeWord_bound: "codeWord c < 2 ^ codeLen c"
proof -
  have "unat c < 256" by (rule unat_byte_less)
  then have "5 \<le> uint (huffmanCodeLen ! unat c)" "uint (huffmanCodeLen ! unat c) \<le> 30"
      and c: "uint (huffmanCodes ! unat c) < 2 ^ nat (uint (huffmanCodeLen ! unat c))"
    using tables_in_range by (auto simp: list_all_length nth_codeInts split: prod.splits)
  then show l: "5 \<le> codeLen c" "codeLen c \<le> 30"
    using uint_nat [of "huffmanCodeLen ! unat c"] unfolding codeLen_def by linarith+
  have "int (unat (codeWord c)) < int (2 ^ codeLen c)"
    using c by (simp add: codeWord_def codeLen_def flip: unat_eq_nat_uint)
  then show "codeWord c < 2 ^ codeLen c"
    using l by (simp only: of_nat_less_iff) (simp add: word_less_nat_alt unat_exp)
qed

lemma length_code_bits [simp]: "length (code_bits c) = codeLen c"
  by (simp add: code_bits_def)

section \<open>The encoder\<close>

lemma bytes_bits_be32: "bytes_bits (be32 y) = bits 32 y"
proof -
  have "bits 32 y = bits 8 (drop_bit 24 y) @ bits 8 (drop_bit 16 y) @ bits 8 (drop_bit 8 y) @ bits 8 y"
    using bits_add [of 24 8 y] bits_add [of 16 8 "drop_bit 8 y"] bits_add [of 8 8 "drop_bit 16 y"]
    by simp
  then show ?thesis by (simp add: be32_def bits_ucast)
qed

definition codes :: "bytes \<Rightarrow> bool list" where
  "codes s = concat (map code_bits s)"

lemma codes_simps [simp]:
  "codes [] = []" "codes (c # s) = code_bits c @ codes s" "codes (s @ t) = codes s @ codes t"
  by (simp_all add: codes_def)

lemma AppendHuffman_loop_bits:
  assumes "n < 32" and "AppendHuffman_loop dst x n s = (dst', x', n')"
  shows "n' < 32 \<and> bytes_bits dst' @ bits n' x' = bytes_bits dst @ bits n x @ codes s"
  using assms
proof (induction dst x n s rule: AppendHuffman_loop.induct)
  case (1 dst x n)
  then show ?case by simp
next
  case (2 dst x n c s)
  define x1 where "x1 = push_bit (codeLen c) x OR ucast (codeWord c)"
  define n1 where "n1 = n + codeLen c"
  have l: "codeLen c \<le> 30" "codeLen c mod 64 = codeLen c" using codeLen_bounds [of c] by simp_all
  have "(ucast (codeWord c) :: u64) < 2 ^ codeLen c"
    using codeWord_bound [of c] l by (simp add: word_less_nat_alt unat_exp unat_ucast_up)
  then have acc: "bits n1 x1 = bits n x @ code_bits c"
    using "2.prems"(1) l
    by (simp add: n1_def x1_def bits_push_or code_bits_def bits_ucast)
  show ?case
  proof (cases "n1 \<ge> 32")
    case True
    have "n1 < 64" using "2.prems"(1) l by (simp add: n1_def)
    then have n1: "n1 = 32 + n1 mod 32" using True by (simp add: le_mod_geq)
    have "bits n1 x1 = bits 32 (drop_bit (n1 mod 32) x1) @ bits (n1 mod 32) x1"
      by (subst n1) (simp only: bits_add)
    then have "bytes_bits (be32 (ucast (drop_bit (n1 mod 32) x1))) @ bits (n1 mod 32) x1 = bits n1 x1"
      by (simp add: bytes_bits_be32 bits_ucast)
    moreover have "AppendHuffman_loop (dst @ be32 (ucast (drop_bit (n1 mod 32) x1))) x1 (n1 mod 32) s
        = (dst', x', n')"
      using "2.prems"(2) True l by (simp add: x1_def n1_def codeLen_def codeWord_def Let_def)
    ultimately show ?thesis
      using "2.IH"(1) [OF refl refl refl] True acc l
      by (simp add: x1_def n1_def codeLen_def codeWord_def)
  next
    case False
    moreover have "AppendHuffman_loop dst x1 n1 s = (dst', x', n')"
      using "2.prems"(2) False l by (simp add: x1_def n1_def codeLen_def codeWord_def Let_def)
    ultimately show ?thesis
      using "2.IH"(2) [OF refl refl refl] acc l
      by (simp add: x1_def n1_def codeLen_def codeWord_def)
  qed
qed

text \<open>Padding completes the last byte with ones; the flush writes the pending bytes.\<close>

definition ones :: "nat \<Rightarrow> bool list" where
  "ones k = replicate k True"

lemma AppendHuffman_pad_bits:
  assumes "n < 32" and "AppendHuffman_pad x n = (x', n')"
  shows "n' \<le> 32 \<and> 8 dvd n' \<and> bits n' x' = bits n x @ ones (n' - n) \<and> n' - n < 8 \<and> n \<le> n'"
proof (cases "n mod 8 = 0")
  case True
  with assms show ?thesis by (auto simp: AppendHuffman_pad_def Let_def ones_def)
next
  case False
  define k where "k = 8 - n mod 8"
  have k: "0 < k" "k < 8" and n': "n' = n + k" and x': "x' = push_bit k x OR drop_bit (n mod 8) 0xFF"
    using False assms(2) by (auto simp: AppendHuffman_pad_def Let_def k_def)
  have "n + (8 - r) = 8 * (q + 1)" if "8 * q + r = n" "r < 8" for q r using that by simp
  from this [OF mult_div_mod_eq mod_less_divisor [OF zero_less_numeral]]
  have n8: "n' = 8 * (n div 8 + 1)" unfolding n' k_def .
  then have d: "8 dvd n'" by simp
  have "n div 8 < 4" using assms(1) by simp
  then have "n' \<le> 32" unfolding n8 by simp
  have ff: "(0xFF :: u64) = mask 8" by (simp add: mask_eq_exp_minus_1)
  have m: "drop_bit (n mod 8) (0xFF :: u64) = mask k"
    unfolding ff k_def by (rule bit_word_eqI) (auto simp: bit_simps)
  have lt: "(mask k :: u64) < 2 ^ k"
    using and_mask_less_size [of k "- 1 :: u64"] k by (simp add: word_size)
  have "bits k (mask k :: u64) = ones k"
    using k by (auto intro!: nth_equalityI simp: ones_def bit_simps)
  then have "bits n' x' = bits n x @ ones k"
    using assms(1) k lt unfolding n' x' m by (simp add: bits_push_or)
  with d \<open>n' \<le> 32\<close> k n' show ?thesis by simp
qed

lemma AppendHuffman_flush_bits:
  assumes "n \<le> 32" and "8 dvd n"
  shows "bytes_bits (AppendHuffman_flush dst x n) = bytes_bits dst @ bits n x"
proof -
  obtain k where n: "n = 8 * k" using assms(2) by blast
  then have "k = 0 \<or> k = 1 \<or> k = 2 \<or> k = 3 \<or> k = 4" using assms(1) by auto
  moreover have "bits 16 x = bits 8 (drop_bit 8 x) @ bits 8 x" using bits_add [of 8 8 x] by simp
  moreover have "bits 24 x = bits 8 (drop_bit 16 x) @ bits 8 (drop_bit 8 x) @ bits 8 x"
    using bits_add [of 16 8 x] bits_add [of 8 8 "drop_bit 8 x"] by simp
  moreover have "bits 8 (drop_bit 8 (ucast x :: u16)) = bits 8 (drop_bit 8 x)"
    unfolding bits_eq_iff by (auto simp: bit_simps)
  moreover have "bits 8 (drop_bit 8 (ucast (drop_bit 8 x) :: u16)) = bits 8 (drop_bit 16 x)"
    unfolding bits_eq_iff by (auto simp: bit_simps)
  ultimately show ?thesis
    by (auto simp: n AppendHuffman_flush_def Let_def bits_ucast bytes_bits_be32)
qed

text \<open>
  The encoder emits the codes of the string in order, then fewer than eight one bits.
\<close>

theorem AppendHuffmanString_bits:
  "\<exists>k < 8. bytes_bits (AppendHuffmanString dst s) = bytes_bits dst @ codes s @ ones k"
proof -
  obtain dst1 x1 n1 where l: "AppendHuffman_loop dst 0 0 s = (dst1, x1, n1)" by (metis prod_cases3)
  obtain x2 n2 where p: "AppendHuffman_pad x1 n1 = (x2, n2)" by fastforce
  have 1: "n1 < 32" "bytes_bits dst1 @ bits n1 x1 = bytes_bits dst @ codes s"
    using AppendHuffman_loop_bits [OF _ l] by simp_all
  note 2 = AppendHuffman_pad_bits [OF 1(1) p]
  have "bytes_bits (AppendHuffmanString dst s) = bytes_bits dst1 @ bits n2 x2"
    using 2 by (simp add: AppendHuffmanString_def l p AppendHuffman_flush_bits)
  also have "\<dots> = (bytes_bits dst1 @ bits n1 x1) @ ones (n2 - n1)" using 2 by simp
  finally show ?thesis using 1 2 by auto
qed

section \<open>Prefix freeness\<close>

text \<open>
  Left-justified to 30 bits, the codes are disjoint intervals. Sorting the intervals by their
  lower ends makes the comparison of neighbours enough.
\<close>

definition intervals :: "(int \<times> int) list" where
  "intervals = map (\<lambda>(c, l). (c * 2 ^ nat (30 - l), (c + 1) * 2 ^ nat (30 - l))) codeInts"

lemma intervals_successive: "successively (\<lambda>p q. snd p \<le> fst q) (sort_key fst intervals)"
  by code_simp

lemma successive_intervals_sorted:
  assumes "successively (\<lambda>p q. snd p \<le> fst q) xs" and "\<forall>p \<in> set xs. fst p < (snd p :: int)"
  shows "sorted_wrt (\<lambda>p q. snd p \<le> fst q) xs"
  using assms
proof (induction xs rule: induct_list012)
  case (3 x y zs)
  then have xy: "snd x \<le> fst y" "fst y < snd y" and s: "sorted_wrt (\<lambda>p q. snd p \<le> fst q) (y # zs)"
    by simp_all
  then have "snd x \<le> fst q" if "q \<in> set zs" for q using that by force
  with xy s show ?case by simp
qed simp_all

lemma sorted_intervals_distinct:
  assumes "sorted_wrt (\<lambda>p q. snd p \<le> fst q) xs" and "\<forall>p \<in> set xs. fst p < (snd p :: int)"
  shows "distinct xs"
  using assms by (induction xs) force+

lemma intervals_nonempty: "\<forall>p \<in> set intervals. fst p < snd p"
  by (auto simp: intervals_def)

lemma intervals_disjoint:
  assumes "i < 256" "j < 256" "i \<noteq> j"
  shows "snd (intervals ! i) \<le> fst (intervals ! j) \<or> snd (intervals ! j) \<le> fst (intervals ! i)"
proof -
  let ?R = "\<lambda>p q :: int \<times> int. snd p \<le> fst q"
  let ?s = "sort_key fst intervals"
  have len: "length intervals = 256" by (simp add: intervals_def)
  have sorted: "sorted_wrt ?R ?s"
    using successive_intervals_sorted [OF intervals_successive] intervals_nonempty by simp
  then have "distinct ?s" using intervals_nonempty by (intro sorted_intervals_distinct) simp_all
  then have "distinct intervals" by (simp only: distinct_sort)
  then have ne: "intervals ! i \<noteq> intervals ! j" using assms len by (simp add: nth_eq_iff_index_eq)
  have "\<exists>a < length ?s. ?s ! a = intervals ! i" if "i < 256" for i
    using that len unfolding in_set_conv_nth [symmetric] by simp
  then obtain a b where ab: "a < length ?s" "?s ! a = intervals ! i" "b < length ?s" "?s ! b = intervals ! j"
    using assms by blast
  with ne have "a \<noteq> b" by auto
  then consider "a < b" | "b < a" by linarith
  then show ?thesis
    using sorted_wrt_nth_less [OF sorted, of a b] sorted_wrt_nth_less [OF sorted, of b a] ab
    by cases simp_all
qed

lemma intervals_nth:
  "intervals ! unat c = (uint (codeWord c) * 2 ^ (30 - codeLen c), (uint (codeWord c) + 1) * 2 ^ (30 - codeLen c))"
proof -
  have "nat (30 - uint l) = 30 - unat l" for l :: byte using uint_nat [of l] by linarith
  then show ?thesis
    using unat_byte_less [of c] by (simp add: intervals_def nth_codeInts codeWord_def codeLen_def)
qed

lemma unat_drop_bit_u32: "k < 32 \<Longrightarrow> unat (drop_bit k (w :: u32)) = unat w div 2 ^ k"
  by (simp add: drop_bit_eq_div unat_div unat_exp)

lemma drop_bit_bound:
  fixes w :: u32
  assumes "w < 2 ^ (m + k)" and "m + k < 32"
  shows "drop_bit k w < 2 ^ m"
proof -
  have "unat w < 2 ^ (m + k)" using assms by (simp add: word_less_nat_alt unat_exp)
  then have "unat w div 2 ^ k < 2 ^ m" by (simp add: power_add less_mult_imp_div_less)
  then show ?thesis
    using assms(2) by (simp add: word_less_nat_alt unat_exp unat_drop_bit_u32 del: drop_bit_eq_div)
qed

lemma scaled_quotient:
  fixes c d k e :: int
  assumes "c = d div k" and "0 < k" and "0 < e"
  shows "c * (k * e) \<le> d * e \<and> d * e < (c + 1) * (k * e)"
proof -
  have "c * k \<le> d" using assms by (metis div_mult_mod_eq le_add_same_cancel1 pos_mod_sign)
  then have "(c * k) * e \<le> d * e" using assms by (intro mult_right_mono) simp_all
  moreover have "d < (c + 1) * k"
    using pos_mod_bound [OF assms(2), of d] div_mult_mod_eq [of d k] unfolding distrib_right assms(1)
    by linarith
  then have "d * e < ((c + 1) * k) * e" using assms by (intro mult_strict_right_mono) simp_all
  ultimately show ?thesis by (simp only: mult.assoc)
qed

text \<open>No code is a prefix of the code of another symbol.\<close>

lemma code_bits_prefix:
  assumes "prefix (code_bits c) (code_bits d)"
  shows "c = d"
proof (rule ccontr)
  assume "c \<noteq> d"
  let ?m = "codeLen c" and ?n = "codeLen d"
  have le: "?m \<le> ?n" using prefix_length_le [OF assms] by simp
  have "code_bits d = bits ?m (drop_bit (?n - ?m) (codeWord d)) @ bits (?n - ?m) (codeWord d)"
    using bits_add [of ?m "?n - ?m" "codeWord d"] le by (simp add: code_bits_def)
  then have "bits ?m (codeWord c) = bits ?m (drop_bit (?n - ?m) (codeWord d))"
    using assms by (auto simp: code_bits_def prefix_def append_eq_append_conv)
  moreover have "drop_bit (?n - ?m) (codeWord d) < 2 ^ ?m"
    by (rule drop_bit_bound) (use codeWord_bound [of d] le codeLen_bounds [of d] in simp_all)
  ultimately have "codeWord c = drop_bit (?n - ?m) (codeWord d)"
    using bits_inject codeWord_bound by blast
  then have "unat (codeWord c) = unat (codeWord d) div 2 ^ (?n - ?m)"
    using le codeLen_bounds [of d] by (simp only: unat_drop_bit_u32)
  then have "int (unat (codeWord c)) = int (unat (codeWord d)) div int (2 ^ (?n - ?m))"
    by (simp only: zdiv_int)
  then have u: "uint (codeWord c) = uint (codeWord d) div 2 ^ (?n - ?m)" by simp
  let ?k = "2 ^ (?n - ?m) :: int" and ?e = "2 ^ (30 - ?n) :: int"
  have e: "2 ^ (30 - ?m) = ?k * ?e"
    using le codeLen_bounds [of d] unfolding power_add [symmetric] by simp
  have 1: "uint (codeWord c) * (?k * ?e) \<le> uint (codeWord d) * ?e \<and>
      uint (codeWord d) * ?e < (uint (codeWord c) + 1) * (?k * ?e)"
    by (rule scaled_quotient [OF u]) simp_all
  have "uint (codeWord d) * ?e < (uint (codeWord d) + 1) * ?e" by simp
  moreover have "unat c \<noteq> unat d" using \<open>c \<noteq> d\<close> by (simp add: word_unat_eq_iff)
  ultimately show False
    using 1 intervals_disjoint [of "unat c" "unat d"] unat_byte_less [of c] unat_byte_less [of d]
    unfolding intervals_nth e fst_conv snd_conv by linarith
qed

end
