(* ===== verification/Hpack_Huffman_Tree.thy ===== *)
theory Hpack_Huffman_Tree
  imports Hpack_Huffman_Code
begin

text \<open>
  The dispatch tree built by \<open>buildHuffmanTree\<close>. A node is described by the set of the
  (rest of the code, symbol) pairs that lie below it; the construction never panics and the tree
  it returns describes exactly the codes of the tables.
\<close>

section \<open>Nodes that dispatch a set of codes\<close>

type_synonym coding = "(bool list \<times> byte) set"

text \<open>The codes that continue below the child at byte \<open>b\<close>.\<close>

definition resid :: "coding \<Rightarrow> byte \<Rightarrow> coding" where
  "resid R b = {(q, s). (bits 8 b @ q, s) \<in> R \<and> q \<noteq> []}"

inductive tree_ok :: "coding \<Rightarrow> node \<Rightarrow> bool" where
  tree_okI:
    "\<lbrakk>length ch = 256;
      \<And>(b :: byte) q s. (q, s) \<in> R \<Longrightarrow> prefix q (bits 8 b) \<Longrightarrow> ch ! unat b = Some (Leaf s (word_of_nat (length q)));
      \<And>b. resid R b \<noteq> {} \<Longrightarrow> \<exists>t. ch ! unat b = Some t \<and> tree_ok (resid R b) t;
      \<And>b. resid R b = {} \<Longrightarrow> (\<nexists>q s. (q, s) \<in> R \<and> prefix q (bits 8 b)) \<Longrightarrow> ch ! unat b = None\<rbrakk>
     \<Longrightarrow> tree_ok R (Internal ch)"

inductive_simps tree_ok_Internal: "tree_ok R (Internal ch)"
  and tree_ok_Leaf: "tree_ok R (Leaf s l)"

lemma tree_ok_none:
  "tree_ok R (Internal ch) \<Longrightarrow> resid R b = {} \<Longrightarrow> (\<And>q s. (q, s) \<in> R \<Longrightarrow> \<not> prefix q (bits 8 b)) \<Longrightarrow>
   ch ! unat b = None"
  unfolding tree_ok_Internal by blast

lemma tree_ok_empty: "tree_ok {} emptyInternal"
  by (rule tree_okI) (simp_all add: resid_def unat_byte_less)

text \<open>\<open>q\<close> neither extends nor is extended by a code of \<open>R\<close>.\<close>

definition apart :: "bool list \<Rightarrow> coding \<Rightarrow> bool" where
  "apart q R \<longleftrightarrow> (\<forall>(q', s) \<in> R. \<not> prefix q q' \<and> \<not> prefix q' q)"

lemma apart_resid:
  assumes "apart (bits 8 b @ q) R"
  shows "apart q (resid R b)"
  using assms unfolding apart_def resid_def by fastforce

lemma resid_insert_same: "q \<noteq> [] \<Longrightarrow> resid (insert (bits 8 b @ q, s) R) b = insert (q, s) (resid R b)"
  by (auto simp: resid_def)

lemma resid_insert_other: "b' \<noteq> b \<Longrightarrow> resid (insert (bits 8 b @ q, s) R) b' = resid R b'"
  by (auto simp: resid_def bits_byte_inject append_eq_append_conv)

lemma resid_insert_short: "length q \<le> 8 \<Longrightarrow> resid (insert (q, s) R) b = resid R b"
proof -
  assume "length q \<le> 8"
  then have "bits 8 b @ r \<noteq> q" if "r \<noteq> []" for r
    using that by (metis add_diff_cancel_left' diff_is_0_eq length_0_conv length_append length_bits)
  then show ?thesis by (auto simp: resid_def)
qed

section \<open>The range of slots of a short code\<close>

lemma length_fillRange [simp]: "length (fillRange xs a n v) = length xs"
  unfolding fillRange_def by (induction n) (simp_all)

lemma nth_fillRange:
  assumes "a + n \<le> length xs"
  shows "fillRange xs a n v ! j = (if a \<le> j \<and> j < a + n then v else xs ! j)"
  using assms
proof (induction n)
  case (Suc n)
  have "fillRange xs a (Suc n) v = (fillRange xs a n v)[a + n := v]"
    by (simp add: fillRange_def)
  then show ?case using Suc by (auto simp: nth_list_update)
qed (auto simp: fillRange_def)

lemma bits_eq_mod:
  fixes v :: "'a::len word" and w :: "'b::len word"
  shows "bits n v = bits n w \<longleftrightarrow> unat v mod 2 ^ n = unat w mod 2 ^ n"
proof -
  have "bits n v = bits n w \<longleftrightarrow> take_bit n (unat v) = take_bit n (unat w)"
    unfolding bits_eq_iff bit_eq_iff by (auto simp: bit_simps)
  then show ?thesis by (simp add: take_bit_eq_mod)
qed

lemma slot_start:
  fixes code :: u32
  assumes "m \<le> 8"
  shows "unat (ucast (push_bit (8 - m) code) :: byte) = (unat code mod 2 ^ m) * 2 ^ (8 - m)"
proof -
  have e: "(2 :: nat) ^ 8 = 2 ^ m * 2 ^ (8 - m)" using assms by (simp flip: power_add)
  have "unat (ucast (push_bit (8 - m) code) :: byte) = (unat code * 2 ^ (8 - m)) mod 2 ^ 8"
    by (simp add: unsigned_ucast_eq take_bit_eq_mod push_bit_eq_mult unat_word_ariths unat_exp mod_mod_cancel)
  then show ?thesis unfolding e by (simp only: mult_mod_left)
qed

lemma slot_range:
  fixes code :: u32 and b :: byte
  assumes "m \<le> 8" and "0 < m"
  defines "start \<equiv> unat (ucast (push_bit (8 - m) code) :: byte)"
  shows "start + 2 ^ (8 - m) \<le> 256"
    and "prefix (bits m code) (bits 8 b) \<longleftrightarrow> start \<le> unat b \<and> unat b < start + 2 ^ (8 - m)"
proof -
  let ?k = "8 - m"
  define x where "x = unat code mod 2 ^ m"
  have start: "start = x * 2 ^ ?k" unfolding start_def x_def by (rule slot_start [OF assms(1)])
  have e: "(256 :: nat) = 2 ^ m * 2 ^ ?k" using assms(1) by (simp flip: power_add)
  have "x + 1 \<le> 2 ^ m" using mod_less_divisor [of "2 ^ m" "unat code"] by (simp add: x_def Suc_le_eq)
  then have "(x + 1) * 2 ^ ?k \<le> 2 ^ m * 2 ^ ?k" by (rule mult_right_mono) simp
  then show "start + 2 ^ ?k \<le> 256" unfolding start e by simp
  have "bits 8 b = bits m (drop_bit ?k b) @ bits ?k b" using bits_add [of m ?k b] assms(1) by simp
  then have "prefix (bits m code) (bits 8 b) \<longleftrightarrow> bits m code = bits m (drop_bit ?k b)"
    by (auto simp: prefix_def append_eq_append_conv)
  also have "\<dots> \<longleftrightarrow> x = unat b div 2 ^ ?k"
  proof -
    have "unat b div 2 ^ ?k < 2 ^ m"
      using unat_byte_less [of b] unfolding e by (simp add: less_mult_imp_div_less)
    then show ?thesis
      using assms(2) by (simp add: bits_eq_mod x_def drop_bit_eq_div unat_div unat_exp)
  qed
  also have "\<dots> \<longleftrightarrow> start \<le> unat b \<and> unat b < start + 2 ^ ?k"
    unfolding start using div_nat_eqI [of "2 ^ ?k" x "unat b"] dividend_less_div_times [of "2 ^ ?k" "unat b"]
    by (auto simp: mult.commute add.commute)
  finally show "prefix (bits m code) (bits 8 b) \<longleftrightarrow> start \<le> unat b \<and> unat b < start + 2 ^ ?k" .
qed

section \<open>Inserting a code\<close>

lemma tree_ok_insert_short:
  fixes code :: u32
  assumes ok: "tree_ok R (Internal ch)" and ap: "apart q R"
    and q: "q = bits m code" "0 < m" "m \<le> 8"
    and start: "start = unat (ucast (push_bit (8 - m) code) :: byte)"
  shows "tree_ok (insert (q, s) R)
           (Internal (fillRange ch start (2 ^ (8 - m)) (Some (Leaf s (word_of_nat m)))))"
    (is "tree_ok ?R (Internal ?ch)")
proof -
  have len: "length ch = 256" using ok by (simp add: tree_ok_Internal)
  have nth: "?ch ! unat b = (if prefix q (bits 8 b) then Some (Leaf s (word_of_nat m)) else ch ! unat b)" for b :: byte
    using slot_range [OF q(3,2), of code] len by (simp add: nth_fillRange start q(1))
  have lq: "length q = m" using q by simp
  have nq: "\<not> prefix q' (bits 8 b)" if "prefix q (bits 8 b)" "(q', s') \<in> R" for q' s' and b :: byte
    using that ap prefix_same_cases unfolding apart_def by fastforce
  have nr: "resid R b = {}" if "prefix q (bits 8 b)" for b
    using that ap unfolding apart_def resid_def by (fastforce intro: prefix_order.trans)
  show ?thesis
  proof (rule tree_okI)
    fix b :: byte and q' s'
    assume "(q', s') \<in> ?R" "prefix q' (bits 8 b)"
    with nq lq show "?ch ! unat b = Some (Leaf s' (word_of_nat (length q')))"
      using ok unfolding nth by (auto simp: tree_ok_Internal)
  next
    fix b assume "resid ?R b \<noteq> {}"
    with nr lq q show "\<exists>t. ?ch ! unat b = Some t \<and> tree_ok (resid ?R b) t"
      using ok unfolding nth by (auto simp: tree_ok_Internal resid_insert_short)
  next
    fix b assume "resid ?R b = {}" "\<nexists>q' s'. (q', s') \<in> ?R \<and> prefix q' (bits 8 b)"
    with lq q show "?ch ! unat b = None"
      unfolding nth by (auto simp: resid_insert_short intro!: tree_ok_none [OF ok])
  qed (simp add: len)
qed

lemma tree_ok_insert_long:
  assumes ok: "tree_ok R (Internal ch)" and ap: "apart (bits 8 b @ q) R" and q: "q \<noteq> []"
    and sub: "tree_ok (insert (q, s) (resid R b)) t"
  shows "tree_ok (insert (bits 8 b @ q, s) R) (Internal (ch[unat b := Some t]))"
    (is "tree_ok ?R (Internal ?ch)")
proof -
  have len: "length ch = 256" using ok by (simp add: tree_ok_Internal)
  have nth: "?ch ! unat b' = (if b' = b then Some t else ch ! unat b')" for b'
    using len unat_byte_less by (auto simp: nth_list_update word_unat_eq_iff)
  have np: "\<not> prefix q' (bits 8 b)" if "(q', s') \<in> ?R" for q' s'
    using that ap q unfolding apart_def by (fastforce simp: prefix_def)
  show ?thesis
  proof (rule tree_okI)
    fix b' :: byte and q' s'
    assume *: "(q', s') \<in> ?R" "prefix q' (bits 8 b')"
    with np have "b' \<noteq> b" by blast
    moreover have "q' \<noteq> bits 8 b @ q" using * q by (auto dest: prefix_length_le)
    ultimately show "?ch ! unat b' = Some (Leaf s' (word_of_nat (length q')))"
      using ok * unfolding nth by (auto simp: tree_ok_Internal)
  next
    fix b' assume "resid ?R b' \<noteq> {}"
    then show "\<exists>t. ?ch ! unat b' = Some t \<and> tree_ok (resid ?R b') t"
      using ok sub q unfolding nth
      by (cases "b' = b") (auto simp: tree_ok_Internal resid_insert_same resid_insert_other)
  next
    fix b' assume "resid ?R b' = {}" "\<nexists>q' s'. (q', s') \<in> ?R \<and> prefix q' (bits 8 b')"
    then show "?ch ! unat b' = None"
      using q unfolding nth
      by (cases "b' = b") (auto simp: resid_insert_same resid_insert_other intro!: tree_ok_none [OF ok])
  qed (simp add: len)
qed

lemma insertSym_ok:
  assumes "tree_ok R t" and "0 < m" and "m \<le> 32" and "apart (bits m code) R"
  shows "\<exists>t'. insertSym t code m s = Some t' \<and> tree_ok (insert (bits m code, s) R) t'"
  using assms
proof (induction t code m s arbitrary: R rule: insertSym.induct)
  case (1 sy l code m s)
  then show ?case by (simp add: tree_ok_Leaf)
next
  case (2 ch code m s)
  show ?case
  proof (cases "m > 8")
    case False
    with "2.prems" show ?thesis
      using slot_range(1) [of m code] tree_ok_insert_short [OF "2.prems"(1,4) refl "2.prems"(2) _ refl, of s]
      by (simp add: Let_def)
  next
    case True
    define r b where "r = m - 8" and "b = (ucast (drop_bit r code) :: byte)"
    have q: "bits m code = bits 8 b @ bits r code"
      using True bits_add [of 8 r code] by (simp add: r_def b_def bits_ucast)
    have r: "0 < r" "r \<le> 32" "bits r code \<noteq> []"
      using True "2.prems"(3) by (simp_all add: r_def flip: length_greater_0_conv)
    let ?c = "case ch ! unat b of None \<Rightarrow> emptyInternal | Some c \<Rightarrow> c"
    have c: "tree_ok (resid R b) ?c"
    proof (cases "resid R b = {}")
      case True
      then have "ch ! unat b = None"
        using "2.prems"(1,4) unfolding q tree_ok_Internal apart_def by (fastforce simp: prefix_def)
      with True tree_ok_empty show ?thesis by simp
    next
      case False
      with "2.prems"(1) show ?thesis by (auto simp: tree_ok_Internal)
    qed
    obtain t' where t': "insertSym ?c code r s = Some t'"
        "tree_ok (insert (bits r code, s) (resid R b)) t'"
      using "2.IH" [OF True r_def _ refl c r(1,2)] "2.prems"(4) apart_resid unfolding q
      by (auto simp: b_def)
    with tree_ok_insert_long [OF "2.prems"(1) "2.prems"(4) [unfolded q] r(3) t'(2)] True
    show ?thesis unfolding q by (simp add: Let_def flip: r_def b_def)
  qed
qed

section \<open>The tree of the tables\<close>

text \<open>What is below the node reached by the bits \<open>p\<close>.\<close>

definition below :: "bool list \<Rightarrow> coding" where
  "below p = {(q, s). code_bits s = p @ q}"

lemma buildHuffmanTree_upto:
  assumes "n \<le> 256"
  shows "\<exists>t. foldl insertSymbol (Some emptyInternal) [0 ..< n] = Some t \<and>
    tree_ok {(code_bits (word_of_nat k), word_of_nat k) | k. k < n} t"
  using assms
proof (induction n)
  case 0
  then show ?case using tree_ok_empty by simp
next
  case (Suc n)
  let ?R = "{(code_bits (word_of_nat k), word_of_nat k :: byte) | k. k < n}"
  let ?s = "word_of_nat n :: byte"
  obtain t where t: "foldl insertSymbol (Some emptyInternal) [0 ..< n] = Some t" "tree_ok ?R t"
    using Suc by auto
  have s: "unat (word_of_nat k :: byte) = k" if "k < 256" for k using that by (simp add: unsigned_of_nat take_bit_nat_eq_self)
  have "apart (code_bits ?s) ?R"
    unfolding apart_def using code_bits_prefix s Suc.prems
    by (auto, (metis less_trans Suc_le_eq nat_less_le)+)
  then obtain t' where "insertSym t (codeWord ?s) (codeLen ?s) ?s = Some t'"
      "tree_ok (insert (code_bits ?s, ?s) ?R) t'"
    using insertSym_ok [OF t(2), of "codeLen ?s" "codeWord ?s" ?s] codeLen_bounds [of ?s]
    by (auto simp: code_bits_def)
  moreover have "insert (code_bits ?s, ?s) ?R = {(code_bits (word_of_nat k), word_of_nat k) | k. k < Suc n}"
    by (auto simp: less_Suc_eq)
  moreover have "insertSymbol (Some t) n = insertSym t (codeWord ?s) (codeLen ?s) ?s"
    using s [of n] Suc.prems by (simp add: insertSymbol_def codeWord_def codeLen_def)
  ultimately show ?case using t by simp
qed

text \<open>The construction succeeds and the root dispatches all 256 codes.\<close>

lemma rootNode_ok: "buildHuffmanTree = Some rootNode" "tree_ok (below []) rootNode"
proof -
  have "{(code_bits (word_of_nat k), word_of_nat k :: byte) | k. k < 256} = below []"
    unfolding below_def by (auto intro: exI [where x = "unat (_ :: byte)"] simp: unat_byte_less)
  with buildHuffmanTree_upto [of 256] show "buildHuffmanTree = Some rootNode" "tree_ok (below []) rootNode"
    by (auto simp: rootNode_def buildHuffmanTree_def)
qed

end
