(* ===== verification/Hpack_Huffman_Correct.thy ===== *)
theory Hpack_Huffman_Correct
  imports Hpack_Huffman_Tree
begin

text \<open>
  The Huffman decoder: it returns on every input, it inverts the encoder, and it accepts nothing
  but the output of the encoder.
\<close>

section \<open>Dispatch on one byte\<close>

text \<open>\<open>p\<close> is a proper prefix of a code: the bits consumed since the last symbol.\<close>

definition inner :: "bool list \<Rightarrow> bool" where
  "inner p \<longleftrightarrow> (\<exists>s q. code_bits s = p @ q \<and> q \<noteq> [])"

lemma inner_Nil [simp]: "inner []"
proof -
  have "code_bits 0 \<noteq> []" using codeLen_bounds(1) [of 0] by (metis length_0_conv length_code_bits not_numeral_le_zero)
  then show ?thesis unfolding inner_def by blast
qed

lemma inner_length: "inner p \<Longrightarrow> length p < 30"
proof -
  assume "inner p"
  then obtain s q where "code_bits s = p @ q" "q \<noteq> []" by (auto simp: inner_def)
  then have "length p < codeLen s" by (metis length_append length_code_bits length_greater_0_conv less_add_same_cancel1)
  then show ?thesis using codeLen_bounds(2) [of s] by simp
qed

lemma inner_not_code: "inner p \<Longrightarrow> code_bits s = p @ q \<Longrightarrow> q \<noteq> []"
  unfolding inner_def using code_bits_prefix by (metis append.right_neutral append_self_conv prefix_def)

lemma resid_below: "resid (below p) b \<noteq> {} \<longleftrightarrow> inner (p @ bits 8 b)"
  by (auto simp: resid_def below_def inner_def)

lemma resid_below_eq: "inner (p @ bits 8 b) \<Longrightarrow> resid (below p) b = below (p @ bits 8 b)"
  using inner_not_code by (fastforce simp: resid_def below_def)

definition comparable :: "bool list \<Rightarrow> bool list \<Rightarrow> bool" where
  "comparable xs ys \<longleftrightarrow> prefix xs ys \<or> prefix ys xs"

lemma size_child: "t = Internal ch \<Longrightarrow> Some t' \<in> set ch \<Longrightarrow> size t' < size t"
  by (induction ch arbitrary: t) auto

lemma dispatch:
  assumes ok: "tree_ok (below p) t" and p: "inner p"
  obtains (none) "childAt t b = None" "\<And>s. \<not> comparable (code_bits s) (p @ bits 8 b)"
  | (leaf) s q where "childAt t b = Some (Leaf s (word_of_nat (length q)))"
      "code_bits s = p @ q" "q \<noteq> []" "length q \<le> 8" "prefix q (bits 8 b)"
  | (internal) ch where "childAt t b = Some (Internal ch)" "tree_ok (below (p @ bits 8 b)) (Internal ch)"
      "inner (p @ bits 8 b)" "size (Internal ch) < size t"
proof -
  obtain ch where t: "t = Internal ch" using ok by (cases t) (simp_all add: tree_ok_Leaf)
  have len: "length ch = 256" using ok by (simp add: t tree_ok_Internal)
  consider (short) q s where "code_bits s = p @ q" "prefix q (bits 8 b)"
    | (deep) "inner (p @ bits 8 b)"
    | (no) "resid (below p) b = {}" "\<And>q s. code_bits s = p @ q \<Longrightarrow> \<not> prefix q (bits 8 b)"
    using resid_below by blast
  then show ?thesis
  proof cases
    case short
    moreover have "ch ! unat b = Some (Leaf s (word_of_nat (length q)))"
      using ok short unfolding t tree_ok_Internal by (simp add: below_def)
    moreover have "length q \<le> 8" using prefix_length_le [OF short(2)] by simp
    ultimately show ?thesis using leaf [of s q] inner_not_code [OF p short(1)] by (simp add: t)
  next
    case deep
    then obtain t' where t': "ch ! unat b = Some t'" "tree_ok (below (p @ bits 8 b)) t'"
      using ok resid_below [of p b] resid_below_eq [of p b] unfolding t tree_ok_Internal by metis
    then obtain ch' where ch': "t' = Internal ch'" by (cases t') (simp_all add: tree_ok_Leaf)
    have "size t' < size t"
      using size_child [OF t] t'(1) len unat_byte_less [of b] by (metis nth_mem)
    with deep t' show ?thesis using internal [of ch'] by (simp add: ch' t)
  next
    case no
    have "\<not> comparable (code_bits s) (p @ bits 8 b)" for s
    proof
      assume "comparable (code_bits s) (p @ bits 8 b)"
      then consider "prefix (code_bits s) (p @ bits 8 b)" | "prefix (p @ bits 8 b) (code_bits s)"
        by (auto simp: comparable_def)
      then show False
      proof cases
        case 1
        then have "prefix (code_bits s) p \<or> (\<exists>q. code_bits s = p @ q \<and> prefix q (bits 8 b))"
          by (auto simp: prefix_append)
        with no(2) have "prefix (code_bits s) p" by blast
        then show False using p code_bits_prefix unfolding inner_def
          by (metis append_self_conv prefix_append prefix_def prefix_order.antisym prefix_prefix)
      next
        case 2
        then obtain q where "code_bits s = p @ bits 8 b @ q" by (auto simp: prefix_def)
        with no(1) no(2) [of s "bits 8 b @ q"] show False
          by (cases "q = []") (auto simp: resid_def below_def)
      qed
    qed
    with no show ?thesis
      using none tree_ok_none [OF ok [unfolded t], of b] by (simp add: t below_def)
  qed
qed

section \<open>The decoder on bits\<close>

text \<open>The limit on the decoded length: \<open>n\<close> symbols after \<open>d0\<close> never meet the check.\<close>

definition fits :: "int \<Rightarrow> bytes \<Rightarrow> nat \<Rightarrow> bool" where
  "fits maxLen d0 n \<longleftrightarrow> maxLen = 0 \<or> maxLen < int (length d0) \<or> int (length d0 + n) \<le> maxLen"

lemma fits_0: "fits maxLen d0 0" by (auto simp: fits_def)

lemma fits_mono: "fits maxLen d0 n \<Longrightarrow> m \<le> n \<Longrightarrow> fits maxLen d0 m" by (auto simp: fits_def)

text \<open>
  After reading the bits \<open>B\<close>: the symbols \<open>out\<close> are emitted, \<open>p\<close> is consumed on the way to the
  current node, and the low \<open>cbits\<close> bits of the accumulator are still to be read.
\<close>

definition dinv :: "int \<Rightarrow> bytes \<Rightarrow> bool list \<Rightarrow> hstate \<Rightarrow> bytes \<Rightarrow> bool list \<Rightarrow> bool" where
  "dinv maxLen d0 B st out p \<longleftrightarrow>
     hdst st = d0 @ out \<and> fits maxLen d0 (length out) \<and>
     B = codes out @ p @ bits (unat (hcbits st)) (hcur st) \<and>
     htotal st = length (codes out) + length p \<and>
     inner p \<and> 8 dvd length p \<and> tree_ok (below p) (hnode st) \<and>
     (p = [] \<longrightarrow> hnode st = rootNode) \<and> (p \<noteq> [] \<longrightarrow> size (hnode st) < size rootNode) \<and>
     unat (hsbits st) = length p + unat (hcbits st) \<and> unat (hcbits st) < 16"

lemma bits_eq_Nil [simp]: "bits n w = [] \<longleftrightarrow> n = 0"
  by (simp add: bits_def)

lemma drop_bits: "drop k (bits n w) = bits (n - k) w"
  by (rule nth_equalityI) auto

lemma bits_split_prefix:
  assumes "prefix q (bits n w)"
  shows "bits n w = q @ bits (n - length q) w"
  using assms by (metis append_eq_conv_conj drop_bits prefix_def)

lemma unat_small_of_nat: "n < 256 \<Longrightarrow> unat (word_of_nat n :: byte) = n"
  by (simp add: unsigned_of_nat take_bit_nat_eq_self)

lemma unat_byte_sub: "unat (y :: byte) \<le> unat x \<Longrightarrow> unat (x - y) = unat x - unat y"
  by (simp add: unat_sub_if')

text \<open>A leaf emits its symbol and restarts at the root.\<close>

lemma dinv_emit:
  assumes inv: "dinv maxLen d0 B st out p" and nf: "\<not> hfull maxLen st"
    and s: "code_bits s = p @ q" and q: "prefix q (bits (unat (hcbits st)) (hcur st))" "q \<noteq> []" "length q \<le> 8"
  shows "dinv maxLen d0 B (emitLeaf rootNode s (word_of_nat (length q)) st) (out @ [s]) []"
    and "unat (hcbits (emitLeaf rootNode s (word_of_nat (length q)) st)) = unat (hcbits st) - length q"
proof -
  have l: "unat (word_of_nat (length q) :: byte) = length q" using q(3) by (simp add: unat_small_of_nat)
  have le: "length q \<le> unat (hcbits st)" using prefix_length_le [OF q(1)] by simp
  show cb: "unat (hcbits (emitLeaf rootNode s (word_of_nat (length q)) st)) = unat (hcbits st) - length q"
    using le l by (simp add: emitLeaf_def unat_byte_sub)
  have "fits maxLen d0 (length (out @ [s]))"
    using inv nf by (auto simp: dinv_def fits_def hfull_def)
  moreover have "B = codes (out @ [s]) @ bits (unat (hcbits st) - length q) (hcur st)"
    using inv bits_split_prefix [OF q(1)] by (simp add: dinv_def s)
  ultimately show "dinv maxLen d0 B (emitLeaf rootNode s (word_of_nat (length q)) st) (out @ [s]) []"
    using inv cb l rootNode_ok(2) by (auto simp: dinv_def emitLeaf_def s)
qed

lemma dinv_descend:
  fixes b :: byte
  assumes inv: "dinv maxLen d0 B st out p" and b: "bits (unat (hcbits st)) (hcur st) = bits 8 b @ rest"
    and t: "tree_ok (below (p @ bits 8 b)) t" "inner (p @ bits 8 b)" "size t < size (hnode st)"
  shows "dinv maxLen d0 B (st\<lparr>hcbits := hcbits st - 8, htotal := htotal st + 8, hnode := t\<rparr>) out (p @ bits 8 b)"
    and "unat (hcbits st - 8) = unat (hcbits st) - 8"
proof -
  have le: "8 \<le> unat (hcbits st)" using arg_cong [OF b, of length] by simp
  then show cb: "unat (hcbits st - 8) = unat (hcbits st) - 8" by (simp add: unat_byte_sub)
  have "prefix (bits 8 b) (bits (unat (hcbits st)) (hcur st))" by (simp add: b)
  then have "bits (unat (hcbits st)) (hcur st) = bits 8 b @ bits (unat (hcbits st) - 8) (hcur st)"
    using bits_split_prefix by fastforce
  then show "dinv maxLen d0 B (st\<lparr>hcbits := hcbits st - 8, htotal := htotal st + 8, hnode := t\<rparr>) out (p @ bits 8 b)"
    using inv t le cb by (auto simp: dinv_def)
qed

lemma dinv_feed:
  fixes b :: byte
  assumes inv: "dinv maxLen d0 B st out p" and cb: "unat (hcbits st) < 8"
  shows "dinv maxLen d0 (B @ bits 8 b)
    (st\<lparr>hcur := push_bit 8 (hcur st) OR ucast b, hcbits := hcbits st + 8, hsbits := hsbits st + 8\<rparr>) out p"
proof -
  have b: "(ucast b :: u64) < 2 ^ 8" using unat_byte_less [of b] by (simp add: word_less_nat_alt unat_ucast_up)
  have "bits (unat (hcbits st) + 8) (push_bit 8 (hcur st) OR ucast b) = bits (unat (hcbits st)) (hcur st) @ bits 8 b"
    using cb by (subst bits_push_or [OF b]) (simp_all add: bits_ucast)
  moreover have "unat (hcbits st + 8) = unat (hcbits st) + 8" using cb by (simp add: unat_plus_if')
  moreover have "unat (hsbits st + 8) = unat (hsbits st) + 8"
    using cb inv inner_length [of p] by (simp add: unat_plus_if' dinv_def)
  ultimately show ?thesis using inv cb by (simp add: dinv_def)
qed

text \<open>Why a decoder may give up: the input is not a sequence of codes, or it is too long.\<close>

definition stuck :: "bool list \<Rightarrow> bool" where
  "stuck B \<longleftrightarrow> (\<exists>out p x. prefix (codes out @ p @ x) B \<and> inner p \<and> length x = 8 \<and>
     (\<forall>s. \<not> comparable (code_bits s) (p @ x)))"

definition too_long :: "int \<Rightarrow> bytes \<Rightarrow> bool list \<Rightarrow> bool" where
  "too_long maxLen d0 B \<longleftrightarrow> (\<exists>out. prefix (codes out) B \<and> \<not> fits maxLen d0 (length out))"

fun gave_up :: "int \<Rightarrow> bytes \<Rightarrow> bool list \<Rightarrow> bytes \<times> hpack_error \<Rightarrow> bool" where
  "gave_up maxLen d0 B (d, e) \<longleftrightarrow>
     (e = ErrInvalidHuffman \<and> stuck B) \<or> (e = ErrStringLength \<and> too_long maxLen d0 B)"

lemma gave_up_append: "gave_up maxLen d0 B e \<Longrightarrow> gave_up maxLen d0 (B @ B') e"
  by (cases e) (auto simp: stuck_def too_long_def intro: prefix_prefix)

lemma dinv_too_long:
  assumes "dinv maxLen d0 B st out p" and "hfull maxLen st"
    and "code_bits s = p @ q" and "prefix q (bits (unat (hcbits st)) (hcur st))"
  shows "too_long maxLen d0 B"
proof -
  have "\<not> fits maxLen d0 (length (out @ [s]))" using assms(1,2) by (auto simp: dinv_def hfull_def fits_def)
  moreover have "prefix (codes (out @ [s])) B" using assms by (simp add: dinv_def)
  ultimately show ?thesis unfolding too_long_def by blast
qed

text \<open>The loop over whole bytes returns, in a state with fewer than 8 bits to read.\<close>

lemma decode_inner_run:
  assumes "dinv maxLen d0 B st out p"
  shows "\<exists>r. decode_inner rootNode maxLen st = Some r \<and>
    (case r of Inl e \<Rightarrow> gave_up maxLen d0 B e
     | Inr st' \<Rightarrow> \<exists>out' p'. dinv maxLen d0 B st' out' p' \<and> unat (hcbits st') < 8)"
  using assms
proof (induction "unat (hcbits st)" arbitrary: st out p rule: less_induct)
  case less
  note inv = less.prems
  show ?case
  proof (cases "hcbits st \<ge> 8")
    case False
    then have "unat (hcbits st) < 8" by (simp add: word_le_nat_alt)
    with inv False show ?thesis by (subst decode_inner.simps) auto
  next
    case True
    let ?n = "unat (hcbits st)"
    have n: "8 \<le> ?n" "unat (hcbits st - 8) = ?n - 8" using True by (simp_all add: word_le_nat_alt unat_byte_sub)
    define b where "b = (ucast (drop_bit (?n - 8) (hcur st)) :: byte)"
    have split: "bits ?n (hcur st) = bits 8 b @ bits (?n - 8) (hcur st)"
      using bits_add [of 8 "?n - 8" "hcur st"] n by (simp add: b_def bits_ucast)
    have ok: "tree_ok (below p) (hnode st)" "inner p" using inv by (simp_all add: dinv_def)
    from ok show ?thesis
    proof (cases rule: dispatch [where b = b])
      case none
      have "prefix (codes out @ p @ bits 8 b) B" using inv split by (simp add: dinv_def)
      then have "stuck B"
        unfolding stuck_def using ok(2) none(2)
        by (intro exI [of _ out] exI [of _ p] exI [of _ "bits 8 b"]) simp
      then show ?thesis
        using True n none(1) by (subst decode_inner.simps) (simp flip: b_def)
    next
      case (leaf s q)
      have pre: "prefix q (bits ?n (hcur st))" using leaf(5) by (simp add: split)
      show ?thesis
      proof (cases "hfull maxLen st")
        case True
        with dinv_too_long [OF inv True leaf(2) pre] \<open>hcbits st \<ge> 8\<close> n leaf(1) show ?thesis
          by (subst decode_inner.simps) (simp flip: b_def)
      next
        case False
        note e = dinv_emit [OF inv False leaf(2) pre leaf(3,4)]
        have "?n - length q < ?n" using n leaf(3) by (simp add: diff_less)
        then show ?thesis
          using less.hyps [OF _ e(1)] e(2) True n leaf(1) False
          by (subst decode_inner.simps) (simp flip: b_def)
      qed
    next
      case (internal ch)
      note e = dinv_descend [OF inv split internal(2,3,4)]
      then show ?thesis
        using less.hyps [OF _ e(1)] e(2) True n internal(1)
        by (subst decode_inner.simps) (simp flip: b_def)
    qed
  qed
qed

lemma decode_bytes_run:
  assumes "dinv maxLen d0 B st out p" and "unat (hcbits st) < 8"
  shows "\<exists>r. decode_bytes rootNode maxLen src st = Some r \<and>
    (case r of Inl e \<Rightarrow> gave_up maxLen d0 (B @ bytes_bits src) e
     | Inr st' \<Rightarrow> \<exists>out' p'. dinv maxLen d0 (B @ bytes_bits src) st' out' p' \<and> unat (hcbits st') < 8)"
  using assms
proof (induction src arbitrary: B st out p)
  case (Cons b src)
  note fed = dinv_feed [OF Cons.prems, of b]
  obtain r where r: "decode_inner rootNode maxLen
        (st\<lparr>hcur := push_bit 8 (hcur st) OR ucast b, hcbits := hcbits st + 8, hsbits := hsbits st + 8\<rparr>) = Some r"
      "case r of Inl e \<Rightarrow> gave_up maxLen d0 (B @ bits 8 b) e
       | Inr st' \<Rightarrow> \<exists>out' p'. dinv maxLen d0 (B @ bits 8 b) st' out' p' \<and> unat (hcbits st') < 8"
    using decode_inner_run [OF fed] by blast
  show ?case
  proof (cases r)
    case (Inl e)
    with r show ?thesis using gave_up_append [of maxLen d0 "B @ bits 8 b" e "bytes_bits src"] by simp
  next
    case (Inr st')
    with r obtain out' p' where "dinv maxLen d0 (B @ bits 8 b) st' out' p'" "unat (hcbits st') < 8" by auto
    note IH = Cons.IH [OF this]
    have eq: "(B @ bits 8 b) @ bytes_bits src = B @ bytes_bits (b # src)" by simp
    show ?thesis using IH [unfolded eq] r(1) Inr by simp
  qed
qed auto

section \<open>The bits after the last byte\<close>

lemma tail_bits:
  "n \<le> 8 \<Longrightarrow> bits 8 (ucast (push_bit (8 - n) (w :: u64)) :: byte) = bits n w @ replicate (8 - n) False"
  by (rule nth_equalityI) (auto simp: nth_append bit_simps)

text \<open>
  A leaf below the root may claim more bits than are left: \<open>cbits\<close> then wraps around. From there
  on the loop still ends, and more bits are accounted for than were read.
\<close>

lemma decode_tail_wrapped:
  assumes "hnode st = rootNode" and "hsbits st = hcbits st"
  shows "\<exists>r. decode_tail rootNode maxLen st = Some r \<and> (\<forall>st'. r = Inr st' \<longrightarrow> htotal st \<le> htotal st')"
  using assms
proof (induction "unat (hcbits st)" arbitrary: st rule: less_induct)
  case less
  define b where "b = (ucast (push_bit (unat (8 - hcbits st)) (hcur st)) :: byte)"
  show ?case
  proof (cases "hcbits st > 0")
    case False
    then show ?thesis by (subst decode_tail.simps) auto
  next
    case pos: True
    have "tree_ok (below []) (hnode st)" "inner []" using less.prems rootNode_ok(2) by simp_all
    then show ?thesis
    proof (cases rule: dispatch [where b = b])
      case none
      then show ?thesis using pos by (subst decode_tail.simps) (simp flip: b_def)
    next
      case (internal ch)
      then show ?thesis using pos by (subst decode_tail.simps) (simp flip: b_def)
    next
      case (leaf s q)
      let ?l = "word_of_nat (length q) :: byte"
      have l: "unat ?l = length q" "0 < length q" using leaf(3,4) by (simp_all add: unat_small_of_nat)
      show ?thesis
      proof (cases "hsbits st < ?l \<or> hfull maxLen st")
        case True
        then show ?thesis using pos leaf(1) by (subst decode_tail.simps) (auto simp flip: b_def)
      next
        case False
        let ?st = "emitLeaf rootNode s ?l st"
        have "unat (hcbits ?st) = unat (hcbits st) - length q" "unat (hcbits st) > 0"
          using False l less.prems(2) pos
          by (simp_all add: emitLeaf_def unat_byte_sub word_less_nat_alt)
        with l have "unat (hcbits ?st) < unat (hcbits st)" by simp
        moreover have "hnode ?st = rootNode" "hsbits ?st = hcbits ?st" "htotal st \<le> htotal ?st"
          by (simp_all add: emitLeaf_def)
        ultimately obtain r where "decode_tail rootNode maxLen ?st = Some r"
            "\<forall>st'. r = Inr st' \<longrightarrow> htotal st \<le> htotal st'"
          using less.hyps [of ?st] by (meson le_trans)
        with pos leaf(1) False show ?thesis by (subst decode_tail.simps) (simp flip: b_def)
      qed
    qed
  qed
qed

lemma decode_tail_run:
  assumes "dinv maxLen d0 B st out p" and "unat (hcbits st) < 8"
  shows "\<exists>r. decode_tail rootNode maxLen st = Some r \<and>
    (\<forall>st'. r = Inr st' \<longrightarrow> length B < htotal st' \<or>
      (\<exists>out' p'. dinv maxLen d0 B st' out' p' \<and> unat (hcbits st') < 8))"
  using assms
proof (induction "unat (hcbits st)" arbitrary: st out p rule: less_induct)
  case less
  note inv = less.prems(1)
  let ?n = "unat (hcbits st)"
  define b where "b = (ucast (push_bit (8 - ?n) (hcur st)) :: byte)"
  have sh: "unat (8 - hcbits st) = 8 - ?n" using less.prems(2) by (simp add: unat_byte_sub)
  have b: "bits 8 b = bits ?n (hcur st) @ replicate (8 - ?n) False"
    using less.prems(2) unfolding b_def by (intro tail_bits) simp
  show ?case
  proof (cases "hcbits st > 0")
    case False
    then show ?thesis using less.prems by (subst decode_tail.simps) auto
  next
    case pos: True
    have "tree_ok (below p) (hnode st)" "inner p" using inv by (simp_all add: dinv_def)
    then show ?thesis
    proof (cases rule: dispatch [where b = b])
      case none
      then show ?thesis using pos by (subst decode_tail.simps) (simp add: sh flip: b_def)
    next
      case (internal ch)
      then show ?thesis using pos less.prems by (subst decode_tail.simps) (auto simp: sh simp flip: b_def)
    next
      case (leaf s q)
      let ?l = "word_of_nat (length q) :: byte"
      let ?st = "emitLeaf rootNode s ?l st"
      have l: "unat ?l = length q" "0 < length q" using leaf(3,4) by (simp_all add: unat_small_of_nat)
      consider (stop) "hsbits st < ?l \<or> hfull maxLen st"
        | (emit) "\<not> (hsbits st < ?l \<or> hfull maxLen st)" "length q \<le> ?n"
        | (wrap) "\<not> (hsbits st < ?l \<or> hfull maxLen st)" "?n < length q"
        by linarith
      then show ?thesis
      proof cases
        case stop
        then show ?thesis using pos leaf(1) less.prems
          by (subst decode_tail.simps) (auto simp: sh simp flip: b_def)
      next
        case emit
        then have "prefix q (bits ?n (hcur st))" using leaf(5) unfolding b by (auto simp: prefix_append)
        note e = dinv_emit [OF inv _ leaf(2) this leaf(3,4)]
        have "unat (hcbits ?st) = ?n - length q" using e(2) emit by simp
        then have "unat (hcbits ?st) < ?n" "unat (hcbits ?st) < 8" using emit l less.prems(2) by linarith+
        then have "\<exists>r. decode_tail rootNode maxLen ?st = Some r \<and>
            (\<forall>st'. r = Inr st' \<longrightarrow> length B < htotal st' \<or>
              (\<exists>out' p'. dinv maxLen d0 B st' out' p' \<and> unat (hcbits st') < 8))"
          using less.hyps [of ?st] e(1) emit by blast
        then show ?thesis using pos leaf(1) emit by (subst decode_tail.simps) (simp add: sh flip: b_def)
      next
        case wrap
        have "length B < htotal ?st" using inv wrap l by (simp add: dinv_def emitLeaf_def)
        moreover have "hnode ?st = rootNode" "hsbits ?st = hcbits ?st" by (simp_all add: emitLeaf_def)
        ultimately show ?thesis
          using decode_tail_wrapped [of ?st maxLen] pos leaf(1) wrap
          by (subst decode_tail.simps) (auto simp: sh simp flip: b_def)
      qed
    qed
  qed
qed

section \<open>Unique decoding\<close>

lemma inner_not_prefix: "inner p \<Longrightarrow> \<not> prefix (code_bits s) p"
  unfolding inner_def using code_bits_prefix
  by (metis append_self_conv prefix_append prefix_def prefix_order.antisym prefix_prefix)

lemma replicate_prefix: "m \<le> n \<Longrightarrow> prefix (replicate m x) (replicate n x)"
  by (metis le_add_diff_inverse prefixI replicate_add)

text \<open>No code of up to 28 bits is all ones: it would be a prefix of the code of the symbol 10.\<close>

lemma code_not_ones:
  assumes "n \<le> 28"
  shows "code_bits s \<noteq> ones n"
proof
  assume eq: "code_bits s = ones n"
  have c: "codeLen 10 = 30" "codeWord 10 = 0x3ffffffc"
    by (simp_all add: codeLen_def codeWord_def huffmanCodes_def huffmanCodeLen_def)
  have "code_bits 10 = ones 28 @ [False, False]"
    unfolding code_bits_def c by (simp add: bits_def ones_def upt_rec bit_simps) (simp add: numeral_eq_Suc)
  moreover have "prefix (ones n) (ones 28)" unfolding ones_def by (rule replicate_prefix [OF assms])
  ultimately have "prefix (code_bits s) (code_bits 10)" unfolding eq by (simp add: prefix_prefix)
  then have "s = 10" by (rule code_bits_prefix)
  then show False using arg_cong [OF eq, of length] c assms by (simp add: ones_def)
qed

text \<open>The padding of fewer than 8 ones, filled up with zeros, meets a child of the root.\<close>

lemma padding_child:
  assumes "0 < k" and "k < 8"
  shows "\<exists>s. comparable (code_bits s) (ones k @ replicate (8 - k) False)"
proof -
  have c: "code_bits 61 = bits 6 (0x20 :: u32)" "code_bits 69 = bits 7 (0x60 :: u32)"
    "code_bits 85 = bits 7 (0x70 :: u32)" "code_bits 119 = bits 7 (0x78 :: u32)"
    "code_bits 38 = bits 8 (0xf8 :: u32)" "code_bits 88 = bits 8 (0xfc :: u32)"
    "code_bits 33 = bits 10 (0x3f8 :: u32)"
    by (simp_all add: code_bits_def codeLen_def codeWord_def huffmanCodes_def huffmanCodeLen_def)
  have b: "bits 6 (0x20 :: u32) = [True, False, False, False, False, False]"
    "bits 7 (0x60 :: u32) = [True, True, False, False, False, False, False]"
    "bits 7 (0x70 :: u32) = [True, True, True, False, False, False, False]"
    "bits 7 (0x78 :: u32) = [True, True, True, True, False, False, False]"
    "bits 8 (0xf8 :: u32) = [True, True, True, True, True, False, False, False]"
    "bits 8 (0xfc :: u32) = [True, True, True, True, True, True, False, False]"
    "bits 10 (0x3f8 :: u32) = [True, True, True, True, True, True, True, False, False, False]"
    by (simp_all add: bits_def upt_rec bit_simps)
  have "k = 1 \<or> k = 2 \<or> k = 3 \<or> k = 4 \<or> k = 5 \<or> k = 6 \<or> k = 7" using assms by linarith
  then show ?thesis
    using c [unfolded b] unfolding comparable_def ones_def
    by (elim disjE; simp add: numeral_eq_Suc)
       (metis (no_types) Cons_prefix_Cons Nil_prefix)+
qed

lemma codes_prefix:
  assumes "prefix (codes out) (codes s @ ones k)" and "k < 8"
  shows "prefix out s"
  using assms(1)
proof (induction out arbitrary: s)
  case (Cons c out)
  show ?case
  proof (cases s)
    case Nil
    then have "prefix (code_bits c) (ones k)" using Cons.prems by (auto dest: append_prefixD)
    then have "code_bits c = ones (codeLen c)" "codeLen c \<le> k"
      unfolding ones_def
      by (metis (no_types) length_code_bits in_set_replicate replicate_eqI set_mono_prefix subsetD)
         (metis \<open>prefix (code_bits c) (ones k)\<close> length_code_bits length_replicate ones_def prefix_length_le)
    then show ?thesis using code_not_ones [of "codeLen c" c] assms(2) by simp
  next
    case (Cons d t)
    then have "prefix (code_bits c) (code_bits d @ codes t @ ones k)"
        "prefix (code_bits d) (code_bits d @ codes t @ ones k)"
      using Cons.prems by (auto dest: append_prefixD)
    then have "c = d" using prefix_same_cases code_bits_prefix by metis
    with Cons Cons.prems Cons.IH [of t] show ?thesis by simp
  qed
qed simp

lemma not_stuck:
  assumes "k < 8"
  shows "\<not> stuck (codes s @ ones k)"
proof
  assume "stuck (codes s @ ones k)"
  then obtain out p x where *: "prefix (codes out @ p @ x) (codes s @ ones k)" "length x = 8"
      "\<And>s. \<not> comparable (code_bits s) (p @ x)"
    unfolding stuck_def by blast
  then obtain s' where s: "s = out @ s'" using codes_prefix [OF _ assms] by (metis append_prefixD prefix_def)
  with * have p: "prefix (p @ x) (codes s' @ ones k)" by simp
  show False
  proof (cases s')
    case Nil
    then show False using prefix_length_le [OF p] * assms by (simp add: ones_def)
  next
    case (Cons d t)
    then have "prefix (code_bits d) (codes s' @ ones k)" by simp
    then show False using p *(3) [of d] prefix_same_cases unfolding comparable_def by blast
  qed
qed

text \<open>On the encoding of \<open>s\<close> the last loop emits what is left of \<open>s\<close> and stops at the padding.\<close>

lemma decode_tail_padding:
  assumes inv: "dinv maxLen d0 B st out []" and k: "bits (unat (hcbits st)) (hcur st) = ones k" "k < 8"
  shows "decode_tail rootNode maxLen st = Some (Inr st)"
proof -
  have n: "unat (hcbits st) = k" using arg_cong [OF k(1), of length] by (simp add: ones_def)
  define b where "b = (ucast (push_bit (8 - k) (hcur st)) :: byte)"
  have sh: "unat (8 - hcbits st) = 8 - k" using n k by (simp add: unat_byte_sub)
  have b: "bits 8 b = ones k @ replicate (8 - k) False"
    using tail_bits [of k "hcur st"] k n by (simp add: b_def)
  show ?thesis
  proof (cases "hcbits st > 0")
    case False
    then show ?thesis by (subst decode_tail.simps) auto
  next
    case pos: True
    then have "0 < k" using n by (simp add: word_less_nat_alt)
    have "tree_ok (below []) (hnode st)" "inner []" using inv rootNode_ok(2) by (simp_all add: dinv_def)
    then show ?thesis
    proof (cases rule: dispatch [where b = b])
      case none
      then show ?thesis using padding_child [OF \<open>0 < k\<close> k(2)] b by auto
    next
      case (internal ch)
      then show ?thesis using pos by (subst decode_tail.simps) (simp add: sh flip: b_def)
    next
      case (leaf s q)
      have "k < length q"
      proof (rule ccontr)
        assume "\<not> k < length q"
        then have "prefix q (ones k)" using leaf(5) unfolding b by (auto simp: prefix_append ones_def)
        then have "q = ones (length q)"
          unfolding ones_def by (metis in_set_replicate replicate_eqI set_mono_prefix subsetD)
        with leaf(2,4) code_not_ones [of "length q" s] show False by simp
      qed
      moreover have "unat (hsbits st) = k" using inv n by (simp add: dinv_def)
      ultimately have "hsbits st < word_of_nat (length q)"
        using leaf(4) by (simp add: word_less_nat_alt unat_small_of_nat)
      then show ?thesis using pos leaf(1) by (subst decode_tail.simps) (simp add: sh flip: b_def)
    qed
  qed
qed

lemma decode_tail_codes:
  assumes "dinv maxLen d0 (codes (out @ s) @ ones k) st out p" and "unat (hcbits st) < 8"
    and "k < 8" and "fits maxLen d0 (length (out @ s))"
  shows "\<exists>st'. decode_tail rootNode maxLen st = Some (Inr st') \<and>
    dinv maxLen d0 (codes (out @ s) @ ones k) st' (out @ s) [] \<and> unat (hcbits st') = k"
  using assms(1,2,4)
proof (induction s arbitrary: st out p)
  case Nil
  then have eq: "p @ bits (unat (hcbits st)) (hcur st) = ones k" by (simp add: dinv_def)
  have "length p + unat (hcbits st) = k" using arg_cong [OF eq, of length] by (simp add: ones_def)
  then have "length p \<le> k" by simp
  then have "p = []" using Nil.prems(1) \<open>k < 8\<close> by (auto simp: dinv_def dest: dvd_imp_le)
  with eq have "bits (unat (hcbits st)) (hcur st) = ones k" by simp
  with decode_tail_padding [of maxLen d0 _ st out k] Nil.prems \<open>p = []\<close> \<open>k < 8\<close> show ?case
    by (auto dest: arg_cong [where f = length] simp: ones_def)
next
  case (Cons d s)
  note inv = Cons.prems(1)
  let ?n = "unat (hcbits st)"
  have eq: "p @ bits ?n (hcur st) = code_bits d @ codes s @ ones k" and p: "inner p"
    and ok: "tree_ok (below p) (hnode st)"
    using inv by (simp_all add: dinv_def)
  have "prefix p (code_bits d @ codes s @ ones k)" by (metis eq prefixI)
  then have "prefix p (code_bits d)"
    using inner_not_prefix [OF p, of d] prefix_same_cases [of p _ "code_bits d"] by auto
  then obtain q where q: "code_bits d = p @ q" by (auto simp: prefix_def)
  then have qn: "q \<noteq> []" using inner_not_code [OF p] by blast
  have qp: "prefix q (bits ?n (hcur st))" using eq unfolding q by simp
  then have lq: "length q \<le> ?n" using prefix_length_le by fastforce
  define b where "b = (ucast (push_bit (8 - ?n) (hcur st)) :: byte)"
  have sh: "unat (8 - hcbits st) = 8 - ?n" using Cons.prems(2) by (simp add: unat_byte_sub)
  have qb: "prefix q (bits 8 b)"
    using tail_bits [of ?n "hcur st"] qp Cons.prems(2) by (simp add: b_def prefix_prefix)
  have child: "childAt (hnode st) b = Some (Leaf d (word_of_nat (length q)))"
  proof (cases rule: dispatch [OF ok p, of b, case_names none leaf internal])
    case none
    then show ?thesis using none(2) [of d] qb q by (simp add: comparable_def)
  next
    case (leaf s' q')
    then have "comparable (code_bits s') (code_bits d)"
      using qb q prefix_same_cases [of q' "bits 8 b" q] by (auto simp: comparable_def)
    then have "s' = d" using code_bits_prefix by (auto simp: comparable_def)
    with leaf q show ?thesis by simp
  next
    case internal
    then show ?thesis using inner_not_prefix [OF internal(3), of d] qb q by simp
  qed
  have nf: "\<not> hfull maxLen st"
    using fits_mono [OF Cons.prems(3), of "Suc (length out)"] inv
    by (auto simp: dinv_def hfull_def fits_def)
  have l: "unat (word_of_nat (length q) :: byte) = length q" using lq Cons.prems(2) by (simp add: unat_small_of_nat)
  have "0 < ?n" using lq qn by (cases q) simp_all
  then have "\<not> hsbits st < word_of_nat (length q)" "hcbits st > 0"
    using inv lq l by (auto simp: word_less_nat_alt dinv_def)
  then have step: "decode_tail rootNode maxLen st =
      decode_tail rootNode maxLen (emitLeaf rootNode d (word_of_nat (length q)) st)"
    using child nf by (subst decode_tail.simps) (simp add: sh flip: b_def)
  have "length q \<le> 8" using lq Cons.prems(2) by simp
  note e = dinv_emit [OF inv nf q qp qn this]
  show ?case
    using Cons.IH [of "out @ [d]" "emitLeaf rootNode d (word_of_nat (length q)) st" "[]"] e Cons.prems step by simp
qed

section \<open>The decoder and the encoder\<close>

lemma padding_ones:
  assumes "n \<le> 8" and "unat (hcbits st) = n"
  shows "(let padBits = ucast (push_bit (unat (8 - hcbits st)) (hcur st)) :: byte;
              allOnes = push_bit (unat (8 - hcbits st)) (0xFF :: byte)
          in padBits AND allOnes \<noteq> allOnes) \<longleftrightarrow> bits n (hcur st) \<noteq> ones n"
proof -
  have sh: "unat (8 - hcbits st) = 8 - n" using assms by (simp add: unat_byte_sub)
  have ff: "(0xFF :: byte) = mask 8" by (simp add: mask_eq_exp_minus_1)
  have "bits n (hcur st) = ones n \<longleftrightarrow> (\<forall>i < n. bit (hcur st) i)"
  proof -
    have "bits n (mask n :: u64) = ones n"
      using assms(1) by (auto intro!: nth_equalityI simp: ones_def bit_simps)
    then have "bits n (hcur st) = ones n \<longleftrightarrow> bits n (hcur st) = bits n (mask n :: u64)" by simp
    also have "\<dots> \<longleftrightarrow> (\<forall>i < n. bit (hcur st) i)"
      unfolding bits_eq_iff using assms(1) by (auto simp: bit_simps)
    finally show ?thesis .
  qed
  moreover have "(ucast (push_bit (8 - n) (hcur st)) :: byte) AND push_bit (8 - n) (mask 8) = push_bit (8 - n) (mask 8)
      \<longleftrightarrow> (\<forall>i < n. bit (hcur st) i)" (is "?l \<longleftrightarrow> ?r")
  proof
    assume l: ?l
    show ?r
    proof (intro allI impI)
      fix i assume "i < n"
      then have "bit (push_bit (8 - n) (mask 8) :: byte) (i + (8 - n))"
        using assms(1) by (auto simp: bit_simps)
      then have "bit (ucast (push_bit (8 - n) (hcur st)) :: byte) (i + (8 - n))"
        using l by (metis bit_and_iff)
      then show "bit (hcur st) i" using \<open>i < n\<close> assms(1) by (simp add: bit_simps)
    qed
  next
    assume ?r
    then show ?l using assms(1) by (intro bit_word_eqI) (auto simp: bit_simps)
  qed
  ultimately show ?thesis by (simp add: sh ff Let_def)
qed

lemma decode_finish_dinv:
  assumes inv: "dinv maxLen d0 B st out p" and n: "unat (hcbits st) < 8" and B: "length B = 8 * m"
  shows "decode_finish rootNode m st =
    (d0 @ out, if p = [] \<and> bits (unat (hcbits st)) (hcur st) = ones (unat (hcbits st)) then None else Some ErrInvalidHuffman)"
proof -
  let ?n = "unat (hcbits st)"
  have "length B = htotal st + ?n" using inv by (simp add: dinv_def)
  then have pad: "int (m * 8) - int (htotal st) = int ?n" using B by linarith
  have np: "\<not> 7 < uint (hcbits st)" using n uint_nat [of "hcbits st"] by linarith
  have root: "hnode st = rootNode \<longleftrightarrow> p = []" using inv by (auto simp: dinv_def)
  have sb: "\<not> hsbits st < hcbits st" using inv by (simp add: dinv_def word_less_nat_alt)
  have d: "hdst st = d0 @ out" using inv by (simp add: dinv_def)
  have z: "bits ?n (hcur st) = ones ?n" if "\<not> hcbits st > 0"
    using that by (simp add: word_less_nat_alt ones_def)
  show ?thesis
    unfolding decode_finish_def Let_def [of "int (m * 8) - int (htotal st)"] pad root d
    using n sb z np padding_ones [of ?n st] by auto
qed

definition init_state :: "bytes \<Rightarrow> hstate" where
  "init_state dst = \<lparr>hdst = dst, hnode = rootNode, hcur = 0, hcbits = 0, hsbits = 0, htotal = 0\<rparr>"

lemma dinv_init: "dinv maxLen dst [] (init_state dst) [] []"
  using rootNode_ok(2) by (simp add: dinv_def init_state_def fits_0)

lemma huffmanDecode_unfold:
  "huffmanDecode dst maxLen src =
     (case decode_bytes rootNode maxLen src (init_state dst) of
        None \<Rightarrow> None
      | Some (Inl (d, e)) \<Rightarrow> Some (d, Some e)
      | Some (Inr st) \<Rightarrow>
          (case decode_tail rootNode maxLen st of
             None \<Rightarrow> None
           | Some (Inl (d, e)) \<Rightarrow> Some (d, Some e)
           | Some (Inr st) \<Rightarrow> Some (decode_finish rootNode (length src) st)))"
  by (simp add: huffmanDecode_def huffmanDecode_with_def init_state_def)

lemma decode_bytes_init:
  "\<exists>r. decode_bytes rootNode maxLen src (init_state dst) = Some r \<and>
    (case r of Inl e \<Rightarrow> gave_up maxLen dst (bytes_bits src) e
     | Inr st' \<Rightarrow> \<exists>out' p'. dinv maxLen dst (bytes_bits src) st' out' p' \<and> unat (hcbits st') < 8)"
proof -
  have "unat (hcbits (init_state dst)) < 8" by (simp add: init_state_def)
  from decode_bytes_run [OF dinv_init this, of maxLen src] show ?thesis by (simp only: append.simps)
qed

lemma huffmanDecode_encoded:
  assumes "fits maxLen dst (length s)"
  shows "huffmanDecode dst maxLen (AppendHuffmanString [] s) = Some (dst @ s, None)"
proof -
  let ?src = "AppendHuffmanString [] s"
  obtain k where k: "k < 8" and B: "bytes_bits ?src = codes s @ ones k"
    using AppendHuffmanString_bits [of "[]" s] by auto
  obtain r where r: "decode_bytes rootNode maxLen ?src (init_state dst) = Some r"
      "case r of Inl e \<Rightarrow> gave_up maxLen dst (codes s @ ones k) e
       | Inr st' \<Rightarrow> \<exists>out' p'. dinv maxLen dst (codes s @ ones k) st' out' p' \<and> unat (hcbits st') < 8"
    using decode_bytes_init [of maxLen ?src dst] unfolding B by blast
  have "\<not> too_long maxLen dst (codes s @ ones k)"
    using assms codes_prefix [OF _ k] fits_mono prefix_length_le unfolding too_long_def by blast
  with not_stuck [OF k] have "\<not> gave_up maxLen dst (codes s @ ones k) e" for e by (cases e) simp
  with r(2) obtain st out p where st: "r = Inr st" "dinv maxLen dst (codes s @ ones k) st out p" "unat (hcbits st) < 8"
    by (cases r) auto
  then have "prefix (codes out) (codes s @ ones k)" by (simp add: dinv_def)
  then obtain s' where s: "s = out @ s'" using codes_prefix [OF _ k] by (auto simp: prefix_def)
  obtain st' where st': "decode_tail rootNode maxLen st = Some (Inr st')"
      "dinv maxLen dst (codes s @ ones k) st' s []" "unat (hcbits st') = k"
    using decode_tail_codes [OF st(2) [unfolded s] st(3) k] assms unfolding s by blast
  have "length (codes s @ ones k) = 8 * length ?src" using B by (metis length_bytes_bits)
  moreover have "bits k (hcur st') = ones k" using st'(2,3) by (simp add: dinv_def)
  ultimately have "decode_finish rootNode (length ?src) st' = (dst @ s, None)"
    using decode_finish_dinv [OF st'(2)] st'(3) k by simp
  with r(1) st(1) st'(1) show ?thesis by (simp add: huffmanDecode_unfold)
qed

lemma huffmanDecode_accepts:
  assumes "huffmanDecode dst maxLen src = Some (d, None)"
  shows "\<exists>s. d = dst @ s \<and> src = AppendHuffmanString [] s \<and> fits maxLen dst (length s)"
proof -
  let ?B = "bytes_bits src"
  obtain st out p where st: "decode_bytes rootNode maxLen src (init_state dst) = Some (Inr st)"
      "dinv maxLen dst ?B st out p" "unat (hcbits st) < 8"
  proof -
    obtain r where r: "decode_bytes rootNode maxLen src (init_state dst) = Some r"
        "case r of Inl e \<Rightarrow> gave_up maxLen dst ?B e
         | Inr st' \<Rightarrow> \<exists>out' p'. dinv maxLen dst ?B st' out' p' \<and> unat (hcbits st') < 8"
      using decode_bytes_init by blast
    show ?thesis
    proof (cases r)
      case (Inl e)
      with r assms show ?thesis by (cases e) (simp add: huffmanDecode_unfold)
    next
      case (Inr st)
      with r that show ?thesis by auto
    qed
  qed
  obtain st' where st': "decode_tail rootNode maxLen st = Some (Inr st')"
      "decode_finish rootNode (length src) st' = (d, None)"
    using assms st(1) by (auto simp: huffmanDecode_unfold split: option.splits sum.splits)
  have "\<not> length ?B < htotal st'" using st'(2) by (auto simp: decode_finish_def Let_def split: if_splits)
  then obtain s p' where inv: "dinv maxLen dst ?B st' s p'" "unat (hcbits st') < 8"
    using decode_tail_run [OF st(2,3)] st'(1) by auto
  let ?k = "unat (hcbits st')"
  have fin: "d = dst @ s" "p' = []" "bits ?k (hcur st') = ones ?k"
    using decode_finish_dinv [OF inv, of "length src"] st'(2) by (auto split: if_splits)
  then have B: "?B = codes s @ ones ?k" using inv(1) by (simp add: dinv_def)
  obtain j where j: "j < 8" "bytes_bits (AppendHuffmanString [] s) = codes s @ ones j"
    using AppendHuffmanString_bits [of "[]" s] by auto
  have "8 * length src = length (codes s) + ?k" "8 * length (AppendHuffmanString [] s) = length (codes s) + j"
    using arg_cong [OF B, of length] arg_cong [OF j(2), of length] by (simp_all add: ones_def)
  moreover from this have "length src = length (AppendHuffmanString [] s)" using inv(2) j(1) by linarith
  ultimately have "?k = j" by linarith
  with B j(2) have "bytes_bits src = bytes_bits (AppendHuffmanString [] s)" by simp
  then have "src = AppendHuffmanString [] s" by (simp only: bytes_bits_inject)
  with fin(1) inv(1) show ?thesis by (auto simp: dinv_def)
qed

lemma decode_tail_errors:
  assumes "decode_tail root maxLen st = Some r"
  shows "case r of Inl (d, e) \<Rightarrow> e = ErrInvalidHuffman \<or> (e = ErrStringLength \<and> maxLen \<noteq> 0) | Inr _ \<Rightarrow> True"
  using _ assms
proof (rule decode_tail.raw_induct)
  fix f :: "node \<Rightarrow> int \<Rightarrow> hstate \<Rightarrow> ((bytes \<times> hpack_error) + hstate) option"
  fix root :: node and maxLen :: int and st :: hstate and r
  assume IH: "\<And>root maxLen st r. f root maxLen st = Some r \<Longrightarrow>
      case r of Inl (d, e) \<Rightarrow> e = ErrInvalidHuffman \<or> (e = ErrStringLength \<and> maxLen \<noteq> 0) | Inr _ \<Rightarrow> True"
  assume "(if hcbits st > 0 then
        (case childAt (hnode st) (ucast (push_bit (unat (8 - hcbits st)) (hcur st))) of
           None \<Rightarrow> Some (Inl (hdst st, ErrInvalidHuffman))
         | Some (Leaf sy l) \<Rightarrow>
             if hsbits st < l then Some (Inr st)
             else if hfull maxLen st then Some (Inl (hdst st, ErrStringLength))
             else f root maxLen (emitLeaf root sy l st)
         | Some (Internal ch) \<Rightarrow> Some (Inr st))
      else Some (Inr st)) = Some r"
  then show "case r of Inl (d, e) \<Rightarrow> e = ErrInvalidHuffman \<or> (e = ErrStringLength \<and> maxLen \<noteq> 0) | Inr _ \<Rightarrow> True"
    using IH by (auto simp: hfull_def split: if_splits option.splits node.splits)
qed

lemma huffmanDecode_total:
  "\<exists>d e. huffmanDecode dst maxLen src = Some (d, e) \<and>
     (e = None \<or> e = Some ErrInvalidHuffman \<or> (e = Some ErrStringLength \<and> maxLen \<noteq> 0))"
proof -
  obtain r where r: "decode_bytes rootNode maxLen src (init_state dst) = Some r"
      "case r of Inl e \<Rightarrow> gave_up maxLen dst (bytes_bits src) e
       | Inr st' \<Rightarrow> \<exists>out' p'. dinv maxLen dst (bytes_bits src) st' out' p' \<and> unat (hcbits st') < 8"
    using decode_bytes_init by blast
  have long: "maxLen \<noteq> 0" if "too_long maxLen dst (bytes_bits src)" using that by (auto simp: too_long_def fits_def)
  show ?thesis
  proof (cases r)
    case (Inl e)
    with r long show ?thesis by (cases e) (auto simp: huffmanDecode_unfold)
  next
    case (Inr st)
    with r(2) obtain r' where r': "decode_tail rootNode maxLen st = Some r'"
      using decode_tail_run by fastforce
    have fin: "snd (decode_finish rootNode n st) = None \<or> snd (decode_finish rootNode n st) = Some ErrInvalidHuffman" for n st
      by (simp add: decode_finish_def Let_def)
    show ?thesis
    proof (cases r')
      case (Inl e)
      with decode_tail_errors [OF r'] r(1) r' Inr show ?thesis
        by (cases e) (auto simp: huffmanDecode_unfold)
    next
      case (Inr st')
      then show ?thesis
        using r(1) r' \<open>r = Inr st\<close> fin [of "length src" st']
        by (cases "decode_finish rootNode (length src) st'") (auto simp: huffmanDecode_unfold)
    qed
  qed
qed

lemma encode_length:
  assumes "length s < 2 ^ 58"
  shows "unat (HuffmanEncodeLength s) = length (AppendHuffmanString [] s)"
proof -
  obtain k where k: "k < 8" "bytes_bits (AppendHuffmanString [] s) = codes s @ ones k"
    using AppendHuffmanString_bits [of "[]" s] by auto
  have len: "8 * length (AppendHuffmanString [] s) = length (codes s) + k"
    using arg_cong [OF k(2), of length] by (simp add: ones_def)
  have bound: "length (codes s) \<le> 30 * length s" for s
    using codeLen_bounds(2) by (induction s) (fastforce intro: add_mono)+
  have "unat (foldl (\<lambda>n c. n + ucast (huffmanCodeLen ! unat c)) n0 s :: u64) = unat n0 + length (codes s)"
    if "unat n0 + length (codes s) < 2 ^ 64" for n0 s
    using that
  proof (induction s arbitrary: n0)
    case (Cons c s)
    have "unat (n0 + ucast (huffmanCodeLen ! unat c)) = unat n0 + codeLen c"
      using Cons.prems by (simp add: unat_plus_if' unat_ucast_up codeLen_def)
    with Cons show ?case by simp
  qed simp
  from this [of 0 s] bound [of s] assms
  have "unat (foldl (\<lambda>n c. n + ucast (huffmanCodeLen ! unat c)) 0 s :: u64) = length (codes s)" by simp
  then have "unat (HuffmanEncodeLength s) = (length (codes s) + 7) div 8"
    using bound [of s] assms by (simp add: HuffmanEncodeLength_def unat_div unat_plus_if')
  moreover have "(length (codes s) + 7) div 8 = length (AppendHuffmanString [] s)"
    by (rule div_nat_eqI) (use len k(1) in simp_all)
  ultimately show ?thesis by simp
qed

section \<open>Properties\<close>

text \<open>
  C8: The Huffman decoder accepts exactly the output of the encoder and inverts it: it returns
  \<open>dst\<close> extended by \<open>s\<close> without an error if and only if the input is the encoding of \<open>s\<close> and the
  length limit is not met on the way.
\<close>

theorem huffmanDecode_correct:
  "huffmanDecode dst maxLen src = Some (d, None) \<longleftrightarrow>
     (\<exists>s. d = dst @ s \<and> src = AppendHuffmanString [] s \<and>
        (maxLen = 0 \<or> maxLen < int (length dst) \<or> int (length dst + length s) \<le> maxLen))"
  using huffmanDecode_accepts [of dst maxLen src d] huffmanDecode_encoded [of maxLen dst]
  unfolding fits_def by blast

text \<open>
  C38: The Huffman decoder returns on every input, although its bit counters are 8 bits wide and
  may wrap around; the only errors are \<open>ErrInvalidHuffman\<close> and \<open>ErrStringLength\<close>, the second only
  under a length limit.
\<close>

theorem huffmanDecode_returns:
  "\<exists>d e. huffmanDecode dst maxLen src = Some (d, e) \<and>
     (e = None \<or> e = Some ErrInvalidHuffman \<or> (e = Some ErrStringLength \<and> maxLen \<noteq> 0))"
  by (rule huffmanDecode_total)

text \<open>
  \<open>HuffmanEncodeLength\<close> is the length of the encoding, for strings short enough for its 64-bit
  bit counter.
\<close>

theorem HuffmanEncodeLength_correct:
  assumes "length s < 2 ^ 58"
  shows "unat (HuffmanEncodeLength s) = length (AppendHuffmanString [] s)"
  using assms by (rule encode_length)

theorem HuffmanEncodeLength_correct_witness:
  "length (s2b ''www.example.com'') < 2 ^ 58 \<and>
   unat (HuffmanEncodeLength (s2b ''www.example.com'')) = length (AppendHuffmanString [] (s2b ''www.example.com''))"
  using HuffmanEncodeLength_correct [of "s2b ''www.example.com''"] by simp

end
