(* ===== verification/Hpack_Decoder.thy ===== *)
theory Hpack_Decoder
  imports Hpack_Table Hpack_Huffman_Correct
begin

text \<open>
  The HPACK decoder (\<open>Decoder\<close> of \<open>src/pkg/hpack/hpack.go\<close>). The state is the struct; the emit
  callback is modelled by the list \<open>emitted\<close> of the fields it was called with. Every parse method
  returns the new state and its error. The lemmas show that the one-byte fast path of \<open>Write\<close>
  agrees with the general parser, that splitting a header block over several \<open>Write\<close> calls does
  not change what is decoded, and that the configured limits bound what is emitted.
\<close>

section \<open>State\<close>

record Decoder =
  dynTab :: dynamicTable
  emitEnabled :: bool
  maxStrLen :: int
  maxHeaderBytes :: u32
  headerBytes :: u32
  dbuf :: bytes
  saveBuf :: bytes
  firstField :: bool
  emitted :: "HeaderField list"

definition NewDecoder :: "u32 \<Rightarrow> Decoder" where
  "NewDecoder maxDynTableSize =
     (let m = if maxDynTableSize = 0 then maxDynamicTableSize else maxDynTableSize
      in \<lparr>dynTab = setMaxSize
            (emptyDynamicTable\<lparr>dtTable := table_init emptyTable, allowedMaxSize := m\<rparr>) m,
          emitEnabled = True, maxStrLen = maxHeaderFieldSize, maxHeaderBytes = maxHeaderBlockSize,
          headerBytes = 0, dbuf = [], saveBuf = [], firstField = True, emitted = []\<rparr>)"

text \<open>\<open>Reset\<close> installs a new callback, so that the log of its calls starts afresh.\<close>

definition Reset :: "Decoder \<Rightarrow> u32 \<Rightarrow> Decoder" where
  "Reset d maxDynTableSize =
     (let m = if maxDynTableSize = 0 then maxDynamicTableSize else maxDynTableSize;
          dt = (dynTab d)\<lparr>dtTable := table_reset (dtTable (dynTab d)), allowedMaxSize := m, dtSize := 0\<rparr>
      in d\<lparr>emitted := [], emitEnabled := True, firstField := True, saveBuf := [], headerBytes := 0,
           maxStrLen := maxHeaderFieldSize, maxHeaderBytes := maxHeaderBlockSize,
           dynTab := setMaxSize dt m\<rparr>)"

definition SetMaxStringLength :: "Decoder \<Rightarrow> int \<Rightarrow> Decoder" where
  "SetMaxStringLength d n = d\<lparr>maxStrLen := n\<rparr>"

definition SetMaxHeaderBytes :: "Decoder \<Rightarrow> u32 \<Rightarrow> Decoder" where
  "SetMaxHeaderBytes d n = d\<lparr>maxHeaderBytes := n\<rparr>"

definition SetEmitEnabled :: "Decoder \<Rightarrow> bool \<Rightarrow> Decoder" where
  "SetEmitEnabled d v = d\<lparr>emitEnabled := v\<rparr>"

definition dec_SetMaxDynamicTableSize :: "Decoder \<Rightarrow> u32 \<Rightarrow> Decoder" where
  "dec_SetMaxDynamicTableSize d v = d\<lparr>dynTab := setMaxSize (dynTab d) v\<rparr>"

definition SetAllowedMaxDynamicTableSize :: "Decoder \<Rightarrow> u32 \<Rightarrow> Decoder" where
  "SetAllowedMaxDynamicTableSize d v = d\<lparr>dynTab := (dynTab d)\<lparr>allowedMaxSize := v\<rparr>\<rparr>"

section \<open>Parsing\<close>

definition maxTableIndex :: "Decoder \<Rightarrow> nat" where
  "maxTableIndex d = table_len (dtTable (dynTab d)) + table_len staticTable"

definition dec_at :: "Decoder \<Rightarrow> u64 \<Rightarrow> HeaderField option" where
  "dec_at d i =
     (if i = 0 then None
      else if i \<le> word_of_nat (table_len staticTable) then Some (ents staticTable ! (unat i - 1))
      else if i > word_of_nat (maxTableIndex d) then None
      else let dt = dtTable (dynTab d)
           in Some (ents dt ! (table_len dt - (unat i - table_len staticTable))))"

text \<open>The raw bytes of a string literal and its Huffman flag.\<close>

record undecodedStr =
  ub :: bytes
  isHuff :: bool

abbreviation noStr :: undecodedStr where
  "noStr \<equiv> \<lparr>ub = [], isHuff = False\<rparr>"

definition readString :: "Decoder \<Rightarrow> bytes \<Rightarrow> undecodedStr \<times> bytes \<times> hpack_error option" where
  "readString d p =
     (if p = [] then (noStr, p, Some ErrNeedMore)
      else let huff = (hd p AND 0x80 \<noteq> 0)
           in case readVarInt 7 p of (strLen, p, err) \<Rightarrow>
             if err \<noteq> None then (noStr, p, err)
             else if maxStrLen d \<noteq> 0 \<and> strLen > word_of_int (maxStrLen d) then (noStr, [], Some ErrStringLength)
             else if length p < unat strLen then (noStr, p, Some ErrNeedMore)
             else (\<lparr>ub = take (unat strLen) p, isHuff = huff\<rparr>, drop (unat strLen) p, None))"

text \<open>The Huffman decoder returns on every input, so that \<^term>\<open>the\<close> is applied to a value.\<close>

definition decodeString :: "Decoder \<Rightarrow> undecodedStr \<Rightarrow> bytes \<times> hpack_error option" where
  "decodeString d u =
     (if \<not> isHuff u then (ub u, None) else the (huffmanDecode [] (maxStrLen d) (ub u)))"

definition callEmit :: "Decoder \<Rightarrow> HeaderField \<Rightarrow> Decoder \<times> hpack_error option" where
  "callEmit d hf =
     (if maxStrLen d \<noteq> 0 \<and> (int (length (Name hf)) > maxStrLen d \<or> int (length (Value hf)) > maxStrLen d)
      then (d, Some ErrStringLength)
      else let d = (if maxHeaderBytes d \<noteq> 0 then d\<lparr>headerBytes := headerBytes d + Size hf\<rparr> else d)
           in if maxHeaderBytes d \<noteq> 0 \<and> headerBytes d > maxHeaderBytes d then (d, Some ErrHeaderListSize)
              else if emitEnabled d then (d\<lparr>emitted := emitted d @ [hf]\<rparr>, None)
              else (d, None))"

definition parseFieldIndexed :: "Decoder \<Rightarrow> Decoder \<times> hpack_error option" where
  "parseFieldIndexed d =
     (case readVarInt 7 (dbuf d) of (idx, buf, err) \<Rightarrow>
        if err \<noteq> None then (d, err)
        else case dec_at d idx of
            None \<Rightarrow> (d, Some (InvalidIndexError idx))
          | Some hf \<Rightarrow>
              callEmit (d\<lparr>dbuf := buf\<rparr>) \<lparr>Name = Name hf, Value = Value hf, Sensitive = False\<rparr>)"

text \<open>The name of a literal: a table entry or a string; \<open>Inl\<close> is an error return.\<close>

definition literalName ::
  "Decoder \<Rightarrow> u64 \<Rightarrow> bytes \<Rightarrow> hpack_error + (bytes \<times> undecodedStr \<times> bytes)" where
  "literalName d nameIdx buf =
     (if nameIdx > 0 then
        (case dec_at d nameIdx of
           None \<Rightarrow> Inl (InvalidIndexError nameIdx)
         | Some ihf \<Rightarrow> Inr (Name ihf, noStr, buf))
      else
        (case readString d buf of (uName, buf, err) \<Rightarrow>
           case err of Some e \<Rightarrow> Inl e | None \<Rightarrow> Inr ([], uName, buf)))"

text \<open>Decoding the strings of a literal, when they are wanted.\<close>

definition literalStrings ::
  "Decoder \<Rightarrow> bool \<Rightarrow> u64 \<Rightarrow> bytes \<Rightarrow> undecodedStr \<Rightarrow> undecodedStr \<Rightarrow> hpack_error + (bytes \<times> bytes)" where
  "literalStrings d wantStr nameIdx name uName uValue =
     (if \<not> wantStr then Inr (name, [])
      else case (if nameIdx \<le> 0 then decodeString d uName else (name, None)) of (name, err) \<Rightarrow>
        case err of Some e \<Rightarrow> Inl e
        | None \<Rightarrow> (case decodeString d uValue of (val, err) \<Rightarrow>
            case err of Some e \<Rightarrow> Inl e | None \<Rightarrow> Inr (name, val)))"

definition parseFieldLiteral :: "Decoder \<Rightarrow> nat \<Rightarrow> indexType \<Rightarrow> Decoder \<times> hpack_error option" where
  "parseFieldLiteral d n it =
     (case readVarInt n (dbuf d) of (nameIdx, buf, err) \<Rightarrow>
        if err \<noteq> None then (d, err)
        else case literalName d nameIdx buf of
          Inl e \<Rightarrow> (d, Some e)
        | Inr (name, uName, buf) \<Rightarrow>
            (case readString d buf of (uValue, buf, err) \<Rightarrow>
               if err \<noteq> None then (d, err)
               else case literalStrings d (emitEnabled d \<or> indexed it) nameIdx name uName uValue of
                 Inl e \<Rightarrow> (d, Some e)
               | Inr (name, val) \<Rightarrow>
                   let hf = \<lparr>Name = name, Value = val, Sensitive = False\<rparr>;
                       d = d\<lparr>dbuf := buf\<rparr>;
                       d = (if indexed it then d\<lparr>dynTab := dt_add (dynTab d) hf\<rparr> else d)
                   in callEmit d (hf\<lparr>Sensitive := sensitive it\<rparr>)))"

definition parseDynamicTableSizeUpdate :: "Decoder \<Rightarrow> Decoder \<times> hpack_error option" where
  "parseDynamicTableSizeUpdate d =
     (if \<not> firstField d \<and> dtSize (dynTab d) > 0 then (d, Some (ErrSizeUpdatePosition (dtSize (dynTab d))))
      else case readVarInt 5 (dbuf d) of (sz, buf, err) \<Rightarrow>
        if err \<noteq> None then (d, err)
        else if sz > ucast (allowedMaxSize (dynTab d)) then (d, Some ErrSizeUpdateTooLarge)
        else (d\<lparr>dynTab := setMaxSize (dynTab d) (ucast sz), dbuf := buf\<rparr>, None))"

definition parseHeaderFieldRepr :: "Decoder \<Rightarrow> Decoder \<times> hpack_error option" where
  "parseHeaderFieldRepr d =
     (let b = hd (dbuf d)
      in if b AND 0x80 \<noteq> 0 then parseFieldIndexed d
         else if b AND 0xC0 = 0x40 then parseFieldLiteral d 6 indexedTrue
         else if b AND 0xF0 = 0x00 then parseFieldLiteral d 4 indexedFalse
         else if b AND 0xF0 = 0x10 then parseFieldLiteral d 4 indexedNever
         else if b AND 0xE0 = 0x20 then parseDynamicTableSizeUpdate d
         else (d, Some (ErrInvalidEncoding b)))"

section \<open>What a parse step consumes\<close>

lemma callEmit_frame:
  assumes "callEmit d hf = (d', e)"
  shows "dbuf d' = dbuf d" "saveBuf d' = saveBuf d" "dynTab d' = dynTab d" "firstField d' = firstField d"
    "maxStrLen d' = maxStrLen d" "maxHeaderBytes d' = maxHeaderBytes d" "emitEnabled d' = emitEnabled d"
  using assms by (auto simp: callEmit_def Let_def split: if_splits)

lemma readString_shorter:
  "readString d p = (u, r, None) \<Longrightarrow> length r < length p"
  by (auto simp: readString_def Let_def split: if_splits prod.splits dest!: readVarInt_shorter)

lemma literalName_shorter:
  "literalName d i p = Inr (n, u, r) \<Longrightarrow> length r \<le> length p"
  by (auto simp: literalName_def split: if_splits option.splits prod.splits dest!: readString_shorter)

lemma parseFieldLiteral_shorter:
  assumes "parseFieldLiteral d n it = (d', None)"
  shows "length (dbuf d') < length (dbuf d)"
proof -
  obtain i buf err where 1: "readVarInt n (dbuf d) = (i, buf, err)" by (metis prod_cases3)
  with assms have e: "err = None" by (auto simp: parseFieldLiteral_def split: if_splits)
  with 1 have l1: "length buf < length (dbuf d)" using readVarInt_shorter by blast
  obtain name u buf2 where 2: "literalName d i buf = Inr (name, u, buf2)"
    using assms 1 e by (auto simp: parseFieldLiteral_def split: sum.splits)
  then have l2: "length buf2 \<le> length buf" by (rule literalName_shorter)
  obtain v buf3 err2 where 3: "readString d buf2 = (v, buf3, err2)" by (metis prod_cases3)
  with assms 1 2 e have e2: "err2 = None" by (auto simp: parseFieldLiteral_def split: if_splits)
  with 3 have l3: "length buf3 < length buf2" using readString_shorter by blast
  show ?thesis
    using assms 1 2 3 e e2 l1 l2 l3
    by (auto simp: parseFieldLiteral_def Let_def split: sum.splits if_splits dest!: callEmit_frame(1))
qed

lemma parseHeaderFieldRepr_shorter:
  assumes "parseHeaderFieldRepr d = (d', None)"
  shows "length (dbuf d') < length (dbuf d)"
proof -
  have "length (dbuf d') < length (dbuf d)" if "parseFieldIndexed d = (d', None)"
    using that by (auto simp: parseFieldIndexed_def split: prod.splits if_splits option.splits
      dest!: readVarInt_shorter callEmit_frame(1))
  moreover have "length (dbuf d') < length (dbuf d)" if "parseDynamicTableSizeUpdate d = (d', None)"
    using that by (auto simp: parseDynamicTableSizeUpdate_def split: prod.splits if_splits dest!: readVarInt_shorter)
  ultimately show ?thesis
    using assms parseFieldLiteral_shorter [of d _ _ d']
    by (auto simp: parseHeaderFieldRepr_def Let_def split: if_splits)
qed

section \<open>Write, Close and DecodeFull\<close>

text \<open>
  The loop of \<open>Write\<close>. \<open>n\<close> is \<open>len(p)\<close>, the count returned on most paths. Comparisons of \<open>int64\<close>
  values wrap around at 64 bits.
\<close>

definition int64 :: "int \<Rightarrow> int" where
  "int64 x = sint (word_of_int x :: u64)"

definition staticFast :: "byte \<Rightarrow> bool" where
  "staticFast b \<longleftrightarrow> b AND 0x80 \<noteq> 0 \<and> unat (b AND 0x7F) > 0 \<and> unat (b AND 0x7F) \<le> length staticTableEntries"

function Write_loop :: "nat \<Rightarrow> Decoder \<Rightarrow> Decoder \<times> nat \<times> hpack_error option" where
  "Write_loop n d =
     (if dbuf d = [] then (d, n, None)
      else if staticFast (hd (dbuf d)) then
        (case callEmit (d\<lparr>dbuf := tl (dbuf d), firstField := False\<rparr>)
            (ents staticTable ! (unat (hd (dbuf d) AND 0x7F) - 1)) of
           (d', Some e) \<Rightarrow> (d', n, Some e)
         | (d', None) \<Rightarrow> Write_loop n d')
      else
        (case parseHeaderFieldRepr d of
           (d', Some e) \<Rightarrow>
             if e = ErrNeedMore then
               if maxStrLen d' \<noteq> 0 \<and> int (length (dbuf d')) > int64 (2 * int64 (maxStrLen d' + 8))
               then (d', 0, Some ErrStringLength)
               else if int (length (dbuf d')) > maxSaveBufSize then (d', 0, Some ErrHeaderListSize)
               else (d'\<lparr>saveBuf := dbuf d'\<rparr>, n, None)
             else (d'\<lparr>firstField := False\<rparr>, n, Some e)
         | (d', None) \<Rightarrow> Write_loop n (d'\<lparr>firstField := False\<rparr>)))"
  by pat_completeness auto
termination
  by (relation "measure (\<lambda>(n, d). length (dbuf d))") 
    (auto dest: parseHeaderFieldRepr_shorter [OF sym] callEmit_frame(1) [OF sym])

declare Write_loop.simps [simp del]

definition Write :: "Decoder \<Rightarrow> bytes \<Rightarrow> Decoder \<times> nat \<times> hpack_error option" where
  "Write d p =
     (if p = [] then (d, 0, None)
      else if saveBuf d = [] then Write_loop (length p) (d\<lparr>dbuf := p\<rparr>)
      else if int (length (saveBuf d)) + int (length p) > maxSaveBufSize then (d, 0, Some ErrHeaderListSize)
      else Write_loop (length p) (d\<lparr>dbuf := saveBuf d @ p, saveBuf := []\<rparr>))"

definition Close :: "Decoder \<Rightarrow> Decoder \<times> hpack_error option" where
  "Close d =
     (if saveBuf d \<noteq> [] then (d\<lparr>saveBuf := []\<rparr>, Some (ErrTruncatedHeaders (length (saveBuf d))))
      else (d\<lparr>firstField := True, headerBytes := 0\<rparr>, None))"

text \<open>\<open>DecodeFull\<close> collects the fields with a callback of its own and restores the old one.\<close>

definition DecodeFull :: "Decoder \<Rightarrow> bytes \<Rightarrow> Decoder \<times> (hpack_error + HeaderField list)" where
  "DecodeFull d p =
     (case Write (d\<lparr>emitted := []\<rparr>) p of
        (d', _, Some e) \<Rightarrow> (d'\<lparr>emitted := emitted d\<rparr>, Inl e)
      | (d', _, None) \<Rightarrow>
          (case Close d' of
             (d'', Some e) \<Rightarrow> (d''\<lparr>emitted := emitted d\<rparr>, Inl e)
           | (d'', None) \<Rightarrow> (d''\<lparr>emitted := emitted d\<rparr>, Inr (emitted d''))))"

section \<open>The fast path\<close>

lemma staticTable_insensitive: "i < 61 \<Longrightarrow> \<not> Sensitive (staticTableEntries ! i)"
proof -
  have "list_all (\<lambda>f. \<not> Sensitive f) staticTableEntries" by (simp add: staticTableEntries_def)
  then show "i < 61 \<Longrightarrow> \<not> Sensitive (staticTableEntries ! i)" by (simp add: list_all_length)
qed

lemma callEmit_not_NeedMore: "callEmit d hf = (d', Some e) \<Longrightarrow> e \<noteq> ErrNeedMore"
  by (auto simp: callEmit_def Let_def split: if_splits)

lemma callEmit_update:
  "callEmit (d\<lparr>dbuf := b\<rparr>) hf = (case callEmit d hf of (d', e) \<Rightarrow> (d'\<lparr>dbuf := b\<rparr>, e))"
  "callEmit (d\<lparr>firstField := v\<rparr>) hf = (case callEmit d hf of (d', e) \<Rightarrow> (d'\<lparr>firstField := v\<rparr>, e))"
  by (simp_all add: callEmit_def Let_def)

lemma parse_staticFast:
  assumes "staticFast b" and "dbuf d = b # r"
  shows "parseHeaderFieldRepr d = callEmit (d\<lparr>dbuf := r\<rparr>) (ents staticTable ! (unat (b AND 0x7F) - 1))"
proof -
  let ?i = "unat (b AND 0x7F)"
  have i: "0 < ?i" "?i \<le> 61" "b AND 0x80 \<noteq> 0" using assms(1) by (simp_all add: staticFast_def)
  have w: "(ucast b AND 0x7F :: u64) = ucast (b AND 0x7F)" by (rule bit_word_eqI) (auto simp: bit_simps)
  have u: "unat (ucast (b AND 0x7F) :: u64) = ?i" by (simp add: unat_ucast_up)
  have "readVarInt 7 (dbuf d) = (ucast (b AND 0x7F), r, None)"
    using i w u by (simp add: assms(2) readVarInt_def prefixMask_mask mask_eq_exp_minus_1 Let_def word_less_nat_alt)
  moreover have "dec_at d (ucast (b AND 0x7F)) = Some (staticTableEntries ! (?i - 1))"
    using i u by (simp add: dec_at_def table_len_def word_le_nat_alt word_unat_eq_iff)
  moreover have "\<lparr>Name = Name f, Value = Value f, Sensitive = False\<rparr> = f"
    if "f = staticTableEntries ! (?i - 1)" for f
    using that staticTable_insensitive [of "?i - 1"] i by (cases f) auto
  ultimately show ?thesis
    using i(3) by (simp add: parseHeaderFieldRepr_def assms(2) parseFieldIndexed_def)
qed

text \<open>The loop without the fast path: the specification of \<open>Write_loop\<close>.\<close>

lemma Write_loop_spec:
  "Write_loop n d =
     (if dbuf d = [] then (d, n, None)
      else case parseHeaderFieldRepr d of
           (d', Some e) \<Rightarrow>
             if e = ErrNeedMore then
               if maxStrLen d' \<noteq> 0 \<and> int (length (dbuf d')) > int64 (2 * int64 (maxStrLen d' + 8))
               then (d', 0, Some ErrStringLength)
               else if int (length (dbuf d')) > maxSaveBufSize then (d', 0, Some ErrHeaderListSize)
               else (d'\<lparr>saveBuf := dbuf d'\<rparr>, n, None)
             else (d'\<lparr>firstField := False\<rparr>, n, Some e)
         | (d', None) \<Rightarrow> Write_loop n (d'\<lparr>firstField := False\<rparr>))"
proof (cases "dbuf d")
  case Nil
  then show ?thesis by (subst Write_loop.simps) simp
next
  case (Cons b r)
  show ?thesis
  proof (cases "staticFast b")
    case False
    with Cons show ?thesis by (subst Write_loop.simps) simp
  next
    case True
    let ?f = "ents staticTable ! (unat (b AND 0x7F) - 1)"
    obtain d' e where c: "callEmit (d\<lparr>dbuf := r\<rparr>) ?f = (d', e)" by fastforce
    have f: "callEmit (d\<lparr>dbuf := r, firstField := False\<rparr>) ?f = (d'\<lparr>firstField := False\<rparr>, e)"
      using c by (simp only: callEmit_update(2) [where d = "d\<lparr>dbuf := r\<rparr>"]) simp
    show ?thesis
      using True Cons f c parse_staticFast [OF True Cons] callEmit_not_NeedMore [of "d\<lparr>dbuf := r\<rparr>" ?f d']
      by (subst Write_loop.simps) (auto split: option.splits)
  qed
qed

section \<open>Splitting the input\<close>

lemma readString_None:
  "readString d p = (u, r, None) \<longleftrightarrow>
     (\<exists>n p'. readVarInt 7 p = (n, p', None) \<and> \<not> (maxStrLen d \<noteq> 0 \<and> n > word_of_int (maxStrLen d)) \<and>
        unat n \<le> length p' \<and> u = \<lparr>ub = take (unat n) p', isHuff = (hd p AND 0x80 \<noteq> 0)\<rparr> \<and> r = drop (unat n) p')"
proof (cases "p = []")
  case True
  then show ?thesis by (simp add: readString_def readVarInt_def)
next
  case False
  obtain n p' e where "readVarInt 7 p = (n, p', e)" by (metis prod_cases3)
  with False show ?thesis by (auto simp: readString_def Let_def)
qed

lemma readString_extend:
  assumes "readString d p = (u, r, None)"
  shows "readString (d\<lparr>dbuf := b\<rparr>) (p @ q) = (u, r @ q, None)"
proof -
  obtain n p' where *: "readVarInt 7 p = (n, p', None)" "\<not> (maxStrLen d \<noteq> 0 \<and> n > word_of_int (maxStrLen d))"
      "unat n \<le> length p'" "u = \<lparr>ub = take (unat n) p', isHuff = (hd p AND 0x80 \<noteq> 0)\<rparr>" "r = drop (unat n) p'"
    using assms unfolding readString_None by blast
  moreover have "readVarInt 7 (p @ q) = (n, p' @ q, None)" using readVarInt_extend [OF *(1)] by simp
  moreover have "p \<noteq> []" using *(1) by (auto simp: readVarInt_def)
  ultimately show ?thesis unfolding readString_None by (intro exI [of _ n] exI [of _ "p' @ q"]) simp
qed

lemma dec_at_dbuf [simp]: "dec_at (d\<lparr>dbuf := b\<rparr>) i = dec_at d i"
  by (simp add: dec_at_def maxTableIndex_def)

lemma literalName_extend:
  assumes "literalName d i p = Inr (n, u, r)"
  shows "literalName (d\<lparr>dbuf := b\<rparr>) i (p @ q) = Inr (n, u, r @ q)"
proof (cases "i > 0")
  case True
  with assms show ?thesis by (auto simp: literalName_def split: option.splits)
next
  case False
  then have "readString d p = (u, r, None)" "n = []"
    using assms by (auto simp: literalName_def split: prod.splits option.splits)
  with False readString_extend show ?thesis by (simp add: literalName_def)
qed

lemma literalStrings_dbuf [simp]: "literalStrings (d\<lparr>dbuf := b\<rparr>) = literalStrings d"
  by (intro ext) (simp add: literalStrings_def decodeString_def)

lemma dbuf_dynTab_swap: "(d :: Decoder)\<lparr>dbuf := b, dynTab := t\<rparr> = d\<lparr>dynTab := t, dbuf := b\<rparr>"
  by (cases d) simp

lemma dbuf_firstField_swap: "(d :: Decoder)\<lparr>dbuf := b, firstField := v\<rparr> = d\<lparr>firstField := v, dbuf := b\<rparr>"
  by (cases d) simp

lemma parseFieldLiteral_extend:
  assumes "parseFieldLiteral d n it = (d', None)"
  shows "parseFieldLiteral (d\<lparr>dbuf := dbuf d @ q\<rparr>) n it = (d'\<lparr>dbuf := dbuf d' @ q\<rparr>, None)"
proof -
  obtain i buf where 1: "readVarInt n (dbuf d) = (i, buf, None)"
    using assms by (auto simp: parseFieldLiteral_def split: prod.splits if_splits)
  obtain name u buf2 where 2: "literalName d i buf = Inr (name, u, buf2)"
    using assms 1 by (auto simp: parseFieldLiteral_def split: sum.splits)
  obtain v buf3 where 3: "readString d buf2 = (v, buf3, None)"
    using assms 1 2 by (auto simp: parseFieldLiteral_def split: prod.splits if_splits)
  obtain nm val where 4: "literalStrings d (emitEnabled d \<or> indexed it) i name u v = Inr (nm, val)"
    using assms 1 2 3 by (auto simp: parseFieldLiteral_def split: sum.splits)
  let ?D = "d\<lparr>dbuf := dbuf d @ q\<rparr>"
  have "readVarInt n (dbuf ?D) = (i, buf @ q, None)" using readVarInt_extend [OF 1] by simp
  moreover have "literalName ?D i (buf @ q) = Inr (name, u, buf2 @ q)" by (rule literalName_extend [OF 2])
  moreover have "readString ?D (buf2 @ q) = (v, buf3 @ q, None)" by (rule readString_extend [OF 3])
  moreover define hf where "hf = \<lparr>Name = nm, Value = val, Sensitive = False\<rparr>"
  moreover define D where "D = (if indexed it then d\<lparr>dynTab := dt_add (dynTab d) hf\<rparr> else d)"
  ultimately have "parseFieldLiteral d n it = callEmit (D\<lparr>dbuf := buf3\<rparr>) (hf\<lparr>Sensitive := sensitive it\<rparr>)"
      "parseFieldLiteral ?D n it = callEmit (D\<lparr>dbuf := buf3 @ q\<rparr>) (hf\<lparr>Sensitive := sensitive it\<rparr>)"
    using 1 2 3 4 by (simp_all add: parseFieldLiteral_def Let_def dbuf_dynTab_swap)
  with assms show ?thesis unfolding callEmit_update(1) by (auto split: prod.splits)
qed

lemma parseHeaderFieldRepr_extend:
  assumes "parseHeaderFieldRepr d = (d', None)" and "dbuf d \<noteq> []"
  shows "parseHeaderFieldRepr (d\<lparr>dbuf := dbuf d @ q\<rparr>) = (d'\<lparr>dbuf := dbuf d' @ q\<rparr>, None)"
proof -
  have "parseFieldIndexed (d\<lparr>dbuf := dbuf d @ q\<rparr>) = (d'\<lparr>dbuf := dbuf d' @ q\<rparr>, None)"
    if ix: "parseFieldIndexed d = (d', None)"
  proof -
    obtain i buf where i: "readVarInt 7 (dbuf d) = (i, buf, None)"
      using ix by (auto simp: parseFieldIndexed_def split: prod.splits if_splits)
    from readVarInt_extend [OF this, of q] this ix show ?thesis
      by (auto simp: parseFieldIndexed_def callEmit_update(1) split: prod.splits option.splits
          dest: callEmit_frame(1))
  qed
  moreover have "parseDynamicTableSizeUpdate (d\<lparr>dbuf := dbuf d @ q\<rparr>) = (d'\<lparr>dbuf := dbuf d' @ q\<rparr>, None)"
    if ix: "parseDynamicTableSizeUpdate d = (d', None)"
  proof -
    obtain i buf where i: "readVarInt 5 (dbuf d) = (i, buf, None)"
      using ix by (auto simp: parseDynamicTableSizeUpdate_def split: prod.splits if_splits)
    from readVarInt_extend [OF this, of q] this ix show ?thesis
      by (auto simp: parseDynamicTableSizeUpdate_def split: if_splits)
  qed
  ultimately show ?thesis
    using assms parseFieldLiteral_extend [of d _ _ d' q]
    by (auto simp: parseHeaderFieldRepr_def Let_def split: if_splits)
qed

lemma parseHeaderFieldRepr_NeedMore:
  assumes "parseHeaderFieldRepr d = (d', Some ErrNeedMore)"
  shows "d' = d"
  using assms callEmit_not_NeedMore
  by (fastforce simp: parseHeaderFieldRepr_def parseFieldIndexed_def parseFieldLiteral_def
      parseDynamicTableSizeUpdate_def Let_def split: if_splits prod.splits option.splits sum.splits)

lemma parseHeaderFieldRepr_saveBuf:
  "parseHeaderFieldRepr d = (d', e) \<Longrightarrow> saveBuf d' = saveBuf d"
  by (auto simp: parseHeaderFieldRepr_def parseFieldIndexed_def parseFieldLiteral_def
      parseDynamicTableSizeUpdate_def Let_def split: if_splits prod.splits option.splits sum.splits
      dest!: callEmit_frame(2))

text \<open>
  Feeding more bytes after a successful call continues where the call stopped: at the end of its
  input, or at the incomplete field it saved.
\<close>

lemma Write_loop_append:
  assumes "Write_loop n d = (d1, m, None)" and "saveBuf d = []"
  shows "Write_loop k (d\<lparr>dbuf := dbuf d @ q\<rparr>) = Write_loop k (d1\<lparr>dbuf := dbuf d1 @ q, saveBuf := []\<rparr>) \<and>
    saveBuf d1 = dbuf d1"
  using assms
proof (induction "length (dbuf d)" arbitrary: d rule: less_induct)
  case less
  show ?case
  proof (cases "dbuf d = []")
    case True
    then have "d1 = d" using less.prems(1) by (simp add: Write_loop_spec [of n d])
    moreover have "d\<lparr>saveBuf := []\<rparr> = d" using less.prems(2) by (cases d) simp
    ultimately have eq: "d1\<lparr>dbuf := dbuf d1 @ q, saveBuf := []\<rparr> = d\<lparr>dbuf := dbuf d @ q\<rparr>"
      using less.prems(2) by (cases d) simp
    have "saveBuf d1 = dbuf d1" using True less.prems(2) \<open>d1 = d\<close> by simp
    then show ?thesis by (simp only: eq)
  next
    case False
    obtain d' e where p: "parseHeaderFieldRepr d = (d', e)" by fastforce
    note saved = parseHeaderFieldRepr_saveBuf [OF p]
    show ?thesis
    proof (cases e)
      case None
      let ?d = "d'\<lparr>firstField := False\<rparr>"
      have "Write_loop n ?d = (d1, m, None)" using less.prems(1) p None False by (simp add: Write_loop_spec [of n d])
      moreover have "length (dbuf ?d) < length (dbuf d)" using parseHeaderFieldRepr_shorter p None by simp
      ultimately have "Write_loop k (?d\<lparr>dbuf := dbuf ?d @ q\<rparr>) = Write_loop k (d1\<lparr>dbuf := dbuf d1 @ q, saveBuf := []\<rparr>) \<and>
          saveBuf d1 = dbuf d1"
        using less.hyps [of ?d] less.prems(2) saved by simp
      moreover have "Write_loop k (d\<lparr>dbuf := dbuf d @ q\<rparr>) = Write_loop k (?d\<lparr>dbuf := dbuf ?d @ q\<rparr>)"
        using parseHeaderFieldRepr_extend [of d d' q] p None False
        by (simp add: Write_loop_spec [of k "d\<lparr>dbuf := dbuf d @ q\<rparr>"] dbuf_firstField_swap)
      ultimately show ?thesis by simp
    next
      case (Some x)
      then have x: "x = ErrNeedMore" "d1 = d'\<lparr>saveBuf := dbuf d'\<rparr>"
        using less.prems(1) p False by (auto simp: Write_loop_spec [of n d] split: if_splits)
      then have "d' = d" using parseHeaderFieldRepr_NeedMore p Some by simp
      then have "d1\<lparr>dbuf := dbuf d1 @ q, saveBuf := []\<rparr> = d\<lparr>dbuf := dbuf d @ q\<rparr>"
        using x less.prems(2) by (cases d) simp
      with x show ?thesis by simp
    qed
  qed
qed

lemma Write_loop_count:
  "fst (Write_loop k d) = fst (Write_loop n d) \<and> snd (snd (Write_loop k d)) = snd (snd (Write_loop n d))"
proof (induction "length (dbuf d)" arbitrary: d rule: less_induct)
  case less
  obtain d' e where p: "parseHeaderFieldRepr d = (d', e)" by fastforce
  show ?case
  proof (cases "e = None \<and> dbuf d \<noteq> []")
    case True
    with p show ?thesis
      using less.hyps [of "d'\<lparr>firstField := False\<rparr>"] parseHeaderFieldRepr_shorter [of d d']
      by (simp add: Write_loop_spec [of k d] Write_loop_spec [of n d])
  next
    case False
    with p show ?thesis
      unfolding Write_loop_spec [of k d] Write_loop_spec [of n d] by (cases e) simp_all
  qed
qed

lemma Write_append:
  assumes "saveBuf d = []" and "Write d p = (d1, n, None)" and "p \<noteq> []" and "q \<noteq> []"
    and "int (length (saveBuf d1)) + int (length q) \<le> maxSaveBufSize"
  shows "fst (Write d1 q) = fst (Write d (p @ q)) \<and> snd (snd (Write d1 q)) = snd (snd (Write d (p @ q)))"
proof -
  have w: "Write_loop (length p) (d\<lparr>dbuf := p\<rparr>) = (d1, n, None)" using assms(1-3) by (simp add: Write_def)
  have *: "Write_loop k (d\<lparr>dbuf := p @ q\<rparr>) = Write_loop k (d1\<lparr>dbuf := dbuf d1 @ q, saveBuf := []\<rparr>)"
      "saveBuf d1 = dbuf d1" for k
    using Write_loop_append [OF w, of k q] assms(1) by simp_all
  have "Write d1 q = Write_loop (length q) (if saveBuf d1 = [] then d1\<lparr>dbuf := q\<rparr> else d1\<lparr>dbuf := saveBuf d1 @ q, saveBuf := []\<rparr>)"
    using assms(4,5) by (simp add: Write_def)
  also have "(if saveBuf d1 = [] then d1\<lparr>dbuf := q\<rparr> else d1\<lparr>dbuf := saveBuf d1 @ q, saveBuf := []\<rparr>)
      = d1\<lparr>dbuf := dbuf d1 @ q, saveBuf := []\<rparr>"
    using *(2) by (cases d1) simp
  also have "Write_loop (length q) \<dots> = Write_loop (length q) (d\<lparr>dbuf := p @ q\<rparr>)" by (simp only: *(1))
  finally have "Write d1 q = Write_loop (length q) (d\<lparr>dbuf := p @ q\<rparr>)" .
  moreover have "Write d (p @ q) = Write_loop (length (p @ q)) (d\<lparr>dbuf := p @ q\<rparr>)"
    using assms(1,3) by (simp add: Write_def)
  ultimately show ?thesis
    using Write_loop_count [of "length q" "d\<lparr>dbuf := p @ q\<rparr>" "length (p @ q)"] by simp
qed

text \<open>A header block handed over in pieces, as HTTP/2 does with CONTINUATION frames.\<close>

fun writes :: "Decoder \<Rightarrow> bytes list \<Rightarrow> Decoder \<times> hpack_error option" where
  "writes d [] = (d, None)"
| "writes d (p # ps) = (case Write d p of (d', _, Some e) \<Rightarrow> (d', Some e) | (d', _, None) \<Rightarrow> writes d' ps)"

lemma Write_loop_shorter:
  "Write_loop n d = (d1, m, None) \<Longrightarrow> length (dbuf d1) \<le> length (dbuf d)"
proof (induction "length (dbuf d)" arbitrary: d rule: less_induct)
  case less
  obtain d' e where p: "parseHeaderFieldRepr d = (d', e)" by fastforce
  show ?case
  proof (cases "e = None \<and> dbuf d \<noteq> []")
    case True
    with p less.prems show ?thesis
      using less.hyps [of "d'\<lparr>firstField := False\<rparr>"] parseHeaderFieldRepr_shorter [of d d']
      by (simp add: Write_loop_spec [of n d])
  next
    case False
    with p less.prems show ?thesis
      by (auto simp: Write_loop_spec [of n d] dest: parseHeaderFieldRepr_NeedMore split: option.splits if_splits)
  qed
qed

lemma writes_snoc:
  "writes d (ps @ [p]) = (case writes d ps of (d', Some e) \<Rightarrow> (d', Some e)
     | (d', None) \<Rightarrow> (case Write d' p of (d'', _, e) \<Rightarrow> (d'', e)))"
  by (induction ps arbitrary: d) (auto split: prod.splits option.splits)

lemma writes_concat_aux:
  assumes "saveBuf d = []" and "writes d ps = (d', None)" and "int (length (concat ps)) \<le> maxSaveBufSize"
  shows "\<exists>n. Write d (concat ps) = (d', n, None)"
  using assms(2,3)
proof (induction ps arbitrary: d' rule: rev_induct)
  case Nil
  then show ?case by (simp add: Write_def)
next
  case (snoc p ps)
  then obtain d1 m where d1: "writes d ps = (d1, None)" "Write d1 p = (d', m, None)"
    by (auto simp: writes_snoc split: prod.splits option.splits)
  with snoc obtain n where w: "Write d (concat ps) = (d1, n, None)" by auto
  show ?case
  proof (cases "p = [] \<or> concat ps = []")
    case True
    then show ?thesis
    proof
      assume "p = []"
      with d1(2) w show ?thesis by (simp add: Write_def)
    next
      assume "concat ps = []"
      moreover from this w have "d1 = d" by (simp add: Write_def)
      ultimately show ?thesis using d1(2) by (simp del: concat_eq_Nil_conv)
    qed
  next
    case False
    have "Write_loop (length (concat ps)) (d\<lparr>dbuf := concat ps\<rparr>) = (d1, n, None)"
      using w False assms(1) by (simp add: Write_def del: concat_eq_Nil_conv)
    from Write_loop_append [OF this] Write_loop_shorter [OF this]
    have "length (saveBuf d1) \<le> length (concat ps)" using assms(1) by simp
    then have "int (length (saveBuf d1)) + int (length p) \<le> maxSaveBufSize" using snoc.prems(2) by simp
    from Write_append [OF assms(1) w _ _ this] False d1(2) show ?thesis
      by (cases "Write d (concat ps @ p)") auto
  qed
qed

section \<open>Limits\<close>

text \<open>Every successful parse step ends in \<open>callEmit\<close> or is a table size update.\<close>

lemma parseHeaderFieldRepr_cases:
  assumes "parseHeaderFieldRepr d = (d', e)"
  shows "(\<exists>b dt hf. callEmit (d\<lparr>dynTab := dt, dbuf := b\<rparr>) hf = (d', e)) \<or>
    (\<exists>b dt. d' = d\<lparr>dynTab := dt, dbuf := b\<rparr>)"
proof -
  have same: "\<exists>b dt. d = d\<lparr>dynTab := dt, dbuf := b\<rparr>"
    by (rule exI [of _ "dbuf d"], rule exI [of _ "dynTab d"]) simp
  have same_buf: "d\<lparr>dbuf := b\<rparr> = d\<lparr>dynTab := dynTab d, dbuf := b\<rparr>" for b by simp
  have lit: ?thesis if "parseFieldLiteral d n it = (d', e)" for n it
    using that same
    by (auto simp: parseFieldLiteral_def Let_def dbuf_dynTab_swap split: prod.splits if_splits sum.splits)
       (metis same_buf)
  have idx: ?thesis if "parseFieldIndexed d = (d', e)"
    using that same
    by (auto simp: parseFieldIndexed_def split: prod.splits if_splits option.splits) (metis same_buf)
  have upd: ?thesis if "parseDynamicTableSizeUpdate d = (d', e)"
    using that same by (auto simp: parseDynamicTableSizeUpdate_def split: prod.splits if_splits)
  show ?thesis
    using assms lit idx upd same by (auto simp: parseHeaderFieldRepr_def Let_def split: if_splits)
qed

definition limited :: "Decoder \<Rightarrow> bool" where
  "limited d \<longleftrightarrow> 0 < maxStrLen d \<and> maxStrLen d \<le> 2 ^ 29 \<and> 0 < maxHeaderBytes d \<and> maxHeaderBytes d \<le> 2 ^ 31"

definition within :: "Decoder \<Rightarrow> bool" where
  "within d \<longleftrightarrow> headerBytes d \<le> maxHeaderBytes d \<and> entries_size (emitted d) \<le> unat (headerBytes d) \<and>
     (\<forall>f \<in> set (emitted d). int (length (Name f)) \<le> maxStrLen d \<and> int (length (Value f)) \<le> maxStrLen d)"

lemma callEmit_within:
  assumes "callEmit d hf = (d', None)" and "limited d" and "within d"
  shows "within d' \<and> limited d'"
proof -
  have l: "int (length (Name hf)) \<le> maxStrLen d" "int (length (Value hf)) \<le> maxStrLen d"
    using assms(1,2) by (auto simp: callEmit_def limited_def split: if_splits)
  then have "nsize hf \<le> 2 ^ 30 + 32" using assms(2) by (simp add: limited_def nsize_def)
  moreover have hb: "unat (headerBytes d) \<le> 2 ^ 31"
    using assms(2,3) by (simp add: limited_def within_def word_le_nat_alt)
  ultimately have "unat (headerBytes d + Size hf) = unat (headerBytes d) + nsize hf"
    by (simp add: unat_plus_if' unat_Size)
  with assms l show ?thesis
    by (auto simp: callEmit_def Let_def limited_def within_def word_gt_0 split: if_splits)
qed

lemma Write_loop_within:
  "Write_loop n d = (d1, m, None) \<Longrightarrow> limited d \<Longrightarrow> within d \<Longrightarrow> within d1 \<and> limited d1"
proof (induction "length (dbuf d)" arbitrary: d rule: less_induct)
  case less
  obtain d' e where p: "parseHeaderFieldRepr d = (d', e)" by fastforce
  show ?case
  proof (cases "e = None \<and> dbuf d \<noteq> []")
    case True
    have "within d' \<and> limited d'"
      using parseHeaderFieldRepr_cases [OF p] callEmit_within [of "d\<lparr>dynTab := dt, dbuf := b\<rparr>" for dt b] True less.prems(2,3)
      by (auto simp: within_def limited_def)
    then have "within (d'\<lparr>firstField := False\<rparr>)" "limited (d'\<lparr>firstField := False\<rparr>)"
      by (simp_all add: within_def limited_def)
    with True p less.prems show ?thesis
      using less.hyps [of "d'\<lparr>firstField := False\<rparr>"] parseHeaderFieldRepr_shorter [of d d']
      by (simp add: Write_loop_spec [of n d])
  next
    case False
    with p less.prems show ?thesis
      by (auto simp: Write_loop_spec [of n d] within_def limited_def
          dest: parseHeaderFieldRepr_NeedMore split: option.splits if_splits)
  qed
qed

lemma Write_loop_config:
  "Write_loop n d = (d1, m, None) \<Longrightarrow> maxStrLen d1 = maxStrLen d \<and> maxHeaderBytes d1 = maxHeaderBytes d"
proof (induction "length (dbuf d)" arbitrary: d rule: less_induct)
  case less
  obtain d' e where p: "parseHeaderFieldRepr d = (d', e)" by fastforce
  have cfg: "maxStrLen d' = maxStrLen d \<and> maxHeaderBytes d' = maxHeaderBytes d"
    using parseHeaderFieldRepr_cases [OF p] by (auto dest: callEmit_frame(5,6))
  show ?case
  proof (cases "e = None \<and> dbuf d \<noteq> []")
    case True
    with p cfg less.prems show ?thesis
      using less.hyps [of "d'\<lparr>firstField := False\<rparr>"] parseHeaderFieldRepr_shorter [of d d']
      by (simp add: Write_loop_spec [of n d])
  next
    case False
    with p cfg less.prems show ?thesis
      by (auto simp: Write_loop_spec [of n d] split: option.splits if_splits)
  qed
qed

lemma Write_within:
  assumes "Write d p = (d1, n, None)" and "limited d" and "within d"
  shows "within d1 \<and> maxStrLen d1 = maxStrLen d \<and> maxHeaderBytes d1 = maxHeaderBytes d"
proof -
  have run: "within d1 \<and> maxStrLen d1 = maxStrLen d \<and> maxHeaderBytes d1 = maxHeaderBytes d"
    if w: "Write_loop m D = (d1, n, None)" and D: "D = d\<lparr>dbuf := b\<rparr> \<or> D = d\<lparr>dbuf := b, saveBuf := []\<rparr>" for m b D
    using Write_loop_within [OF w] Write_loop_config [OF w] assms(2,3) D
    by (auto simp: within_def limited_def)
  show ?thesis
    using assms run [of "length p" "d\<lparr>dbuf := p\<rparr>" p]
      run [of "length p" "d\<lparr>dbuf := saveBuf d @ p, saveBuf := []\<rparr>" "saveBuf d @ p"]
    by (auto simp: Write_def split: if_splits)
qed

section \<open>The dynamic table of the decoder\<close>

definition dec_inv :: "Decoder \<Rightarrow> bool" where
  "dec_inv d \<longleftrightarrow> dt_inv (dynTab d) \<and> dtMaxSize (dynTab d) \<le> 2 ^ 30 \<and> allowedMaxSize (dynTab d) \<le> 2 ^ 30 \<and>
     0 < maxStrLen d \<and> maxStrLen d \<le> 2 ^ 29"

lemma entry_size_le: "f \<in> set es \<Longrightarrow> nsize f \<le> entries_size es"
  by (induction es) auto

lemma static_entry_size: "f \<in> set staticTableEntries \<Longrightarrow> nsize f \<le> 128"
proof -
  have "list_all (\<lambda>f. nsize f \<le> 128) staticTableEntries" by (simp add: staticTableEntries_def nsize_def)
  then show "f \<in> set staticTableEntries \<Longrightarrow> nsize f \<le> 128" by (simp add: list_all_iff)
qed

lemma dt_inv_size: "dt_inv dt \<Longrightarrow> entries_size (ents (dtTable dt)) \<le> unat (dtMaxSize dt)"
  by (auto simp: dt_inv_def dt_sized_def word_le_nat_alt)

lemma entries_length: "length es \<le> entries_size es"
  by (induction es) (auto simp: nsize_def)

definition indexed_entries :: "Decoder \<Rightarrow> HeaderField list" where
  "indexed_entries d = staticTableEntries @ rev (ents (dtTable (dynTab d)))"

text \<open>An index addresses the static entries followed by the dynamic ones, the newest first.\<close>

lemma dec_at_index:
  assumes "length (ents (dtTable (dynTab d))) \<le> 2 ^ 30"
  shows "dec_at d i =
    (if 0 < unat i \<and> unat i \<le> length (indexed_entries d) then Some (indexed_entries d ! (unat i - 1)) else None)"
proof -
  let ?es = "ents (dtTable (dynTab d))"
  have 1: "unat (word_of_nat 61 :: u64) = 61" by simp
  have 2: "unat (word_of_nat (length ?es + 61) :: u64) = length ?es + 61"
    by (rule of_nat_inverse) (use assms in simp_all)
  have 0: "i = 0 \<longleftrightarrow> unat i = 0" by (simp add: unat_eq_0)
  show ?thesis
    unfolding dec_at_def indexed_entries_def table_len_def maxTableIndex_def
    using 1 2 0 by (auto simp: word_le_nat_alt word_less_nat_alt nth_append rev_nth Let_def add.commute)
qed

lemma dec_inv_length: "dec_inv d \<Longrightarrow> length (ents (dtTable (dynTab d))) \<le> 2 ^ 30"
  using dt_inv_size [of "dynTab d"] entries_length [of "ents (dtTable (dynTab d))"]
  by (simp add: dec_inv_def word_le_nat_alt)

lemma dec_at_size:
  assumes "dec_inv d" and "dec_at d i = Some f"
  shows "nsize f \<le> 2 ^ 30"
proof -
  let ?es = "ents (dtTable (dynTab d))"
  have "f \<in> set (indexed_entries d)"
    using assms(2) unfolding dec_at_index [OF dec_inv_length [OF assms(1)]]
    by (auto split: if_splits intro!: nth_mem)
  then consider "f \<in> set staticTableEntries" | "f \<in> set ?es" by (auto simp: indexed_entries_def)
  then show ?thesis
  proof cases
    case 1
    then show ?thesis using static_entry_size by fastforce
  next
    case 2
    then show ?thesis
      using entry_size_le [OF 2] dt_inv_size [of "dynTab d"] assms(1) by (simp add: dec_inv_def word_le_nat_alt)
  qed
qed

lemma decodeString_length:
  assumes "0 < maxStrLen d" and "maxStrLen d \<le> 2 ^ 29" and "readString d p = (u, r, None)"
    and "decodeString d u = (s, None)"
  shows "int (length s) \<le> maxStrLen d"
proof (cases "isHuff u")
  case False
  obtain n :: u64 and p' where n: "\<not> n > word_of_int (maxStrLen d)" "ub u = take (unat n) p'"
    using assms(1,3) unfolding readString_None by auto
  have "uint (word_of_int (maxStrLen d) :: u64) = maxStrLen d"
    using assms(1,2) by (simp add: unsigned_of_int take_bit_int_eq_self)
  then have "int (unat n) \<le> maxStrLen d" using n(1) by (simp add: word_le_def not_less)
  moreover have "s = take (unat n) p'" using n(2) False assms(4) by (simp add: decodeString_def)
  then have "length s \<le> unat n" by simp
  ultimately show ?thesis by linarith
next
  case True
  obtain r where "huffmanDecode [] (maxStrLen d) (ub u) = Some r"
    using huffmanDecode_total by blast
  with True assms(4) have "huffmanDecode [] (maxStrLen d) (ub u) = Some (s, None)" by (auto simp: decodeString_def)
  from huffmanDecode_accepts [OF this] assms(1) show ?thesis by (auto simp: fits_def)
qed

lemma dec_inv_dt_add:
  assumes "dec_inv d" and "nsize f \<le> 2 ^ 30 + 2 ^ 29"
  shows "dec_inv (d\<lparr>dynTab := dt_add (dynTab d) f\<rparr>)"
proof -
  have "unat (dtSize (dynTab d)) \<le> 2 ^ 30"
    using assms(1) by (auto simp: dec_inv_def dt_inv_def word_le_nat_alt)
  then have "unat (dtSize (dynTab d)) + nsize f < 2 ^ 32" using assms(2) by simp
  from dt_add_correct [OF _ this] assms(1) show ?thesis by (simp add: dec_inv_def)
qed

lemma literal_size:
  assumes inv: "dec_inv d" and name: "literalName d i buf = Inr (name, uName, buf2)"
    and val: "readString d buf2 = (uValue, buf3, None)"
    and str: "literalStrings d w i name uName uValue = Inr (nm, v)"
  shows "nsize \<lparr>Name = nm, Value = v, Sensitive = sn\<rparr> \<le> 2 ^ 30 + 2 ^ 29"
proof -
  have m: "0 < maxStrLen d" "maxStrLen d \<le> 2 ^ 29" using inv by (simp_all add: dec_inv_def)
  have v: "int (length v) \<le> maxStrLen d"
    using str m decodeString_length [OF m val]
    by (auto simp: literalStrings_def split: if_splits prod.splits option.splits)
  have "length nm + 32 \<le> 2 ^ 30"
  proof (cases "i > 0")
    case True
    then obtain f where f: "dec_at d i = Some f" "name = Name f"
      using name by (auto simp: literalName_def split: option.splits)
    moreover have "nm = name" using str True by (auto simp: literalStrings_def split: if_splits prod.splits option.splits)
    ultimately show ?thesis using dec_at_size [OF inv f(1)] by (simp add: nsize_def)
  next
    case False
    then have u: "readString d buf = (uName, buf2, None)" "name = []"
      using name by (auto simp: literalName_def split: prod.splits option.splits)
    have "int (length nm) \<le> maxStrLen d"
      using str u(2) m False decodeString_length [OF m u(1)]
      by (auto simp: literalStrings_def not_less split: if_splits prod.splits option.splits)
    then show ?thesis using m by simp
  qed
  then show ?thesis using v m by (simp add: nsize_def)
qed

lemma dec_inv_frame:
  "dynTab d' = dynTab d \<Longrightarrow> maxStrLen d' = maxStrLen d \<Longrightarrow> dec_inv d' = dec_inv d"
  by (simp add: dec_inv_def)

lemma parseFieldLiteral_dec_inv:
  assumes inv: "dec_inv d" and p: "parseFieldLiteral d n it = (d', e)"
  shows "dec_inv d'"
proof (cases "d' = d")
  case False
  obtain i buf where 1: "readVarInt n (dbuf d) = (i, buf, None)"
    using p False by (auto simp: parseFieldLiteral_def split: prod.splits if_splits)
  obtain name u buf2 where 2: "literalName d i buf = Inr (name, u, buf2)"
    using p 1 False by (auto simp: parseFieldLiteral_def split: sum.splits)
  obtain v buf3 where 3: "readString d buf2 = (v, buf3, None)"
    using p 1 2 False by (auto simp: parseFieldLiteral_def split: prod.splits if_splits)
  obtain nm val where 4: "literalStrings d (emitEnabled d \<or> indexed it) i name u v = Inr (nm, val)"
    using p 1 2 3 False by (auto simp: parseFieldLiteral_def split: sum.splits)
  define hf where "hf = \<lparr>Name = nm, Value = val, Sensitive = False\<rparr>"
  define D where "D = (if indexed it then d\<lparr>dynTab := dt_add (dynTab d) hf\<rparr> else d)"
  have "callEmit (D\<lparr>dbuf := buf3\<rparr>) (hf\<lparr>Sensitive := sensitive it\<rparr>) = (d', e)"
    using p 1 2 3 4
    by (cases "indexed it") (simp_all add: parseFieldLiteral_def Let_def dbuf_dynTab_swap D_def hf_def)
  moreover have "dec_inv D"
    using dec_inv_dt_add [OF inv] literal_size [OF inv 2 3 4, of False] inv by (simp add: D_def hf_def)
  moreover have "dynTab (D\<lparr>dbuf := buf3\<rparr>) = dynTab D" "maxStrLen (D\<lparr>dbuf := buf3\<rparr>) = maxStrLen D" by simp_all
  ultimately show ?thesis
    using callEmit_frame(3,5) [of "D\<lparr>dbuf := buf3\<rparr>" "hf\<lparr>Sensitive := sensitive it\<rparr>" d' e] dec_inv_frame [of d' D] by simp
qed (use inv in simp)

lemma parseHeaderFieldRepr_dec_inv:
  assumes inv: "dec_inv d" and p: "parseHeaderFieldRepr d = (d', e)"
  shows "dec_inv d'"
proof -
  have "dec_inv d'" if "parseFieldIndexed d = (d', e)"
    using that inv callEmit_frame(3,5)
    by (fastforce simp: parseFieldIndexed_def dec_inv_def split: prod.splits if_splits option.splits)
  moreover have "dec_inv d'" if u: "parseDynamicTableSizeUpdate d = (d', e)"
  proof (cases "d' = d")
    case False
    then obtain sz b where s: "sz \<le> ucast (allowedMaxSize (dynTab d))"
        "d' = d\<lparr>dynTab := setMaxSize (dynTab d) (ucast (sz :: u64)), dbuf := b\<rparr>"
      using u by (auto simp: parseDynamicTableSizeUpdate_def not_less split: prod.splits if_splits)
    have "unat sz \<le> unat (allowedMaxSize (dynTab d))" using s(1) by (simp add: word_le_nat_alt unat_ucast_up)
    moreover have "unat (ucast sz :: u32) \<le> unat sz" by (simp add: unsigned_ucast_eq take_bit_nat_less_eq_self)
    ultimately have "(ucast sz :: u32) \<le> allowedMaxSize (dynTab d)" by (simp add: word_le_nat_alt)
    with s(2) inv setMaxSize_correct [of "dynTab d" "ucast sz"] show ?thesis
      by (auto simp: dec_inv_def)
  qed (use inv in simp)
  ultimately show ?thesis
    using p inv parseFieldLiteral_dec_inv by (auto simp: parseHeaderFieldRepr_def Let_def split: if_splits)
qed

lemma Write_loop_dec_inv: "dec_inv d \<Longrightarrow> dec_inv (fst (Write_loop n d))"
proof (induction "length (dbuf d)" arbitrary: d rule: less_induct)
  case less
  obtain d' e where p: "parseHeaderFieldRepr d = (d', e)" by fastforce
  have inv: "dec_inv (d'\<lparr>firstField := False\<rparr>)" "dec_inv d'"
    using parseHeaderFieldRepr_dec_inv [OF less.prems p] by (simp_all add: dec_inv_def)
  show ?case
  proof (cases "e = None \<and> dbuf d \<noteq> []")
    case True
    with p show ?thesis
      using less.hyps [of "d'\<lparr>firstField := False\<rparr>"] parseHeaderFieldRepr_shorter [of d d'] inv
      by (simp add: Write_loop_spec [of n d])
  next
    case False
    with p inv less.prems show ?thesis
      unfolding Write_loop_spec [of n d] by (cases e) (auto simp: dec_inv_def)
  qed
qed

lemma Write_dec_inv: "dec_inv d \<Longrightarrow> dec_inv (fst (Write d p))"
  using Write_loop_dec_inv [of "d\<lparr>dbuf := p\<rparr>" "length p"]
    Write_loop_dec_inv [of "d\<lparr>dbuf := saveBuf d @ p, saveBuf := []\<rparr>" "length p"]
  by (simp add: Write_def dec_inv_def)

section \<open>Properties\<close>

text \<open>
  C13: The fast path of \<open>Write\<close> for one-byte references into the static table does not change what
  is decoded: the loop satisfies the equation of the loop that always calls \<open>parseHeaderFieldRepr\<close>.
\<close>

theorem Write_fast_path:
  "Write_loop n d =
     (if dbuf d = [] then (d, n, None)
      else case parseHeaderFieldRepr d of
           (d', Some e) \<Rightarrow>
             if e = ErrNeedMore then
               if maxStrLen d' \<noteq> 0 \<and> int (length (dbuf d')) > int64 (2 * int64 (maxStrLen d' + 8))
               then (d', 0, Some ErrStringLength)
               else if int (length (dbuf d')) > maxSaveBufSize then (d', 0, Some ErrHeaderListSize)
               else (d'\<lparr>saveBuf := dbuf d'\<rparr>, n, None)
             else (d'\<lparr>firstField := False\<rparr>, n, Some e)
         | (d', None) \<Rightarrow> Write_loop n (d'\<lparr>firstField := False\<rparr>))"
  by (rule Write_loop_spec)



text \<open>
  C25: The configured limits hold for what \<open>DecodeFull\<close> returns: no name or value is longer than
  the string limit, and the fields together, by the size of RFC 7541 section 4.1, do not exceed
  the header list limit. The 32-bit byte count does not wrap around for limits up to 2 GiB.
\<close>

theorem DecodeFull_limits:
  assumes "0 < maxStrLen d" and "maxStrLen d \<le> 2 ^ 29"
    and "0 < maxHeaderBytes d" and "maxHeaderBytes d \<le> 2 ^ 31" and "headerBytes d \<le> maxHeaderBytes d"
    and "snd (DecodeFull d p) = Inr fs"
  shows "(\<forall>f \<in> set fs. int (length (Name f)) \<le> maxStrLen d \<and> int (length (Value f)) \<le> maxStrLen d) \<and>
    entries_size fs \<le> unat (maxHeaderBytes d)"
proof -
  let ?d = "d\<lparr>emitted := []\<rparr>"
  have lim: "limited ?d" "within ?d" using assms(1-5) by (simp_all add: limited_def within_def)
  obtain d1 n where w: "Write ?d p = (d1, n, None)" and fs: "fs = emitted d1"
    using assms(6) by (auto simp: DecodeFull_def Close_def split: prod.splits option.splits if_splits)
  then show ?thesis
    using Write_within [OF w lim] by (auto simp: within_def word_le_nat_alt)
qed

theorem DecodeFull_limits_witness:
  "list_all (\<lambda>f. int (length (Name f)) \<le> 8192 \<and> int (length (Value f)) \<le> 8192) [hfield '':method'' ''GET''] \<and>
   entries_size [hfield '':method'' ''GET''] \<le> 1048576"
proof -
  have "snd (DecodeFull (NewDecoder 4096) [0x82]) = Inr [hfield '':method'' ''GET'']" by code_simp
  then show ?thesis
    using DecodeFull_limits [of "NewDecoder 4096" "[0x82]"]
    by (simp add: NewDecoder_def maxHeaderFieldSize_def maxHeaderBlockSize_def)
qed

text \<open>
  C28: The dynamic table of a decoder stays well formed whatever bytes are written, on the error
  paths as well: its lookup maps agree with its entries, its size is the sum of the sizes of its
  entries and never exceeds the current maximum, which never exceeds what was allowed.
\<close>

theorem Write_keeps_table:
  assumes "dec_inv d"
  shows "dec_inv (fst (Write d p))"
  by (rule Write_dec_inv [OF assms])

theorem Write_keeps_table_witness:
  "dec_inv (fst (Write (NewDecoder 4096) [0x40, 1, 97, 1, 98, 0xFF]))"
proof -
  have "dt_inv (emptyDynamicTable\<lparr>dtTable := table_init emptyTable, allowedMaxSize := 4096\<rparr>)"
    by (simp add: dt_inv_def dt_sized_def emptyDynamicTable_def table_init_def emptyTable_def table_inv_def)
  then have "dec_inv (NewDecoder 4096)"
    using setMaxSize_correct by (simp add: NewDecoder_def dec_inv_def maxHeaderFieldSize_def)
  then show ?thesis by (rule Write_keeps_table)
qed

end
