(* ===== verification/Hpack_Encoder.thy ===== *)
theory Hpack_Encoder
  imports Hpack_Decoder
begin

text \<open>
  The HPACK encoder (\<open>Encoder\<close> of \<open>src/pkg/hpack/hpack.go\<close>) and the two ends together. The writer
  the encoder hands its bytes to is a parameter: a function from the bytes of one call to the
  count and error it answers with. The main lemma is that a decoder whose dynamic table agrees
  with the encoder's decodes what the encoder wrote into the fields it was given, flags included,
  and that the tables still agree afterwards.
\<close>

section \<open>Wire format\<close>

text \<open>\<open>dst[first] |= flag\<close>\<close>

definition orAt :: "nat \<Rightarrow> byte \<Rightarrow> bytes \<Rightarrow> bytes" where
  "orAt first flag dst = dst[first := dst ! first OR flag]"

definition encodeTypeByte :: "bool \<Rightarrow> bool \<Rightarrow> byte" where
  "encodeTypeByte indexing sens = (if sens then 0x10 else if indexing then 0x40 else 0x00)"

definition appendHpackString :: "bytes \<Rightarrow> bytes \<Rightarrow> bytes" where
  "appendHpackString dst s =
     (let huffLen = HuffmanEncodeLength s
      in if huffLen < word_of_nat (length s)
         then orAt (length dst) 0x80 (AppendHuffmanString (appendVarInt dst 7 huffLen) s)
         else appendVarInt dst 7 (word_of_nat (length s)) @ s)"

definition appendIndexed :: "bytes \<Rightarrow> u64 \<Rightarrow> bytes" where
  "appendIndexed dst i = orAt (length dst) 0x80 (appendVarInt dst 7 i)"

definition appendNewName :: "bytes \<Rightarrow> HeaderField \<Rightarrow> bool \<Rightarrow> bytes" where
  "appendNewName dst f indexing =
     (let dst = dst @ [encodeTypeByte indexing (Sensitive f)];
          dst = appendHpackString dst (Name f)
      in appendHpackString dst (Value f))"

definition appendIndexedName :: "bytes \<Rightarrow> HeaderField \<Rightarrow> u64 \<Rightarrow> bool \<Rightarrow> bytes" where
  "appendIndexedName dst f i indexing =
     (let n = (if indexing then 6 else 4);
          dst' = orAt (length dst) (encodeTypeByte indexing (Sensitive f)) (appendVarInt dst n i)
      in appendHpackString dst' (Value f))"

definition appendTableSize :: "bytes \<Rightarrow> u32 \<Rightarrow> bytes" where
  "appendTableSize dst v = orAt (length dst) 0x20 (appendVarInt dst 5 (ucast v))"

section \<open>The encoder\<close>

record Encoder =
  edynTab :: dynamicTable
  ebuf :: bytes
  minSize :: u32
  maxSizeLimit :: u32
  tableSizeUpdate :: bool

definition uint32Max :: u32 where
  "uint32Max = NOT 0"

definition initialHeaderTableSize :: u32 where
  "initialHeaderTableSize = 4096"

definition NewEncoder :: Encoder where
  "NewEncoder =
     \<lparr>edynTab = setMaxSize (emptyDynamicTable\<lparr>dtTable := table_init emptyTable\<rparr>) initialHeaderTableSize,
      ebuf = [], minSize = uint32Max, maxSizeLimit = initialHeaderTableSize, tableSizeUpdate = False\<rparr>"

definition searchTable :: "Encoder \<Rightarrow> HeaderField \<Rightarrow> nat \<times> bool" where
  "searchTable e f =
     (case search True staticTable f of (i, m) \<Rightarrow>
        if m then (i, True)
        else case search False (dtTable (edynTab e)) f of (j, match) \<Rightarrow>
          if match \<or> (i = 0 \<and> j \<noteq> 0) then (j + table_len staticTable, match) else (i, False))"

definition shouldIndex :: "Encoder \<Rightarrow> HeaderField \<Rightarrow> bool" where
  "shouldIndex e f \<longleftrightarrow> \<not> Sensitive f \<and> Size f \<le> dtMaxSize (edynTab e)"

text \<open>The pending table size updates at the start of \<open>WriteField\<close>.\<close>

definition flushSizeUpdate :: "Encoder \<Rightarrow> Encoder" where
  "flushSizeUpdate e =
     (if tableSizeUpdate e then
        let e = e\<lparr>tableSizeUpdate := False\<rparr>;
            e = (if minSize e < dtMaxSize (edynTab e) then e\<lparr>ebuf := appendTableSize (ebuf e) (minSize e)\<rparr> else e);
            e = e\<lparr>minSize := uint32Max\<rparr>
        in e\<lparr>ebuf := appendTableSize (ebuf e) (dtMaxSize (edynTab e))\<rparr>
      else e)"

text \<open>The representation of the field itself.\<close>

definition encodeField :: "Encoder \<Rightarrow> HeaderField \<Rightarrow> Encoder" where
  "encodeField e f =
     (case searchTable e f of (idx, nameValueMatch) \<Rightarrow>
        if nameValueMatch then e\<lparr>ebuf := appendIndexed (ebuf e) (word_of_nat idx)\<rparr>
        else let indexing = shouldIndex e f;
                 e = (if indexing then e\<lparr>edynTab := dt_add (edynTab e) f\<rparr> else e)
             in if idx = 0 then e\<lparr>ebuf := appendNewName (ebuf e) f indexing\<rparr>
                else e\<lparr>ebuf := appendIndexedName (ebuf e) f (word_of_nat idx) indexing\<rparr>)"

datatype 'e write_error = ShortWrite int nat | WriterError 'e

definition WriteField ::
  "(bytes \<Rightarrow> int \<times> 'e option) \<Rightarrow> Encoder \<Rightarrow> HeaderField \<Rightarrow> Encoder \<times> 'e write_error option" where
  "WriteField w e f =
     (let e = encodeField (flushSizeUpdate (e\<lparr>ebuf := []\<rparr>)) f
      in case w (ebuf e) of (n, err) \<Rightarrow>
        if err = None \<and> n \<noteq> int (length (ebuf e)) then (e, Some (ShortWrite n (length (ebuf e))))
        else (e, map_option WriterError err))"

definition enc_SetMaxDynamicTableSize :: "Encoder \<Rightarrow> u32 \<Rightarrow> Encoder" where
  "enc_SetMaxDynamicTableSize e v =
     (let v = (if v > maxSizeLimit e then maxSizeLimit e else v);
          e = (if v < minSize e then e\<lparr>minSize := v\<rparr> else e)
      in e\<lparr>tableSizeUpdate := True, edynTab := setMaxSize (edynTab e) v\<rparr>)"

definition MaxDynamicTableSize :: "Encoder \<Rightarrow> u32" where
  "MaxDynamicTableSize e = dtMaxSize (edynTab e)"

definition SetMaxDynamicTableSizeLimit :: "Encoder \<Rightarrow> u32 \<Rightarrow> Encoder" where
  "SetMaxDynamicTableSizeLimit e v =
     (let e = e\<lparr>maxSizeLimit := v\<rparr>
      in if dtMaxSize (edynTab e) > v then e\<lparr>tableSizeUpdate := True, edynTab := setMaxSize (edynTab e) v\<rparr>
         else e)"

section \<open>Pools\<close>

text \<open>
  A \<open>DecoderPool\<close>: \<open>free\<close> are the decoders that were put back. \<open>sync.Pool\<close> may drop them at any
  time; \<open>Get\<close> takes one or makes a new one.
\<close>

record DecoderPool =
  poolMaxDynTable :: u32
  poolMaxStrLen :: int
  poolMaxHeaderBytes :: u32
  free :: "Decoder list"
  acquired :: int
  released :: int

definition NewDecoderPool :: "u32 \<Rightarrow> int \<Rightarrow> u32 \<Rightarrow> DecoderPool" where
  "NewDecoderPool maxDynTable maxStr maxBytes =
     \<lparr>poolMaxDynTable = maxDynTable, poolMaxStrLen = maxStr, poolMaxHeaderBytes = maxBytes,
      free = [], acquired = 0, released = 0\<rparr>"

definition pool_New :: "DecoderPool \<Rightarrow> Decoder" where
  "pool_New p =
     SetMaxHeaderBytes (SetMaxStringLength (NewDecoder (poolMaxDynTable p)) (poolMaxStrLen p)) (poolMaxHeaderBytes p)"

definition pool_Get :: "DecoderPool \<Rightarrow> DecoderPool \<times> Decoder" where
  "pool_Get p =
     (let p = p\<lparr>acquired := acquired p + 1\<rparr>
      in case free p of
           [] \<Rightarrow> (p, Reset (pool_New p) (poolMaxDynTable p))
         | d # ds \<Rightarrow> (p\<lparr>free := ds\<rparr>, Reset d (poolMaxDynTable p)))"

definition pool_Put :: "DecoderPool \<Rightarrow> Decoder \<Rightarrow> DecoderPool" where
  "pool_Put p d = p\<lparr>released := released p + 1, free := d # free p\<rparr>"

definition pool_Stats :: "DecoderPool \<Rightarrow> int \<times> int" where
  "pool_Stats p = (acquired p, released p)"

section \<open>Everything is appended\<close>

lemma orAt_append: "xs \<noteq> [] \<Longrightarrow> orAt (length dst) flag (dst @ xs) = dst @ orFirst flag xs"
  by (cases xs) (simp_all add: orAt_def orFirst_def nth_append_length_Suc list_update_append)

lemma appendVarInt_nonempty [simp]: "appendVarInt [] n i \<noteq> []"
  by (simp add: appendVarInt_Nil)

lemma AppendHuffman_loop_append:
  "AppendHuffman_loop (pre @ dst) x n s =
     (case AppendHuffman_loop dst x n s of (dst', x', n') \<Rightarrow> (pre @ dst', x', n'))"
  by (induction dst x n s rule: AppendHuffman_loop.induct) (simp_all add: Let_def)

lemma AppendHuffmanString_append: "AppendHuffmanString dst s = dst @ AppendHuffmanString [] s"
  using AppendHuffman_loop_append [of dst "[]" 0 0 s]
  by (simp add: AppendHuffmanString_def AppendHuffman_flush_def Let_def split: prod.splits)

definition hstring :: "bytes \<Rightarrow> bytes" where
  "hstring s =
     (if HuffmanEncodeLength s < word_of_nat (length s)
      then orFirst 0x80 (appendVarInt [] 7 (HuffmanEncodeLength s)) @ AppendHuffmanString [] s
      else appendVarInt [] 7 (word_of_nat (length s)) @ s)"

lemma orFirst_append: "xs \<noteq> [] \<Longrightarrow> orFirst flag (xs @ ys) = orFirst flag xs @ ys"
  by (cases xs) (simp_all add: orFirst_def)

lemma appendHpackString_append: "appendHpackString dst s = dst @ hstring s"
proof -
  let ?v = "appendVarInt [] 7 (HuffmanEncodeLength s)"
  have "orAt (length dst) 0x80 (AppendHuffmanString (appendVarInt dst 7 (HuffmanEncodeLength s)) s)
      = orAt (length dst) 0x80 (dst @ ?v @ AppendHuffmanString [] s)"
    by (subst AppendHuffmanString_append, subst appendVarInt_append [of dst "[]", simplified]) simp
  also have "\<dots> = dst @ orFirst 0x80 (?v @ AppendHuffmanString [] s)" by (rule orAt_append) simp
  also have "\<dots> = dst @ orFirst 0x80 ?v @ AppendHuffmanString [] s" by (simp add: orFirst_append)
  finally show ?thesis
    unfolding appendHpackString_def hstring_def Let_def
    using appendVarInt_append [of dst "[]" 7 "word_of_nat (length s)"] by simp
qed

lemma append_simps:
  "appendIndexed dst i = dst @ orFirst 0x80 (appendVarInt [] 7 i)"
  "appendNewName dst f ix = dst @ [encodeTypeByte ix (Sensitive f)] @ hstring (Name f) @ hstring (Value f)"
  "appendIndexedName dst f i ix = dst @ orFirst (encodeTypeByte ix (Sensitive f)) (appendVarInt [] (if ix then 6 else 4) i) @ hstring (Value f)"
  "appendTableSize dst v = dst @ orFirst 0x20 (appendVarInt [] 5 (ucast v))"
  using appendVarInt_append [of dst "[]" 7 i] appendVarInt_append [of dst "[]" 6 i]
    appendVarInt_append [of dst "[]" 4 i] appendVarInt_append [of dst "[]" 5 "ucast v"]
  by (simp_all add: appendIndexed_def appendNewName_def appendIndexedName_def appendTableSize_def
      appendHpackString_append orAt_append)

section \<open>String literals round-trip\<close>

lemma orFirst_0 [simp]: "orFirst 0 xs = xs"
  by (simp add: orFirst_def split: list.splits)

lemma orFirst_nonempty [simp]: "orFirst flag xs = [] \<longleftrightarrow> xs = []"
  by (simp add: orFirst_def split: list.splits)

lemma not_masks: "NOT (mask 7) = (0x80 :: byte)" "NOT (mask 6) = (0xC0 :: byte)"
  "NOT (mask 5) = (0xE0 :: byte)" "NOT (mask 4) = (0xF0 :: byte)"
  by (simp_all add: mask_eq_exp_minus_1)

lemmas wire_flags =
  varint_flag_bits [of 7, unfolded not_masks] varint_flag_bits [of 6, unfolded not_masks]
  varint_flag_bits [of 5, unfolded not_masks] varint_flag_bits [of 4, unfolded not_masks]

lemma flag_set: "hd (orFirst 0x80 (appendVarInt [] 7 n) @ x) AND 0x80 \<noteq> 0"
  using wire_flags(1) [of "0x80" n] by (simp add: hd_append mask_eq_exp_minus_1)

lemma flag_clear: "hd (appendVarInt [] 7 n @ x) AND 0x80 = 0"
  using wire_flags(1) [of 0 n] by (simp add: hd_append)

lemma hstring_nonempty: "hstring s \<noteq> []"
  by (simp add: hstring_def orFirst_def split: list.splits)

lemma hstring_roundtrip:
  assumes "int (length s) \<le> maxStrLen d" and "0 < maxStrLen d" and "maxStrLen d \<le> 2 ^ 29"
  shows "\<exists>u. readString d (hstring s @ rest) = (u, rest, None) \<and> decodeString d u = (s, None)"
proof -
  have "int (length s) \<le> 2 ^ 29" using assms by linarith
  then have len: "length s \<le> 2 ^ 29" by simp
  have u64: "unat (word_of_nat (length s) :: u64) = length s"
    by (rule of_nat_inverse) (use len in simp_all)
  have max: "uint (word_of_int (maxStrLen d) :: u64) = maxStrLen d"
    using assms(2,3) by (simp add: unsigned_of_int take_bit_int_eq_self)
  have ok: "\<not> n > word_of_int (maxStrLen d)" if "unat n \<le> length s" for n :: u64
  proof -
    have "int (unat n) \<le> maxStrLen d" using that assms(1) by linarith
    then show ?thesis using max by (simp add: word_less_def)
  qed
  have small: "n < 2 ^ 63" if "unat n \<le> length s" for n :: u64
    using that len by (simp add: word_less_nat_alt unat_exp)
  show ?thesis
  proof (cases "HuffmanEncodeLength s < word_of_nat (length s)")
    case True
    let ?n = "HuffmanEncodeLength s" and ?e = "AppendHuffmanString [] s"
    have n: "unat ?n = length ?e" by (rule encode_length) (use len in simp)
    have le: "unat ?n \<le> length s" using True u64 by (simp add: word_less_nat_alt)
    have hd: "hd (orFirst 0x80 (appendVarInt [] 7 ?n) @ x) AND 0x80 \<noteq> 0" for x
      by (rule flag_set)
    have "readVarInt 7 (orFirst 0x80 (appendVarInt [] 7 ?n) @ ?e @ rest) = (?n, ?e @ rest, None)"
      by (rule varint_roundtrip_flag) (use small [OF le] in \<open>simp_all add: mask_eq_exp_minus_1\<close>)
    then have "readString d (hstring s @ rest) = (\<lparr>ub = ?e, isHuff = True\<rparr>, rest, None)"
      using True n hd ok [OF le] unfolding readString_None hstring_def by simp
    moreover have "decodeString d \<lparr>ub = ?e, isHuff = True\<rparr> = (s, None)"
      using huffmanDecode_encoded [of "maxStrLen d" "[]" s] assms(1) by (simp add: decodeString_def fits_def)
    ultimately show ?thesis by blast
  next
    case False
    let ?n = "word_of_nat (length s) :: u64"
    have le: "unat ?n \<le> length s" using u64 by simp
    have hd: "hd (appendVarInt [] 7 ?n @ x) AND 0x80 = 0" for x by (rule flag_clear)
    have "readVarInt 7 (orFirst 0 (appendVarInt [] 7 ?n) @ s @ rest) = (?n, s @ rest, None)"
      by (rule varint_roundtrip_flag) (use small [OF le] in \<open>simp_all add: mask_eq_exp_minus_1\<close>)
    then have "readVarInt 7 (appendVarInt [] 7 ?n @ s @ rest) = (?n, s @ rest, None)" by simp
    then have "readString d (hstring s @ rest) = (\<lparr>ub = s, isHuff = False\<rparr>, rest, None)"
      using False u64 hd ok [OF le] unfolding readString_None hstring_def by simp
    moreover have "decodeString d \<lparr>ub = s, isHuff = False\<rparr> = (s, None)" by (simp add: decodeString_def)
    ultimately show ?thesis by blast
  qed
qed

section \<open>One field\<close>

lemma searchTable_find_both:
  "searchTable e f = hpack_space.find_both staticTable (dtTable (edynTab e)) f"
  by (simp add: searchTable_def hpack_space.find_both_def split: prod.splits)

text \<open>Encoder and decoder agree on the entries and on the maximum size of the dynamic table.\<close>

definition in_sync :: "Encoder \<Rightarrow> Decoder \<Rightarrow> bool" where
  "in_sync e d \<longleftrightarrow> dt_inv (edynTab e) \<and> dec_inv d \<and>
     ents (dtTable (edynTab e)) = ents (dtTable (dynTab d)) \<and> dtMaxSize (edynTab e) = dtMaxSize (dynTab d)"

lemma in_sync_search:
  assumes "in_sync e d" and "searchTable e f = (k, full)" and "k \<noteq> 0"
  shows "\<exists>g. dec_at d (word_of_nat k) = Some g \<and> Name g = Name f \<and> (full \<longrightarrow> Value g = Value f \<and> \<not> Sensitive f)"
    and "(word_of_nat k :: u64) < 2 ^ 63" and "(word_of_nat k :: u64) > 0"
proof -
  have ti: "table_inv (dtTable (edynTab e))" using assms(1) by (simp add: in_sync_def dt_inv_def dt_sized_def)
  have ix: "indexed_entries d = ents staticTable @ rev (ents (dtTable (edynTab e)))"
    using assms(1) by (simp add: indexed_entries_def in_sync_def)
  note snd = hpack_space.find_both_sound [OF static_ok_staticTable ti, of f k full,
      folded searchTable_find_both, OF assms(2,3), folded ix]
  have len: "length (ents (dtTable (dynTab d))) \<le> 2 ^ 30" using assms(1) dec_inv_length unfolding in_sync_def by blast
  then have "k \<le> 61 + 2 ^ 30" using snd by (simp add: indexed_entries_def)
  then have k: "unat (word_of_nat k :: u64) = k" by (intro of_nat_inverse) simp_all
  show "\<exists>g. dec_at d (word_of_nat k) = Some g \<and> Name g = Name f \<and> (full \<longrightarrow> Value g = Value f \<and> \<not> Sensitive f)"
    using snd assms(3) k by (simp add: dec_at_index [OF len])
  show "(word_of_nat k :: u64) < 2 ^ 63" using k \<open>k \<le> 61 + 2 ^ 30\<close> by (simp add: word_less_nat_alt unat_exp)
  show "(word_of_nat k :: u64) > 0" using k assms(3) by (simp add: word_less_nat_alt)
qed

text \<open>What a decoder may be given: the limits of the decoder admit the field.\<close>

definition admits :: "Decoder \<Rightarrow> HeaderField \<Rightarrow> bool" where
  "admits d f \<longleftrightarrow> int (length (Name f)) \<le> maxStrLen d \<and> int (length (Value f)) \<le> maxStrLen d \<and>
     (maxHeaderBytes d \<noteq> 0 \<longrightarrow> unat (headerBytes d) + nsize f \<le> unat (maxHeaderBytes d))"

text \<open>The decoder after the field: only the byte count and the log of emitted fields change.\<close>

definition emits :: "Decoder \<Rightarrow> HeaderField \<Rightarrow> Decoder" where
  "emits d f = d\<lparr>headerBytes := (if maxHeaderBytes d \<noteq> 0 then headerBytes d + Size f else headerBytes d),
     emitted := emitted d @ [f]\<rparr>"

lemma callEmit_admits:
  assumes "admits d f" and "emitEnabled d"
  shows "callEmit d f = (emits d f, None)"
proof -
  have "unat (headerBytes d + Size f) \<le> unat (maxHeaderBytes d)" if "maxHeaderBytes d \<noteq> 0"
  proof -
    have "unat (headerBytes d) + nsize f \<le> unat (maxHeaderBytes d)" using that assms(1) by (simp add: admits_def)
    moreover have "unat (maxHeaderBytes d) < 2 ^ 32" using unsigned_less [of "maxHeaderBytes d", where 'a = nat] by simp
    ultimately show ?thesis by (simp add: unat_plus_if' unat_Size)
  qed
  with assms show ?thesis
    by (auto simp: callEmit_def emits_def admits_def Let_def word_le_nat_alt not_less)
qed

text \<open>A literal whose name is known and whose value is a string literal.\<close>

lemma parseFieldLiteral_eq:
  assumes "readVarInt n (dbuf d) = (i, b1, None)" and "literalName d i b1 = Inr (name, u, b2)"
    and "readString d b2 = (v, b3, None)"
    and "literalStrings d (emitEnabled d \<or> indexed it) i name u v = Inr (nm, val)"
  shows "parseFieldLiteral d n it =
    callEmit ((if indexed it then d\<lparr>dynTab := dt_add (dynTab d) \<lparr>Name = nm, Value = val, Sensitive = False\<rparr>\<rparr> else d)\<lparr>dbuf := b3\<rparr>)
      \<lparr>Name = nm, Value = val, Sensitive = sensitive it\<rparr>"
  using assms by (cases "indexed it") (simp_all add: parseFieldLiteral_def Let_def dbuf_dynTab_swap)

lemma literal_strings_roundtrip:
  assumes "int (length (Value f)) \<le> maxStrLen d" and "0 < maxStrLen d" and "maxStrLen d \<le> 2 ^ 29" and "emitEnabled d"
    and "i > 0 \<Longrightarrow> dec_at d i = Some g \<and> Name g = Name f \<and> b1 = hstring (Value f) @ rest"
    and "i = 0 \<Longrightarrow> int (length (Name f)) \<le> maxStrLen d \<and> b1 = hstring (Name f) @ hstring (Value f) @ rest"
    and "readVarInt n (dbuf d) = (i, b1, None)"
  shows "parseFieldLiteral d n it =
    callEmit ((if indexed it then d\<lparr>dynTab := dt_add (dynTab d) \<lparr>Name = Name f, Value = Value f, Sensitive = False\<rparr>\<rparr> else d)\<lparr>dbuf := rest\<rparr>)
      \<lparr>Name = Name f, Value = Value f, Sensitive = sensitive it\<rparr>"
proof -
  obtain v where v: "readString d (hstring (Value f) @ rest) = (v, rest, None)" "decodeString d v = (Value f, None)"
    using hstring_roundtrip [OF assms(1-3)] by blast
  show ?thesis
  proof (cases "i > 0")
    case True
    with assms(5) have "literalName d i b1 = Inr (Name f, noStr, hstring (Value f) @ rest)"
      by (simp add: literalName_def)
    moreover have "literalStrings d (emitEnabled d \<or> indexed it) i (Name f) noStr v = Inr (Name f, Value f)"
      using True v(2) assms(4) by (auto simp: literalStrings_def)
    ultimately show ?thesis using parseFieldLiteral_eq [OF assms(7)] v(1) by blast
  next
    case False
    then have "i = 0" using word_neq_0_conv [of i] by blast
    with assms(6) obtain u where u: "readString d b1 = (u, hstring (Value f) @ rest, None)" "decodeString d u = (Name f, None)"
      using hstring_roundtrip [OF _ assms(2,3), of "Name f" "hstring (Value f) @ rest"] by auto
    then have "literalName d i b1 = Inr ([], u, hstring (Value f) @ rest)"
      using \<open>i = 0\<close> by (simp add: literalName_def)
    moreover have "literalStrings d (emitEnabled d \<or> indexed it) i [] u v = Inr (Name f, Value f)"
      using \<open>i = 0\<close> v(2) u(2) assms(4) by (simp add: literalStrings_def)
    ultimately show ?thesis using parseFieldLiteral_eq [OF assms(7)] v(1) by blast
  qed
qed

lemma in_sync_add:
  assumes "in_sync e d" and "nsize f \<le> 2 ^ 30 + 2 ^ 29"
  shows "in_sync (e\<lparr>edynTab := dt_add (edynTab e) f\<rparr>) (d\<lparr>dynTab := dt_add (dynTab d) f\<rparr>)"
proof -
  have size: "dtSize (edynTab e) = dtSize (dynTab d)"
    using assms(1) by (simp add: in_sync_def dec_inv_def dt_inv_def dt_sized_def word_unat_eq_iff)
  have "unat (dtSize (dynTab d)) \<le> 2 ^ 30"
    using assms(1) by (auto simp: in_sync_def dec_inv_def dt_inv_def word_le_nat_alt)
  then have lt: "unat (dtSize (dynTab d)) + nsize f < 2 ^ 32" "unat (dtSize (edynTab e)) + nsize f < 2 ^ 32"
    using assms(2) size by simp_all
  have "dec_inv (d\<lparr>dynTab := dt_add (dynTab d) f\<rparr>)"
    using dec_inv_dt_add assms by (simp add: in_sync_def)
  then show ?thesis
    using dt_add_correct [OF _ lt(1)] dt_add_correct [OF _ lt(2)] assms(1)
    by (simp add: in_sync_def dec_inv_def)
qed

lemma in_sync_frame:
  "in_sync e d \<Longrightarrow> dynTab d' = dynTab d \<Longrightarrow> maxStrLen d' = maxStrLen d \<Longrightarrow> edynTab e' = edynTab e \<Longrightarrow> in_sync e' d'"
  by (simp add: in_sync_def dec_inv_def)

lemma byte_and_split:
  "b AND 0x80 = (b AND 0xC0) AND (0x80 :: byte)" "b AND 0x80 = (b AND 0xF0) AND (0x80 :: byte)"
  "b AND 0xC0 = (b AND 0xF0) AND (0xC0 :: byte)"
  by (simp_all add: and.assoc)

lemma dispatch_literal:
  assumes "hd (dbuf d) AND NOT (mask n) = encodeTypeByte ix sn" and "ix \<longrightarrow> \<not> sn" and "n = (if ix then 6 else 4)"
  shows "parseHeaderFieldRepr d = parseFieldLiteral d n (if ix then indexedTrue else if sn then indexedNever else indexedFalse)"
proof (cases ix)
  case True
  then have "hd (dbuf d) AND 0xC0 = 0x40" using assms by (simp add: not_masks encodeTypeByte_def)
  with True assms(3) show ?thesis
    using byte_and_split(1) [of "hd (dbuf d)"] by (simp add: parseHeaderFieldRepr_def Let_def)
next
  case False
  then have "hd (dbuf d) AND 0xF0 = (if sn then 0x10 else 0)" using assms by (simp add: not_masks encodeTypeByte_def)
  with False assms(3) show ?thesis
    using byte_and_split(2,3) [of "hd (dbuf d)"] by (simp add: parseHeaderFieldRepr_def Let_def)
qed

lemma emits_frame: "emits (d\<lparr>dynTab := dt, dbuf := b\<rparr>) f = (emits (d\<lparr>dynTab := dt\<rparr>) f)\<lparr>dbuf := b\<rparr>"
  by (cases d) (simp add: emits_def)

lemma admits_frame [simp]: "admits (d\<lparr>dynTab := dt\<rparr>) f = admits d f" "admits (d\<lparr>dbuf := b\<rparr>) f = admits d f"
  by (simp_all add: admits_def)

lemma parse_indexed_roundtrip:
  assumes at: "dec_at d k = Some g" "Name g = Name f" "Value g = Value f" "\<not> Sensitive f" and k: "k < 2 ^ 63"
    and ok: "admits d f" "emitEnabled d"
  shows "parseHeaderFieldRepr (d\<lparr>dbuf := orFirst 0x80 (appendVarInt [] 7 k) @ rest\<rparr>) = ((emits d f)\<lparr>dbuf := rest\<rparr>, None)"
proof -
  have f: "\<lparr>Name = Name f, Value = Value f, Sensitive = False\<rparr> = f" using at(4) by (cases f) simp
  have "callEmit (d\<lparr>dbuf := rest\<rparr>) \<lparr>Name = Name f, Value = Value f, Sensitive = False\<rparr> = ((emits d f)\<lparr>dbuf := rest\<rparr>, None)"
    unfolding f using callEmit_admits [of "d\<lparr>dbuf := rest\<rparr>" f] ok emits_frame [where d = d and dt = "dynTab d" and b = rest and f = f] by simp
  moreover have "readVarInt 7 (orFirst 0x80 (appendVarInt [] 7 k) @ rest) = (k, rest, None)"
    by (rule varint_roundtrip_flag) (use k in \<open>simp_all add: mask_eq_exp_minus_1\<close>)
  ultimately show ?thesis
    using flag_set [of k rest] at by (simp add: parseHeaderFieldRepr_def parseFieldIndexed_def)
qed

lemma parse_literal_roundtrip:
  assumes ok: "admits d f" "emitEnabled d" and lim: "0 < maxStrLen d" "maxStrLen d \<le> 2 ^ 29"
    and k: "k < 2 ^ 63" "k > 0 \<Longrightarrow> \<exists>g. dec_at d k = Some g \<and> Name g = Name f"
    and ix: "ix \<longrightarrow> \<not> Sensitive f" and n: "n = (if ix then 6 else 4)"
    and bs: "bs = orFirst (encodeTypeByte ix (Sensitive f)) (appendVarInt [] n k) @
      (if k > 0 then hstring (Value f) else hstring (Name f) @ hstring (Value f))"
    and dt: "dt = (if ix then dt_add (dynTab d) f else dynTab d)"
  shows "parseHeaderFieldRepr (d\<lparr>dbuf := bs @ rest\<rparr>) = ((emits (d\<lparr>dynTab := dt\<rparr>) f)\<lparr>dbuf := rest\<rparr>, None)"
proof -
  let ?d = "d\<lparr>dbuf := bs @ rest\<rparr>"
  let ?it = "if ix then indexedTrue else if Sensitive f then indexedNever else indexedFalse"
  define flag where "flag = encodeTypeByte ix (Sensitive f)"
  have fl: "flag AND mask n = 0" using n ix by (auto simp: flag_def encodeTypeByte_def mask_eq_exp_minus_1)
  have "hd (dbuf ?d) AND NOT (mask n) = flag"
    using varint_flag_bits [OF _ fl, of k] n bs by (simp add: hd_append flag_def split: if_splits)
  then have disp: "parseHeaderFieldRepr ?d = parseFieldLiteral ?d n ?it"
    using dispatch_literal [of ?d n ix "Sensitive f"] ix n by (simp add: flag_def)
  define b1 where "b1 = (if k > 0 then hstring (Value f) else hstring (Name f) @ hstring (Value f)) @ rest"
  have "readVarInt n (orFirst flag (appendVarInt [] n k) @ b1) = (k, b1, None)"
    by (rule varint_roundtrip_flag) (use k(1) fl n in auto)
  then have rv: "readVarInt n (dbuf ?d) = (k, b1, None)" by (simp add: bs b1_def flag_def)
  obtain g where g: "k > 0 \<Longrightarrow> dec_at d k = Some g \<and> Name g = Name f" using k(2) by blast
  have it: "indexed ?it = ix" "sensitive ?it = Sensitive f" using ix by (auto simp: indexed_def sensitive_def)
  have "parseFieldLiteral ?d n ?it =
    callEmit ((if indexed ?it then ?d\<lparr>dynTab := dt_add (dynTab ?d) \<lparr>Name = Name f, Value = Value f, Sensitive = False\<rparr>\<rparr> else ?d)\<lparr>dbuf := rest\<rparr>)
      \<lparr>Name = Name f, Value = Value f, Sensitive = sensitive ?it\<rparr>"
    by (rule literal_strings_roundtrip [OF _ _ _ _ _ _ rv, of _ g])
       (use ok lim g in \<open>auto simp: admits_def b1_def\<close>)
  also have "(if indexed ?it then ?d\<lparr>dynTab := dt_add (dynTab ?d) \<lparr>Name = Name f, Value = Value f, Sensitive = False\<rparr>\<rparr> else ?d)\<lparr>dbuf := rest\<rparr>
      = d\<lparr>dynTab := dt, dbuf := rest\<rparr>"
    using ix by (cases f) (auto simp: it dt dbuf_dynTab_swap)
  also have "\<lparr>Name = Name f, Value = Value f, Sensitive = sensitive ?it\<rparr> = f" by (simp add: it)
  also have "callEmit (d\<lparr>dynTab := dt, dbuf := rest\<rparr>) f = ((emits (d\<lparr>dynTab := dt\<rparr>) f)\<lparr>dbuf := rest\<rparr>, None)"
    using callEmit_admits [of "d\<lparr>dynTab := dt, dbuf := rest\<rparr>" f] ok by (simp add: emits_frame)
  finally show ?thesis using disp by simp
qed

text \<open>The decoder reads one encoded field back and stays in step.\<close>

lemma encodeField_roundtrip:
  assumes sync: "in_sync e d" and ok: "admits d f" and en: "emitEnabled d"
  shows "\<exists>bs dt. ebuf (encodeField e f) = ebuf e @ bs \<and> bs \<noteq> [] \<and>
    in_sync (encodeField e f) (emits (d\<lparr>dynTab := dt\<rparr>) f) \<and>
    (\<forall>rest. parseHeaderFieldRepr (d\<lparr>dbuf := bs @ rest\<rparr>) = ((emits (d\<lparr>dynTab := dt\<rparr>) f)\<lparr>dbuf := rest\<rparr>, None))"
proof -
  have lim: "0 < maxStrLen d" "maxStrLen d \<le> 2 ^ 29" using sync by (simp_all add: in_sync_def dec_inv_def)
  obtain k full where s: "searchTable e f = (k, full)" by fastforce
  have ti: "table_inv (dtTable (edynTab e))" using sync by (simp add: in_sync_def dt_inv_def dt_sized_def)
  have full0: "\<not> full" if "k = 0"
    using hpack_space.find_both_absent [OF static_ok_staticTable ti, of f full] s that by (simp add: searchTable_find_both)
  let ?k = "word_of_nat k :: u64"
  show ?thesis
  proof (cases full)
    case True
    then have "k \<noteq> 0" using full0 by blast
    then obtain g where g: "dec_at d ?k = Some g" "Name g = Name f" "Value g = Value f" "\<not> Sensitive f"
      using in_sync_search(1) [OF sync s] True by blast
    have "ebuf (encodeField e f) = ebuf e @ orFirst 0x80 (appendVarInt [] 7 ?k)" "edynTab (encodeField e f) = edynTab e"
      using s True by (simp_all add: encodeField_def append_simps)
    moreover have "in_sync (encodeField e f) (emits d f)"
      by (rule in_sync_frame [OF sync]) (use calculation in \<open>simp_all add: emits_def\<close>)
    moreover have "d\<lparr>dynTab := dynTab d\<rparr> = d" by simp
    ultimately show ?thesis
      using parse_indexed_roundtrip [OF g in_sync_search(2) [OF sync s \<open>k \<noteq> 0\<close>] ok en]
      by (intro exI [of _ "orFirst 0x80 (appendVarInt [] 7 ?k)"] exI [of _ "dynTab d"]) simp
  next
    case False
    define ix where "ix = shouldIndex e f"
    define n where "n = (if ix then 6 else 4 :: nat)"
    define dt where "dt = (if ix then dt_add (dynTab d) f else dynTab d)"
    have ixs: "ix \<longrightarrow> \<not> Sensitive f" by (simp add: ix_def shouldIndex_def)
    have k0: "?k = 0 \<longleftrightarrow> k = 0" using in_sync_search(3) [OF sync s] by (cases "k = 0") auto
    define bs where "bs = orFirst (encodeTypeByte ix (Sensitive f)) (appendVarInt [] n ?k) @
      (if ?k > 0 then hstring (Value f) else hstring (Name f) @ hstring (Value f))"
    have "appendVarInt [] n 0 = [0]"
      by (simp add: n_def appendVarInt_Nil prefixMask_mask mask_eq_exp_minus_1)
    then have "ebuf (encodeField e f) = ebuf e @ bs"
      using s False k0 by (simp add: encodeField_def append_simps Let_def bs_def ix_def n_def orFirst_def word_gt_0)
    moreover have "bs \<noteq> []" by (simp add: bs_def)
    moreover have "edynTab (encodeField e f) = (if ix then dt_add (edynTab e) f else edynTab e)"
      using s False by (simp add: encodeField_def Let_def ix_def)
    moreover have "nsize f \<le> 2 ^ 30 + 2 ^ 29"
      using ok lim by (simp add: admits_def nsize_def)
    ultimately have "in_sync (encodeField e f) (emits (d\<lparr>dynTab := dt\<rparr>) f)"
      using in_sync_frame [OF in_sync_add [OF sync, of f], of "emits (d\<lparr>dynTab := dt\<rparr>) f" "encodeField e f"]
        in_sync_frame [OF sync, of "emits (d\<lparr>dynTab := dt\<rparr>) f" "encodeField e f"]
      by (cases ix) (simp_all add: dt_def emits_def)
    moreover have "?k < 2 ^ 63" using in_sync_search(2) [OF sync s] by (cases "k = 0") simp_all
    moreover have "\<exists>g. dec_at d ?k = Some g \<and> Name g = Name f" if "?k > 0"
      using in_sync_search(1) [OF sync s] that k0 by fastforce
    ultimately show ?thesis
      using parse_literal_roundtrip [OF ok en lim _ _ ixs n_def bs_def dt_def]
        \<open>ebuf (encodeField e f) = ebuf e @ bs\<close> \<open>bs \<noteq> []\<close> by blast
  qed
qed

section \<open>Header lists\<close>

text \<open>A writer that takes everything, and what reaches it for a list of fields.\<close>

definition acceptAll :: "bytes \<Rightarrow> int \<times> unit option" where
  "acceptAll bs = (int (length bs), None)"

fun sent :: "Encoder \<Rightarrow> HeaderField list \<Rightarrow> Encoder \<times> bytes" where
  "sent e [] = (e, [])"
| "sent e (f # fs) =
     (case WriteField acceptAll e f of (e', _) \<Rightarrow> case sent e' fs of (e'', bs) \<Rightarrow> (e'', ebuf e' @ bs))"

lemma WriteField_acceptAll:
  "WriteField acceptAll e f = (encodeField (flushSizeUpdate (e\<lparr>ebuf := []\<rparr>)) f, None)"
  by (simp add: WriteField_def acceptAll_def Let_def)

lemma encodeField_sizeUpdate: "tableSizeUpdate (encodeField e f) = tableSizeUpdate e"
  by (auto simp: encodeField_def Let_def split: prod.splits)

lemma sent_no_update: "\<not> tableSizeUpdate e \<Longrightarrow> \<not> tableSizeUpdate (fst (sent e fs))"
proof (induction fs arbitrary: e)
  case (Cons f fs)
  let ?e = "encodeField (e\<lparr>ebuf := []\<rparr>) f"
  have "\<not> tableSizeUpdate (fst (sent ?e fs))"
    by (rule Cons.IH) (simp add: encodeField_sizeUpdate Cons.prems)
  with Cons.prems show ?case
    by (simp add: WriteField_acceptAll flushSizeUpdate_def case_prod_beta)
qed simp

definition admits_all :: "Decoder \<Rightarrow> HeaderField list \<Rightarrow> bool" where
  "admits_all d fs \<longleftrightarrow>
     (\<forall>f \<in> set fs. int (length (Name f)) \<le> maxStrLen d \<and> int (length (Value f)) \<le> maxStrLen d) \<and>
     (maxHeaderBytes d \<noteq> 0 \<longrightarrow> unat (headerBytes d) + entries_size fs \<le> unat (maxHeaderBytes d))"

lemma admits_all_Cons:
  assumes "admits_all d (f # fs)"
  shows "admits d f" "admits_all ((emits (d\<lparr>dynTab := dt\<rparr>) f)\<lparr>firstField := v\<rparr>) fs"
proof -
  show "admits d f" using assms by (auto simp: admits_all_def admits_def)
  have "unat (headerBytes d + Size f) = unat (headerBytes d) + nsize f" if "maxHeaderBytes d \<noteq> 0"
  proof -
    have "unat (headerBytes d) + nsize f \<le> unat (maxHeaderBytes d)" using that assms by (simp add: admits_all_def)
    moreover have "unat (maxHeaderBytes d) < 2 ^ 32" using unsigned_less [of "maxHeaderBytes d", where 'a = nat] by simp
    ultimately show ?thesis by (simp add: unat_plus_if' unat_Size)
  qed
  with assms show "admits_all ((emits (d\<lparr>dynTab := dt\<rparr>) f)\<lparr>firstField := v\<rparr>) fs"
    by (auto simp: admits_all_def emits_def)
qed

lemma sent_decoded:
  assumes "in_sync e d" and "\<not> tableSizeUpdate e" and "emitEnabled d" and "admits_all d fs" and "sent e fs = (e', bs)"
  shows "\<exists>d'. Write_loop n (d\<lparr>dbuf := bs\<rparr>) = (d', n, None) \<and> dbuf d' = [] \<and>
    in_sync e' d' \<and> emitted d' = emitted d @ fs \<and> saveBuf d' = saveBuf d"
  using assms
proof (induction fs arbitrary: e d bs)
  case Nil
  then have "e' = e" "bs = []" by simp_all
  with Nil show ?case
    by (auto simp: Write_loop_spec intro!: in_sync_frame [OF Nil.prems(1)])
next
  case (Cons f fs)
  let ?e = "e\<lparr>ebuf := []\<rparr>"
  let ?e1 = "encodeField ?e f"
  have e1: "WriteField acceptAll e f = (?e1, None)"
    using Cons.prems(2) by (simp add: WriteField_acceptAll flushSizeUpdate_def)
  obtain bs2 where s2: "sent ?e1 fs = (e', bs2)" "bs = ebuf ?e1 @ bs2"
    using Cons.prems(5) e1 by (auto split: prod.splits)
  have "in_sync ?e d" by (rule in_sync_frame [OF Cons.prems(1)]) simp_all
  from encodeField_roundtrip [OF this admits_all_Cons(1) [OF Cons.prems(4)] Cons.prems(3)]
  obtain b1 dt where b1: "ebuf ?e1 = b1" "b1 \<noteq> []" "in_sync ?e1 (emits (d\<lparr>dynTab := dt\<rparr>) f)"
      "\<And>rest. parseHeaderFieldRepr (d\<lparr>dbuf := b1 @ rest\<rparr>) = ((emits (d\<lparr>dynTab := dt\<rparr>) f)\<lparr>dbuf := rest\<rparr>, None)"
    by auto
  let ?d1 = "(emits (d\<lparr>dynTab := dt\<rparr>) f)\<lparr>firstField := False\<rparr>"
  have "Write_loop n (d\<lparr>dbuf := bs\<rparr>) = Write_loop n (?d1\<lparr>dbuf := bs2\<rparr>)"
    unfolding s2(2) b1(1) by (subst Write_loop_spec) (simp add: b1(2,4) dbuf_firstField_swap)
  moreover have "in_sync ?e1 ?d1" by (rule in_sync_frame [OF b1(3)]) simp_all
  moreover have "\<not> tableSizeUpdate ?e1" using Cons.prems(2) by (simp add: encodeField_sizeUpdate)
  moreover have "emitEnabled ?d1" "emitted ?d1 = emitted d @ [f]" "saveBuf ?d1 = saveBuf d"
    using Cons.prems(3) by (simp_all add: emits_def)
  moreover obtain d' where "Write_loop n (?d1\<lparr>dbuf := bs2\<rparr>) = (d', n, None)" "dbuf d' = []" "in_sync e' d'"
      "emitted d' = emitted ?d1 @ fs" "saveBuf d' = saveBuf ?d1"
    using Cons.IH [OF calculation(2,3,4) admits_all_Cons(2) [OF Cons.prems(4)] s2(1)] by blast
  ultimately show ?case by (intro exI [of _ d']) simp
qed

lemma in_sync_New: "in_sync NewEncoder (NewDecoder 4096)" "allowedMaxSize (dynTab (NewDecoder 4096)) = 4096"
proof -
  have inv: "dt_inv (emptyDynamicTable\<lparr>dtTable := table_init emptyTable\<rparr>)"
      "dt_inv (emptyDynamicTable\<lparr>dtTable := table_init emptyTable, allowedMaxSize := 4096\<rparr>)"
    by (simp_all add: dt_inv_def dt_sized_def emptyDynamicTable_def table_init_def emptyTable_def table_inv_def)
  show "in_sync NewEncoder (NewDecoder 4096)" "allowedMaxSize (dynTab (NewDecoder 4096)) = 4096"
    using setMaxSize_correct [OF inv(1), of 4096] setMaxSize_correct [OF inv(2), of 4096]
    by (simp_all add: in_sync_def dec_inv_def NewEncoder_def NewDecoder_def maxHeaderFieldSize_def initialHeaderTableSize_def)
qed

lemma dt_add_New:
  assumes "nsize f \<le> 4096"
  shows "allowedMaxSize (dt_add (dynTab (NewDecoder 4096)) f) = 4096" "ents (dtTable (dt_add (dynTab (NewDecoder 4096)) f)) = [f]"
proof -
  have inv: "dt_inv (emptyDynamicTable\<lparr>dtTable := table_init emptyTable, allowedMaxSize := 4096\<rparr>)"
    by (simp add: dt_inv_def dt_sized_def emptyDynamicTable_def table_init_def emptyTable_def table_inv_def)
  define dt where "dt = dynTab (NewDecoder 4096)"
  have "dt = setMaxSize (emptyDynamicTable\<lparr>dtTable := table_init emptyTable, allowedMaxSize := 4096\<rparr>) 4096"
    by (simp add: NewDecoder_def dt_def)
  then have dt: "dt_inv dt" "ents (dtTable dt) = []" "dtMaxSize dt = 4096" "allowedMaxSize dt = 4096"
    using setMaxSize_correct [OF inv, of 4096] by (simp_all add: emptyDynamicTable_def table_init_def emptyTable_def)
  then have "unat (dtSize dt) = 0" by (simp add: dt_inv_def dt_sized_def)
  then show "allowedMaxSize (dt_add (dynTab (NewDecoder 4096)) f) = 4096" "ents (dtTable (dt_add (dynTab (NewDecoder 4096)) f)) = [f]"
    using dt_add_correct [OF dt(1), of f] dt(2-) assms unfolding dt_def [symmetric] by simp_all
qed

lemma New_simps:
  "minSize NewEncoder = uint32Max" "maxSizeLimit NewEncoder = 4096" "tableSizeUpdate NewEncoder = False"
  "emitEnabled (NewDecoder m)" "saveBuf (NewDecoder m) = []" "firstField (NewDecoder m)"
  "maxStrLen (NewDecoder m) = maxHeaderFieldSize" "maxHeaderBytes (NewDecoder m) = maxHeaderBlockSize"
  "headerBytes (NewDecoder m) = 0"
  by (simp_all add: NewEncoder_def NewDecoder_def initialHeaderTableSize_def)

lemmas New_limits = in_sync_New(2) New_simps admits_all_def maxHeaderFieldSize_def maxHeaderBlockSize_def nsize_def

section \<open>Table size updates\<close>

lemma size_update_dispatch:
  assumes "hd (dbuf d) AND 0xE0 = 0x20"
  shows "parseHeaderFieldRepr d = parseDynamicTableSizeUpdate d"
proof -
  let ?b = "hd (dbuf d)"
  have "?b AND 0x80 = (?b AND 0xE0) AND 0x80" "?b AND 0xC0 = (?b AND 0xE0) AND 0xC0" "?b AND 0xE0 = (?b AND 0xF0) AND 0xE0"
    by (simp_all add: and.assoc)
  then have "?b AND 0x80 = 0" "?b AND 0xC0 = 0" "?b AND 0xF0 \<noteq> 0" "?b AND 0xF0 \<noteq> 0x10" using assms by auto
  then show ?thesis using assms by (simp add: parseHeaderFieldRepr_def Let_def)
qed

lemma parse_size_update:
  assumes "hd (dbuf d) AND 0xE0 = 0x20" and "firstField d \<or> dtSize (dynTab d) = 0"
    and "readVarInt 5 (dbuf d) = (ucast v, rest, None)" and "v \<le> allowedMaxSize (dynTab d)"
  shows "parseHeaderFieldRepr d = (d\<lparr>dynTab := setMaxSize (dynTab d) v, dbuf := rest\<rparr>, None)"
proof -
  have "\<not> (ucast v :: u64) > ucast (allowedMaxSize (dynTab d))"
    using assms(4) by (simp add: word_le_nat_alt word_less_nat_alt unat_ucast_up not_less)
  moreover have "(ucast (ucast v :: u64) :: u32) = v" by (rule bit_word_eqI) (auto simp: bit_simps)
  ultimately show ?thesis
    using assms by (auto simp: size_update_dispatch parseDynamicTableSizeUpdate_def)
qed

lemma tableSize_wire:
  "readVarInt 5 (appendTableSize [] v @ rest) = (ucast v, rest, None)"
  "hd (appendTableSize [] v @ rest) AND 0xE0 = 0x20"
proof -
  have "(ucast v :: u64) < 2 ^ 63"
    using unsigned_less [of v, where 'a = nat] by (simp add: word_less_nat_alt unat_ucast_up unat_exp)
  then show "readVarInt 5 (appendTableSize [] v @ rest) = (ucast v, rest, None)"
    unfolding append_simps by (simp add: varint_roundtrip_flag mask_eq_exp_minus_1)
  show "hd (appendTableSize [] v @ rest) AND 0xE0 = 0x20"
    using wire_flags(3) [of "0x20"] unfolding append_simps by (simp add: hd_append mask_eq_exp_minus_1)
qed

lemma flush_one_update:
  assumes "minSize e = uint32Max" and "v \<le> maxSizeLimit e" and "dt_inv (edynTab e)"
  shows "flushSizeUpdate ((enc_SetMaxDynamicTableSize e v)\<lparr>ebuf := []\<rparr>) =
    e\<lparr>edynTab := setMaxSize (edynTab e) v, ebuf := appendTableSize [] v, minSize := uint32Max, tableSizeUpdate := False\<rparr>"
proof -
  have max: "x \<le> uint32Max" for x by (simp add: uint32Max_def)
  have "(uint32Max < x) = False" "v < uint32Max \<or> v = uint32Max" for x using max by (auto simp: not_less le_less)
  then show ?thesis
    using assms(1,2) setMaxSize_correct(3) [OF assms(3), of v]
    by (cases e) (auto simp: flushSizeUpdate_def enc_SetMaxDynamicTableSize_def Let_def)
qed

lemma flush_two_updates:
  assumes "minSize e = uint32Max" and "v < w" and "w \<le> maxSizeLimit e" and "dt_inv (edynTab e)"
  shows "ebuf (flushSizeUpdate ((enc_SetMaxDynamicTableSize (enc_SetMaxDynamicTableSize e v) w)\<lparr>ebuf := []\<rparr>)) =
    appendTableSize [] v @ appendTableSize [] w"
proof -
  have "x \<le> uint32Max" for x by (simp add: uint32Max_def)
  moreover have "v < uint32Max" using assms(2) calculation [of w] by (rule less_le_trans)
  moreover have "\<not> v > maxSizeLimit e" "\<not> w > maxSizeLimit e" "\<not> w < v" using assms(2,3) by simp_all
  ultimately show ?thesis
    using assms setMaxSize_correct(3) [OF setMaxSize_correct(1) [OF assms(4)], of v w]
    by (simp add: flushSizeUpdate_def enc_SetMaxDynamicTableSize_def Let_def append_simps(4))
qed

lemma sent_two_updates:
  assumes "minSize e = uint32Max" and "v < w" and "w \<le> maxSizeLimit e" and "dt_inv (edynTab e)"
  shows "\<exists>bs. snd (sent (enc_SetMaxDynamicTableSize (enc_SetMaxDynamicTableSize e v) w) (f # fs)) =
    appendTableSize [] v @ appendTableSize [] w @ bs"
proof -
  have "\<exists>bs. ebuf (encodeField x f) = ebuf x @ bs" for x
    by (auto simp: encodeField_def append_simps Let_def split: prod.splits)
  from this [of "flushSizeUpdate ((enc_SetMaxDynamicTableSize (enc_SetMaxDynamicTableSize e v) w)\<lparr>ebuf := []\<rparr>)"]
  show ?thesis unfolding flush_two_updates [OF assms] by (auto simp: WriteField_acceptAll case_prod_beta)
qed

lemma entries_size_pos: "es \<noteq> [] \<Longrightarrow> 0 < entries_size es"
  by (cases es) (simp_all add: nsize_def)

lemma in_sync_setMaxSize:
  assumes "in_sync e d" and "v \<le> allowedMaxSize (dynTab d)"
  shows "in_sync (e\<lparr>edynTab := setMaxSize (edynTab e) v\<rparr>) (d\<lparr>dynTab := setMaxSize (dynTab d) v\<rparr>)"
  using assms setMaxSize_correct [of "edynTab e" v] setMaxSize_correct [of "dynTab d" v]
  by (auto simp: in_sync_def dec_inv_def intro: order_trans)

lemma Write_loop_size_update:
  assumes "firstField d \<or> dtSize (dynTab d) = 0" and "v \<le> allowedMaxSize (dynTab d)"
  shows "Write_loop n (d\<lparr>dbuf := appendTableSize [] v @ rest\<rparr>) =
    Write_loop n (d\<lparr>dynTab := setMaxSize (dynTab d) v, firstField := False, dbuf := rest\<rparr>)"
proof -
  have "parseHeaderFieldRepr (d\<lparr>dbuf := appendTableSize [] v @ rest\<rparr>) =
      (d\<lparr>dynTab := setMaxSize (dynTab d) v, dbuf := rest\<rparr>, None)"
    using parse_size_update [of "d\<lparr>dbuf := appendTableSize [] v @ rest\<rparr>" v rest] assms
    by (simp add: dbuf_dynTab_swap tableSize_wire)
  moreover have "appendTableSize [] v \<noteq> []" by (simp add: append_simps)
  ultimately show ?thesis by (subst Write_loop_spec) (simp add: dbuf_firstField_swap)
qed

lemma size_update_late:
  assumes "\<not> firstField d" and "dtSize (dynTab d) > 0"
  shows "\<exists>d'. Write_loop n (d\<lparr>dbuf := appendTableSize [] v @ rest\<rparr>) = (d', n, Some (ErrSizeUpdatePosition (dtSize (dynTab d))))"
proof -
  let ?d = "d\<lparr>dbuf := appendTableSize [] v @ rest\<rparr>"
  have "parseHeaderFieldRepr ?d = parseDynamicTableSizeUpdate ?d"
    using size_update_dispatch [of ?d] tableSize_wire(2) [of v rest] by simp
  also have "\<dots> = (?d, Some (ErrSizeUpdatePosition (dtSize (dynTab d))))"
    using assms by (simp add: parseDynamicTableSizeUpdate_def)
  finally show ?thesis
    by (subst Write_loop_spec) (simp add: append_simps)
qed

lemma sent_after_update:
  assumes sync: "in_sync e d" and min: "minSize e = uint32Max" and en: "emitEnabled d" and ok: "admits_all d (f # fs)"
    and first: "firstField d" and lim: "v \<le> maxSizeLimit e" "v \<le> allowedMaxSize (dynTab d)"
    and s: "sent (enc_SetMaxDynamicTableSize e v) (f # fs) = (e', bs)"
  shows "\<exists>d'. Write_loop n (d\<lparr>dbuf := bs\<rparr>) = (d', n, None) \<and>
    in_sync e' d' \<and> emitted d' = emitted d @ f # fs \<and> saveBuf d' = saveBuf d"
proof -
  define e0 where "e0 = e\<lparr>edynTab := setMaxSize (edynTab e) v, ebuf := appendTableSize [] v, minSize := uint32Max, tableSizeUpdate := False\<rparr>"
  define d0 where "d0 = d\<lparr>dynTab := setMaxSize (dynTab d) v, firstField := False\<rparr>"
  let ?e1 = "encodeField e0 f"
  have "dt_inv (edynTab e)" using sync by (simp add: in_sync_def)
  then have w: "WriteField acceptAll (enc_SetMaxDynamicTableSize e v) f = (?e1, None)"
    using flush_one_update [OF min lim(1)] by (simp add: WriteField_acceptAll e0_def)
  obtain b2 where s2: "sent ?e1 fs = (e', b2)" "bs = ebuf ?e1 @ b2" using s w by (auto split: prod.splits)
  have sync0: "in_sync e0 d0"
    by (rule in_sync_frame [OF in_sync_setMaxSize [OF sync lim(2)]]) (simp_all add: e0_def d0_def)
  have ok0: "admits d0 f" using admits_all_Cons(1) [OF ok] by (simp add: d0_def admits_def)
  have en0: "emitEnabled d0" using en by (simp add: d0_def)
  from encodeField_roundtrip [OF sync0 ok0 en0]
  obtain b1 dt where b1: "ebuf ?e1 = appendTableSize [] v @ b1" "b1 \<noteq> []" "in_sync ?e1 (emits (d0\<lparr>dynTab := dt\<rparr>) f)"
      "\<And>rest. parseHeaderFieldRepr (d0\<lparr>dbuf := b1 @ rest\<rparr>) = ((emits (d0\<lparr>dynTab := dt\<rparr>) f)\<lparr>dbuf := rest\<rparr>, None)"
    by (auto simp: e0_def)
  let ?d1 = "(emits (d0\<lparr>dynTab := dt\<rparr>) f)\<lparr>firstField := False\<rparr>"
  have "Write_loop n (d\<lparr>dbuf := bs\<rparr>) = Write_loop n (d0\<lparr>dbuf := b1 @ b2\<rparr>)"
    using Write_loop_size_update [of d v n "b1 @ b2"] first lim(2) by (simp add: s2(2) b1(1) d0_def)
  also have "\<dots> = Write_loop n (?d1\<lparr>dbuf := b2\<rparr>)"
    by (subst Write_loop_spec) (simp add: b1(2,4) dbuf_firstField_swap)
  finally have loop: "Write_loop n (d\<lparr>dbuf := bs\<rparr>) = Write_loop n (?d1\<lparr>dbuf := b2\<rparr>)" .
  have sync1: "in_sync ?e1 ?d1" by (rule in_sync_frame [OF b1(3)]) simp_all
  have "\<not> tableSizeUpdate ?e1" by (simp add: encodeField_sizeUpdate e0_def)
  moreover have d1: "emitEnabled ?d1" "emitted ?d1 = emitted d @ [f]" "saveBuf ?d1 = saveBuf d"
    using en by (simp_all add: emits_def d0_def)
  moreover have "admits_all d0 (f # fs)" using ok by (simp add: d0_def admits_all_def)
  ultimately show ?thesis
    using sent_decoded [OF sync1 _ _ admits_all_Cons(2) s2(1), of n] loop by fastforce
qed

section \<open>Properties\<close>

text \<open>
  C1: A decoder in step with the encoder decodes the header block the encoder writes for a list of
  fields into exactly this list, in order and with the sensitive flags, as long as the decoder's
  limits admit the fields; afterwards the two are in step again, so the next block decodes too.
\<close>

theorem encoder_decoder_roundtrip:
  assumes "in_sync e d" and "\<not> tableSizeUpdate e" and "emitEnabled d" and "saveBuf d = []" and "admits_all d fs"
  shows "snd (DecodeFull d (snd (sent e fs))) = Inr fs \<and>
    in_sync (fst (sent e fs)) (fst (DecodeFull d (snd (sent e fs)))) \<and> \<not> tableSizeUpdate (fst (sent e fs))"
proof -
  obtain e' bs where s: "sent e fs = (e', bs)" by fastforce
  have "\<not> tableSizeUpdate e'" using sent_no_update [OF assms(2), of fs] s by simp
  moreover have "in_sync e (d\<lparr>emitted := []\<rparr>)" by (rule in_sync_frame [OF assms(1)]) simp_all
  then obtain d' where w: "Write_loop (length bs) (d\<lparr>emitted := [], dbuf := bs\<rparr>) = (d', length bs, None)" "in_sync e' d'"
      "emitted d' = fs" "saveBuf d' = []"
    using sent_decoded [of e "d\<lparr>emitted := []\<rparr>" fs e' bs "length bs"] assms s by (auto simp: admits_all_def)
  have nil: "fs = [] \<and> e' = e" if "bs = []" using w(1,3) s that by (cases fs) (auto simp: Write_loop_spec)
  ultimately show ?thesis
    using s w(3,4) assms(4)
    by (auto simp: DecodeFull_def Write_def Close_def w(1) intro: in_sync_frame [OF w(2)] in_sync_frame [OF assms(1)])
qed

theorem encoder_decoder_roundtrip_witness:
  "let fs = [\<lparr>Name = s2b '':path'', Value = s2b ''/a'', Sensitive = False\<rparr>,
      \<lparr>Name = s2b ''x-token'', Value = s2b ''secret'', Sensitive = True\<rparr>,
      \<lparr>Name = s2b '':path'', Value = s2b ''/a'', Sensitive = False\<rparr>]
   in snd (DecodeFull (NewDecoder 4096) (snd (sent NewEncoder fs))) = Inr fs"
  using encoder_decoder_roundtrip [OF in_sync_New(1), of
      "[\<lparr>Name = s2b '':path'', Value = s2b ''/a'', Sensitive = False\<rparr>,
      \<lparr>Name = s2b ''x-token'', Value = s2b ''secret'', Sensitive = True\<rparr>,
      \<lparr>Name = s2b '':path'', Value = s2b ''/a'', Sensitive = False\<rparr>]"]
  by (simp add: New_limits s2b_def del: sent.simps)

text \<open>
  A change of the encoder's table size reaches the decoder: after one
  \<open>SetMaxDynamicTableSize\<close> within both limits, the next block carries the size update before its
  first field, decodes into its fields, and leaves the tables in step at the new size.
\<close>

theorem size_update_roundtrip:
  assumes "in_sync e d" and "minSize e = uint32Max" and "emitEnabled d" and "saveBuf d = []" and "firstField d"
    and "admits_all d (f # fs)" and "v \<le> maxSizeLimit e" and "v \<le> allowedMaxSize (dynTab d)"
  shows "snd (DecodeFull d (snd (sent (enc_SetMaxDynamicTableSize e v) (f # fs)))) = Inr (f # fs) \<and>
    in_sync (fst (sent (enc_SetMaxDynamicTableSize e v) (f # fs)))
      (fst (DecodeFull d (snd (sent (enc_SetMaxDynamicTableSize e v) (f # fs)))))"
proof -
  obtain e' bs where s: "sent (enc_SetMaxDynamicTableSize e v) (f # fs) = (e', bs)" by fastforce
  have "in_sync e (d\<lparr>emitted := []\<rparr>)" by (rule in_sync_frame [OF assms(1)]) simp_all
  then obtain d' where w: "Write_loop (length bs) (d\<lparr>emitted := [], dbuf := bs\<rparr>) = (d', length bs, None)" "in_sync e' d'"
      "emitted d' = f # fs" "saveBuf d' = []"
    using sent_after_update [of e "d\<lparr>emitted := []\<rparr>" f fs v e' bs "length bs"] assms s by (auto simp: admits_all_def)
  have "bs \<noteq> []" using w(1,3) by (auto simp: Write_loop_spec)
  then show ?thesis
    using s w(3,4) assms(4)
    by (auto simp del: sent.simps simp: DecodeFull_def Write_def Close_def w(1) intro: in_sync_frame [OF w(2)])
qed

theorem size_update_roundtrip_witness:
  "snd (DecodeFull (NewDecoder 4096) (snd (sent (enc_SetMaxDynamicTableSize NewEncoder 100)
     [\<lparr>Name = s2b ''x-a'', Value = s2b ''1'', Sensitive = False\<rparr>]))) =
   Inr [\<lparr>Name = s2b ''x-a'', Value = s2b ''1'', Sensitive = False\<rparr>]"
  using size_update_roundtrip [OF in_sync_New(1), of "\<lparr>Name = s2b ''x-a'', Value = s2b ''1'', Sensitive = False\<rparr>" "[]" 100]
  by (simp add: New_limits s2b_def del: sent.simps)

text \<open>
  C37: Two changes of the table size between two blocks, the second one back up, are not
  understood by this package's own decoder: \<open>WriteField\<close> sends both updates, as RFC 7541 section 4.2
  asks for, but unless the first one empties the table the decoder takes the second one for an
  update in the middle of a block and rejects the block.
\<close>

theorem two_size_updates_rejected:
  assumes "in_sync e d" and "minSize e = uint32Max" and "firstField d" and "saveBuf d = []"
    and "v < w" and "w \<le> maxSizeLimit e" and "w \<le> allowedMaxSize (dynTab d)"
    and "fit (unat v) (ents (dtTable (dynTab d))) \<noteq> []"
  shows "\<exists>size. snd (DecodeFull d (snd (sent (enc_SetMaxDynamicTableSize (enc_SetMaxDynamicTableSize e v) w) (f # fs)))) =
    Inl (ErrSizeUpdatePosition size)"
proof -
  obtain bs where bs: "snd (sent (enc_SetMaxDynamicTableSize (enc_SetMaxDynamicTableSize e v) w) (f # fs)) =
      appendTableSize [] v @ appendTableSize [] w @ bs"
    using sent_two_updates [OF assms(2,5,6)] assms(1) unfolding in_sync_def by blast
  let ?d = "d\<lparr>emitted := [], dynTab := setMaxSize (dynTab d) v, firstField := False\<rparr>"
  have inv: "dt_inv (dynTab d)" using assms(1) by (simp add: in_sync_def dec_inv_def)
  have size: "dtSize (dynTab ?d) > 0"
    using setMaxSize_correct [OF inv, of v] assms(8) entries_size_pos by (simp add: dt_inv_def dt_sized_def word_less_nat_alt)
  have "v \<le> allowedMaxSize (dynTab d)" using assms(5,7) by simp
  then have "Write_loop n (d\<lparr>emitted := [], dbuf := appendTableSize [] v @ appendTableSize [] w @ bs\<rparr>) =
      Write_loop n (?d\<lparr>dbuf := appendTableSize [] w @ bs\<rparr>)" for n
    using Write_loop_size_update [of "d\<lparr>emitted := []\<rparr>" v n "appendTableSize [] w @ bs"] assms(3) by simp
  then have "Write_loop n (d\<lparr>emitted := [], dbuf := appendTableSize [] v @ appendTableSize [] w @ bs\<rparr>) =
      (d', n, Some (ErrSizeUpdatePosition (dtSize (dynTab ?d))))"
    if "Write_loop n (?d\<lparr>dbuf := appendTableSize [] w @ bs\<rparr>) = (d', n, Some (ErrSizeUpdatePosition (dtSize (dynTab ?d))))" for n d'
    using that by simp
  moreover have "appendTableSize [] v \<noteq> []" by (simp add: append_simps)
  moreover obtain d' where "Write_loop (length (appendTableSize [] v @ appendTableSize [] w @ bs)) (?d\<lparr>dbuf := appendTableSize [] w @ bs\<rparr>) =
      (d', length (appendTableSize [] v @ appendTableSize [] w @ bs), Some (ErrSizeUpdatePosition (dtSize (dynTab ?d))))"
    using size_update_late [OF _ size, of _ w bs] by auto
  ultimately show ?thesis
    using assms(4) unfolding bs DecodeFull_def Write_def by simp
qed

theorem two_size_updates_rejected_witness:
  "let f = \<lparr>Name = s2b ''x-a'', Value = s2b ''1'', Sensitive = False\<rparr>;
       e = NewEncoder\<lparr>edynTab := dt_add (edynTab NewEncoder) f\<rparr>;
       d = (NewDecoder 4096)\<lparr>dynTab := dt_add (dynTab (NewDecoder 4096)) f\<rparr>
   in \<exists>size. snd (DecodeFull d (snd (sent (enc_SetMaxDynamicTableSize (enc_SetMaxDynamicTableSize e 100) 200) [f]))) =
     Inl (ErrSizeUpdatePosition size)"
proof -
  let ?f = "\<lparr>Name = s2b ''x-a'', Value = s2b ''1'', Sensitive = False\<rparr>"
  have "in_sync (NewEncoder\<lparr>edynTab := dt_add (edynTab NewEncoder) ?f\<rparr>)
      ((NewDecoder 4096)\<lparr>dynTab := dt_add (dynTab (NewDecoder 4096)) ?f\<rparr>)"
    by (rule in_sync_add [OF in_sync_New(1)]) (simp add: nsize_def s2b_def)
  moreover have "allowedMaxSize (dt_add (dynTab (NewDecoder 4096)) ?f) = 4096"
    "fit 100 (ents (dtTable (dt_add (dynTab (NewDecoder 4096)) ?f))) \<noteq> []"
    by (simp_all add: dt_add_New nsize_def s2b_def)
  ultimately show ?thesis
    using two_size_updates_rejected [of "NewEncoder\<lparr>edynTab := dt_add (edynTab NewEncoder) ?f\<rparr>"
      "(NewDecoder 4096)\<lparr>dynTab := dt_add (dynTab (NewDecoder 4096)) ?f\<rparr>" 100 200 ?f "[]"]
    by (simp add: New_simps Let_def del: sent.simps)
qed

text \<open>
  Whatever limits a \<open>DecoderPool\<close> was made with, and whatever decoder it takes from the pool,
  \<open>Get\<close> hands out a decoder with the package's default limits on strings and header lists: the
  \<open>Reset\<close> it calls overwrites the configured ones. Nothing of an earlier block is left in it.
\<close>

theorem pool_Get_limits:
  "maxStrLen (snd (pool_Get p)) = maxHeaderFieldSize \<and> maxHeaderBytes (snd (pool_Get p)) = maxHeaderBlockSize \<and>
   saveBuf (snd (pool_Get p)) = [] \<and> headerBytes (snd (pool_Get p)) = 0 \<and> firstField (snd (pool_Get p)) \<and>
   emitted (snd (pool_Get p)) = []"
  by (simp add: pool_Get_def Reset_def Let_def split: list.splits)

end
