(* ===== verification/Http_Lexical.thy ===== *)
theory Http_Lexical
  imports Prelude
begin

text \<open>
  The lexical helpers of the HTTP/1 parser (\<open>src/header.go\<close>, \<open>src/chunked.go\<close>): white space,
  tokens, case folding, comma lists, decimal and hexadecimal numbers, host fields. The lemmas give
  each scanning loop its reading as a predicate on the whole string. The locale \<open>positional\<close> is
  the contract of the two number parsers.
\<close>

abbreviation ch :: "char \<Rightarrow> byte" where
  "ch c \<equiv> of_char c"

text \<open>\<open>int(^uint(0) >> 1)\<close>\<close>

definition maxInt64 :: int where
  "maxInt64 = 2 ^ 63 - 1"

section \<open>White space\<close>

definition isOWS :: "byte \<Rightarrow> bool" where
  "isOWS c \<longleftrightarrow> c = ch CHR '' '' \<or> c = 9"

definition trimOWSRight :: "bytes \<Rightarrow> bytes" where
  "trimOWSRight b = rev (dropWhile isOWS (rev b))"

definition trimRight :: "bytes \<Rightarrow> bytes" where
  "trimRight b = rev (dropWhile (\<lambda>c. c = ch CHR '' '' \<or> c = 13 \<or> c = 9) (rev b))"

definition trimOWS :: "bytes \<Rightarrow> bytes" where
  "trimOWS b = trimRight (dropWhile isOWS b)"

section \<open>Tokens\<close>

definition forbiddenTokenByte :: "byte \<Rightarrow> bool" where
  "forbiddenTokenByte c \<longleftrightarrow> c \<in> set (s2b ''()<>@,;:'') \<or> c = 92 \<or> c = 34 \<or> c \<in> set (s2b ''/[]?={}'')"

definition tokenByte :: "byte \<Rightarrow> bool" where
  "tokenByte c \<longleftrightarrow> \<not> (c \<le> 0x20 \<or> c \<ge> 0x7f \<or> forbiddenTokenByte c)"

definition validToken :: "bytes \<Rightarrow> bool" where
  "validToken b \<longleftrightarrow> list_all tokenByte b \<and> length b > 0"

section \<open>Case folding\<close>

definition foldByte :: "byte \<Rightarrow> byte" where
  "foldByte c = (if c \<ge> ch CHR ''A'' \<and> c \<le> ch CHR ''Z'' then c OR 0x20 else c)"

fun strEqFold_loop :: "bytes \<Rightarrow> bytes \<Rightarrow> bool" where
  "strEqFold_loop (c # b) (d # s) = (if foldByte c \<noteq> foldByte d then False else strEqFold_loop b s)"
| "strEqFold_loop _ _ = True"

definition strEqFold :: "bytes \<Rightarrow> bytes \<Rightarrow> bool" where
  "strEqFold b s = (if length b \<noteq> length s then False else strEqFold_loop b s)"

fun bytesEqualFold_loop :: "bytes \<Rightarrow> bytes \<Rightarrow> bool" where
  "bytesEqualFold_loop (ca # a) (cb # b) =
     (if ca = cb then bytesEqualFold_loop a b
      else if foldByte ca \<noteq> foldByte cb then False
      else bytesEqualFold_loop a b)"
| "bytesEqualFold_loop _ _ = True"

definition bytesEqualFold :: "bytes \<Rightarrow> bytes \<Rightarrow> bool" where
  "bytesEqualFold a b = (if length a \<noteq> length b then False else bytesEqualFold_loop a b)"

text \<open>
  \<open>range\<close> over a string visits the first byte of every rune. \<open>runeWidth\<close> is the width the
  language gives the rune at the front of a string: 1 for ASCII and for an invalid sequence.
\<close>

definition isCont :: "byte \<Rightarrow> bool" where
  "isCont c \<longleftrightarrow> 0x80 \<le> c \<and> c \<le> 0xBF"

definition runeWidth :: "bytes \<Rightarrow> nat" where
  "runeWidth s =
     (case s of
        a # b # rest \<Rightarrow>
          if 0xC2 \<le> a \<and> a \<le> 0xDF \<and> isCont b then 2
          else (case rest of
             [] \<Rightarrow> 1
           | c # rest' \<Rightarrow>
               if isCont c \<and> ((a = 0xE0 \<and> 0xA0 \<le> b \<and> b \<le> 0xBF) \<or> (0xE1 \<le> a \<and> a \<le> 0xEF \<and> a \<noteq> 0xED \<and> isCont b)
                   \<or> (a = 0xED \<and> 0x80 \<le> b \<and> b \<le> 0x9F)) then 3
               else (case rest' of
                  [] \<Rightarrow> 1
                | d # _ \<Rightarrow>
                    if isCont c \<and> isCont d \<and> ((a = 0xF0 \<and> 0x90 \<le> b \<and> b \<le> 0xBF) \<or> (0xF1 \<le> a \<and> a \<le> 0xF3 \<and> isCont b)
                        \<or> (a = 0xF4 \<and> 0x80 \<le> b \<and> b \<le> 0x8F)) then 4
                    else 1))
      | _ \<Rightarrow> 1)"

lemma runeWidth_pos: "0 < runeWidth s"
  by (simp add: runeWidth_def split: list.splits)

function strBytesEqualFold_loop :: "bytes \<Rightarrow> bytes \<Rightarrow> bool" where
  "strBytesEqualFold_loop a b =
     (if a = [] then True
      else if hd a = hd b then strBytesEqualFold_loop (drop (runeWidth a) a) (drop (runeWidth a) b)
      else if foldByte (hd a) \<noteq> foldByte (hd b) then False
      else strBytesEqualFold_loop (drop (runeWidth a) a) (drop (runeWidth a) b))"
  by pat_completeness auto
termination
  by (relation "measure (\<lambda>(a, b). length a)") (auto simp: runeWidth_pos)

declare strBytesEqualFold_loop.simps [simp del]

definition strBytesEqualFold :: "bytes \<Rightarrow> bytes \<Rightarrow> bool" where
  "strBytesEqualFold a b = (if length a \<noteq> length b then False else strBytesEqualFold_loop a b)"

text \<open>
  \<open>bytes.EqualFold\<close> and \<open>strings.EqualFold\<close>: ASCII letters byte by byte; from the first non-ASCII
  byte on, \<open>uni\<close> compares the rest under Unicode folding.
\<close>

fun EqualFold :: "(bytes \<Rightarrow> bytes \<Rightarrow> bool) \<Rightarrow> bytes \<Rightarrow> bytes \<Rightarrow> bool" where
  "EqualFold uni (c # s) (d # t) =
     (if c \<ge> 0x80 \<or> d \<ge> 0x80 then uni (c # s) (d # t)
      else if c = d then EqualFold uni s t
      else if (c \<ge> ch CHR ''A'' \<and> c \<le> ch CHR ''Z'' \<and> d = c + 32) \<or> (d \<ge> ch CHR ''A'' \<and> d \<le> ch CHR ''Z'' \<and> c = d + 32)
      then EqualFold uni s t
      else False)"
| "EqualFold uni s t \<longleftrightarrow> s = [] \<and> t = []"

section \<open>Lower-case comparison by bit\<close>

fun lowerN :: "bytes \<Rightarrow> bytes \<Rightarrow> bool" where
  "lowerN b [] = True"
| "lowerN b (c # s) = (if (hd b OR 0x20) \<noteq> c then False else lowerN (tl b) s)"

definition lower4 :: "bytes \<Rightarrow> byte \<Rightarrow> byte \<Rightarrow> byte \<Rightarrow> byte \<Rightarrow> bool" where
  "lower4 b a c d e \<longleftrightarrow> b ! 0 OR 0x20 = a \<and> b ! 1 OR 0x20 = c \<and> b ! 2 OR 0x20 = d \<and> b ! 3 OR 0x20 = e"

definition lower5 :: "bytes \<Rightarrow> byte \<Rightarrow> byte \<Rightarrow> byte \<Rightarrow> byte \<Rightarrow> byte \<Rightarrow> bool" where
  "lower5 b a c d e f \<longleftrightarrow> b ! 0 OR 0x20 = a \<and> b ! 1 OR 0x20 = c \<and> b ! 2 OR 0x20 = d \<and> b ! 3 OR 0x20 = e \<and> b ! 4 OR 0x20 = f"

definition methodIs :: "bytes \<Rightarrow> byte \<Rightarrow> bytes \<Rightarrow> bool" where
  "methodIs m a rest =
     (if length m \<noteq> 1 + length rest then False
      else if hd m \<noteq> a then False
      else list_all2 (=) (tl m) rest)"

section \<open>Comma lists\<close>

function hasHeaderToken :: "bytes \<Rightarrow> bytes \<Rightarrow> bool" where
  "hasHeaderToken value token =
     (if value = [] then False
      else let (part, rest) = (case indexByte value (ch CHR '','') of
                 None \<Rightarrow> (value, [])
               | Some e \<Rightarrow> (take e value, drop (e + 1) value))
           in if strEqFold (trimRight (dropWhile isOWS part)) token then True
              else hasHeaderToken rest token)"
  by pat_completeness auto
termination
  by (relation "measure (\<lambda>(v, t). length v)") (auto split: option.splits dest: indexByte_less)

declare hasHeaderToken.simps [simp del]

text \<open>
  \<open>parseTransferCoding\<close>: the loop over the positions, the bytes since \<open>start\<close> in \<open>part\<close>. The
  result is (chunked, ok).
\<close>

definition tokenPart :: "bytes \<Rightarrow> bool" where
  "tokenPart part \<longleftrightarrow> \<not> (length part = 0) \<and> list_all tokenByte part"

fun parseTransferCoding_loop :: "bytes \<Rightarrow> bytes \<Rightarrow> nat \<Rightarrow> bool \<Rightarrow> (nat \<times> bool) option" where
  "parseTransferCoding_loop [] part count sole =
     (let part = trimOWS part
      in if \<not> tokenPart part then None else Some (count + 1, strEqFold part (s2b ''chunked'')))"
| "parseTransferCoding_loop (c # val) part count sole =
     (if c = ch CHR '','' then
        let part = trimOWS part
        in if \<not> tokenPart part then None
           else parseTransferCoding_loop val [] (count + 1) (strEqFold part (s2b ''chunked''))
      else parseTransferCoding_loop val (part @ [c]) count sole)"

definition parseTransferCoding :: "bytes \<Rightarrow> bool \<times> bool" where
  "parseTransferCoding val =
     (case parseTransferCoding_loop val [] 0 False of
        None \<Rightarrow> (False, False)
      | Some (count, soleChunked) \<Rightarrow>
          if count = 0 then (False, False)
          else if count = 1 \<and> soleChunked then (True, True)
          else (False, True))"

section \<open>Numbers\<close>

text \<open>\<open>c >= '0' && c <= '9'\<close>\<close>

definition decDigit :: "byte \<Rightarrow> int option" where
  "decDigit c = (if c < ch CHR ''0'' \<or> c > ch CHR ''9'' then None else Some (uint (c - ch CHR ''0'')))"

fun parseContentLength_loop :: "bytes \<Rightarrow> int \<Rightarrow> int option" where
  "parseContentLength_loop [] n = Some n"
| "parseContentLength_loop (c # b) n =
     (case decDigit c of
        None \<Rightarrow> None
      | Some d \<Rightarrow> if n > (maxInt64 - d) div 10 then None else parseContentLength_loop b (n * 10 + d))"

definition parseContentLength :: "bytes \<Rightarrow> int option" where
  "parseContentLength b = (if length b = 0 then None else parseContentLength_loop b 0)"

definition hexDigit :: "byte \<Rightarrow> int option" where
  "hexDigit c =
     (if c \<ge> ch CHR ''0'' \<and> c \<le> ch CHR ''9'' then Some (uint (c - ch CHR ''0''))
      else if c \<ge> ch CHR ''a'' \<and> c \<le> ch CHR ''f'' then Some (uint (c - ch CHR ''a'') + 10)
      else if c \<ge> ch CHR ''A'' \<and> c \<le> ch CHR ''F'' then Some (uint (c - ch CHR ''A'') + 10)
      else None)"

fun parseHex_loop :: "bytes \<Rightarrow> int \<Rightarrow> int option" where
  "parseHex_loop [] n = Some n"
| "parseHex_loop (c # b) n =
     (case hexDigit c of
        None \<Rightarrow> None
      | Some d \<Rightarrow> if n > (maxInt64 - d) div 16 then None else parseHex_loop b (n * 16 + d))"

definition parseHex :: "bytes \<Rightarrow> int option" where
  "parseHex b = (if length b = 0 then None else parseHex_loop b 0)"

fun validPort_loop :: "bytes \<Rightarrow> int \<Rightarrow> int option" where
  "validPort_loop [] n = Some n"
| "validPort_loop (c # port) n =
     (case decDigit c of None \<Rightarrow> None | Some d \<Rightarrow> validPort_loop port (n * 10 + d))"

definition validPort :: "bytes \<Rightarrow> bool" where
  "validPort port =
     (if length port = 0 \<or> length port > 5 then False
      else case validPort_loop port 0 of None \<Rightarrow> False | Some n \<Rightarrow> n \<le> 65535)"

section \<open>Host fields\<close>

definition hostByte :: "byte \<Rightarrow> bool" where
  "hostByte c \<longleftrightarrow> \<not> (c \<in> set (s2b '' ,/@#?'') \<or> c = 9 \<or> c = 92) \<and> \<not> (c < 0x21 \<or> c = 0x7f)"

definition validHostField :: "bytes \<Rightarrow> bool" where
  "validHostField host =
     (if length host = 0 \<or> length host > 255 then False
      else if \<not> list_all hostByte host then False
      else if hd host = ch CHR ''['' then
        (case indexByte host (ch CHR '']'') of
           None \<Rightarrow> False
         | Some close \<Rightarrow>
             if close \<le> 1 then False
             else let rest = drop (close + 1) host
                  in length rest = 0 \<or> (length rest > 1 \<and> hd rest = ch CHR '':'' \<and> validPort (drop 1 rest)))
      else if ch CHR ''['' \<in> set host \<or> ch CHR '']'' \<in> set host \<or> length (filter ((=) (ch CHR '':'')) host) > 1 then False
      else (case last_index ((=) (ch CHR '':'')) host of
              None \<Rightarrow> True
            | Some colon \<Rightarrow> \<not> (colon = 0 \<or> \<not> validPort (drop (colon + 1) host))))"

section \<open>Bytes by exhaustion\<close>

definition all_bytes :: "byte list" where
  "all_bytes = map word_of_int [0..255]"

lemma byte_exhaust: "list_all P all_bytes \<Longrightarrow> P b"
proof -
  have "b = word_of_int (uint b)" by simp
  moreover have "uint b \<in> {0..255}" using uint_range_size [of b] by (simp add: word_size)
  ultimately have "b \<in> set all_bytes" unfolding all_bytes_def set_map set_upto by (rule image_eqI)
  then show "list_all P all_bytes \<Longrightarrow> P b" by (simp add: list_all_iff)
qed

section \<open>Case folding is one relation\<close>

lemma strEqFold_iff: "strEqFold b s \<longleftrightarrow> map foldByte b = map foldByte s"
proof -
  have "length b = length s \<Longrightarrow> strEqFold_loop b s \<longleftrightarrow> map foldByte b = map foldByte s"
    by (induction b s rule: strEqFold_loop.induct) simp_all
  then show ?thesis by (auto simp: strEqFold_def dest: map_eq_imp_length_eq)
qed

lemma bytesEqualFold_iff: "bytesEqualFold a b \<longleftrightarrow> map foldByte a = map foldByte b"
proof -
  have "length a = length b \<Longrightarrow> bytesEqualFold_loop a b \<longleftrightarrow> map foldByte a = map foldByte b"
    by (induction a b rule: bytesEqualFold_loop.induct) simp_all
  then show ?thesis by (auto simp: bytesEqualFold_def dest: map_eq_imp_length_eq)
qed

lemma runeWidth_ascii: "hd a < 0x80 \<Longrightarrow> runeWidth a = 1"
proof (cases a)
  case (Cons x xs)
  assume "hd a < 0x80"
  then have x: "unat x < 128" using Cons by (simp add: word_less_nat_alt)
  then have "\<not> 0xC2 \<le> x" "x \<noteq> 0xE0" "\<not> 0xE1 \<le> x" "x \<noteq> 0xED" "x \<noteq> 0xF0" "\<not> 0xF1 \<le> x" "x \<noteq> 0xF4"
    by (auto simp: word_le_nat_alt)
  then show ?thesis by (simp add: Cons runeWidth_def split: list.split)
qed (simp add: runeWidth_def)

lemma foldByte_less: "foldByte c < 0x80 \<longleftrightarrow> c < 0x80"
  by (rule byte_exhaust [of "\<lambda>c. (foldByte c < 0x80) = (c < 0x80)"]) code_simp

text \<open>On an ASCII right-hand side the walk over the runes of the left one compares every byte.\<close>

lemma strBytesEqualFold_iff:
  assumes "list_all (\<lambda>c. c < 0x80) b"
  shows "strBytesEqualFold a b \<longleftrightarrow> map foldByte a = map foldByte b"
proof -
  have "length a = length b \<Longrightarrow> strBytesEqualFold_loop a b \<longleftrightarrow> map foldByte a = map foldByte b"
    using assms
  proof (induction b arbitrary: a)
    case Nil
    then show ?case by (simp add: strBytesEqualFold_loop.simps)
  next
    case (Cons d b)
    then obtain c a' where a: "a = c # a'" by (cases a) auto
    show ?case
    proof (cases "foldByte c = foldByte d")
      case True
      then have "c < 0x80" using Cons.prems(2) foldByte_less [of c] foldByte_less [of d] by simp
      then have "runeWidth a = 1" using a by (simp add: runeWidth_ascii)
      with Cons True a show ?thesis by (subst strBytesEqualFold_loop.simps) auto
    next
      case False
      with a show ?thesis by (subst strBytesEqualFold_loop.simps) auto
    qed
  qed
  then show ?thesis by (auto simp: strBytesEqualFold_def dest: map_eq_imp_length_eq)
qed

lemma tokenByte_ascii: "tokenByte c \<Longrightarrow> c < 0x80"
  by (auto simp: tokenByte_def word_le_nat_alt word_less_nat_alt)

lemma validToken_ascii: "validToken b \<Longrightarrow> list_all (\<lambda>c. c < 0x80) b"
  by (auto simp: validToken_def list_all_iff tokenByte_ascii)

text \<open>Above the control characters, or-ing the case bit in is case folding.\<close>

definition lowerName :: "byte \<Rightarrow> bool" where
  "lowerName c \<longleftrightarrow> (97 \<le> c \<and> c \<le> 122) \<or> c = 45 \<or> c = 50"

lemma lower_bit_cases:
  "b > 0x20 \<longrightarrow> foldByte b = b OR 0x20 \<or> \<not> lowerName (b OR 0x20) \<and> \<not> lowerName (foldByte b)"
  by (rule byte_exhaust [of "\<lambda>b. b > 0x20 \<longrightarrow> foldByte b = b OR 0x20 \<or> \<not> lowerName (b OR 0x20) \<and> \<not> lowerName (foldByte b)"])
     code_simp

lemma lowerName_fold: "lowerName c \<longrightarrow> foldByte c = c"
  by (rule byte_exhaust [of "\<lambda>c. lowerName c \<longrightarrow> foldByte c = c"]) code_simp

lemma lower_bit: "b > 0x20 \<Longrightarrow> lowerName c \<Longrightarrow> b OR 0x20 = c \<longleftrightarrow> foldByte b = foldByte c"
  using lower_bit_cases [of b] lowerName_fold [of c] by metis

lemma lowerN_iff:
  assumes "length b = length s" and "list_all (\<lambda>c. c > 0x20) b" and "list_all lowerName s"
  shows "lowerN b s \<longleftrightarrow> strEqFold b s"
  using assms
proof (induction b s rule: list_induct2)
  case (Cons x xs y ys)
  then have "x OR 0x20 = y \<longleftrightarrow> foldByte x = foldByte y" using lower_bit [of x y] by simp
  with Cons show ?case by (auto simp: strEqFold_iff)
qed (simp add: strEqFold_def)

section \<open>Comma lists\<close>

fun split_on :: "byte \<Rightarrow> bytes \<Rightarrow> bytes list" where
  "split_on c [] = [[]]"
| "split_on c (x # xs) =
     (if x = c then [] # split_on c xs else (x # hd (split_on c xs)) # tl (split_on c xs))"

lemma split_on_nonempty [simp]: "split_on c xs \<noteq> []"
  by (induction xs) auto

lemma split_on_append: "c \<notin> set xs \<Longrightarrow> split_on c (xs @ ys) = (xs @ hd (split_on c ys)) # tl (split_on c ys)"
  by (induction xs) auto

lemma hasHeaderToken_iff:
  assumes "token \<noteq> []"
  shows "hasHeaderToken v token \<longleftrightarrow> (\<exists>p \<in> set (split_on (ch CHR '','') v). strEqFold (trimOWS p) token)"
proof (induction v rule: measure_induct_rule [of length])
  case (less v)
  have nil: "\<not> strEqFold (trimOWS []) token" using assms by (simp add: trimOWS_def trimRight_def strEqFold_def)
  show ?case
  proof (cases "indexByte v (ch CHR '','')")
    case None
    then have "ch CHR '','' \<notin> set v" by (simp add: indexByte_None_iff)
    then have "split_on (ch CHR '','') v = [v]" using split_on_append [of _ v "[]"] by simp
    with None nil show ?thesis
      by (cases "v = []") (simp_all add: hasHeaderToken.simps [of v] hasHeaderToken.simps [of "[]"] trimOWS_def)
  next
    case (Some e)
    then have v: "v = take e v @ ch CHR '','' # drop (Suc e) v" "ch CHR '','' \<notin> set (take e v)" "e < length v"
      using indexByte_split indexByte_SomeD by blast+
    then have sp: "split_on (ch CHR '','') v = take e v # split_on (ch CHR '','') (drop (Suc e) v)"
      using split_on_append [of "ch CHR '',''" "take e v" "ch CHR '','' # drop (Suc e) v"] by simp
    have "v \<noteq> []" using v(3) by auto
    with less [of "drop (Suc e) v"] v(3) Some sp show ?thesis
      by (subst hasHeaderToken.simps) (simp add: trimOWS_def)
  qed
qed

lemma parseTransferCoding_loop_eq:
  "parseTransferCoding_loop val part count sole =
     (let ps = map trimOWS ((part @ hd (split_on (ch CHR '','') val)) # tl (split_on (ch CHR '','') val))
      in if list_all tokenPart ps then Some (count + length ps, strEqFold (last ps) (s2b ''chunked'')) else None)"
proof (induction val part count sole rule: parseTransferCoding_loop.induct)
  case (2 c val part count sole)
  obtain y ys where "split_on (ch CHR '','') val = y # ys" by (cases "split_on (ch CHR '','') val") auto
  with 2 show ?case by (simp add: Let_def del: s2b_Cons)
qed (simp add: Let_def del: s2b_Cons)

lemma parseTransferCoding_eq:
  "parseTransferCoding val =
     (let ps = map trimOWS (split_on (ch CHR '','') val)
      in (list_all validToken ps \<and> length ps = 1 \<and> strEqFold (hd ps) (s2b ''chunked''), list_all validToken ps))"
proof -
  have tp: "tokenPart = validToken" by (auto simp: tokenPart_def validToken_def fun_eq_iff)
  obtain y ys where "split_on (ch CHR '','') val = y # ys" by (cases "split_on (ch CHR '','') val") auto
  then show ?thesis
    by (cases ys) (simp_all add: parseTransferCoding_def parseTransferCoding_loop_eq tp Let_def del: s2b_Cons)
qed

section \<open>Positional numbers\<close>

text \<open>
  The contract of the two number parsers: digits are read from the left and checked against the
  largest \<open>int\<close> before they are added.
\<close>

lemma int_div_less_iff: "0 < b \<Longrightarrow> (m :: int) div b < n \<longleftrightarrow> m < n * b"
proof
  assume b: "0 < b"
  have m: "b * (m div b) + m mod b = m" "m mod b < b" "0 \<le> m mod b" using b by simp_all
  show "m < n * b" if "m div b < n"
  proof -
    have "b * (m div b + 1) \<le> b * n" using b that by (intro mult_left_mono) simp_all
    then have "b * (m div b) + b \<le> n * b" by (simp add: distrib_left mult.commute)
    with m show ?thesis by linarith
  qed
  show "m div b < n" if "m < n * b"
  proof (rule ccontr)
    assume "\<not> m div b < n"
    then have "b * n \<le> b * (m div b)" using b by (intro mult_left_mono) simp_all
    then have "n * b \<le> b * (m div b)" by (simp add: mult.commute)
    with m that show False by linarith
  qed
qed

locale positional =
  fixes loop :: "bytes \<Rightarrow> int \<Rightarrow> int option" and digit :: "byte \<Rightarrow> int option" and base :: int
  assumes loop_Nil: "loop [] n = Some n"
    and loop_Cons: "loop (c # b) n =
      (case digit c of None \<Rightarrow> None | Some d \<Rightarrow> if n > (maxInt64 - d) div base then None else loop b (n * base + d))"
    and digit_range: "digit c = Some d \<Longrightarrow> 0 \<le> d \<and> d < base"
    and base: "1 < base" "base \<le> 16"
begin

text \<open>The number a string of digits denotes.\<close>

fun val :: "bytes \<Rightarrow> int \<Rightarrow> int option" where
  "val [] n = Some n"
| "val (c # b) n = (case digit c of None \<Rightarrow> None | Some d \<Rightarrow> val b (n * base + d))"

lemma val_mono: "val b n = Some v \<Longrightarrow> 0 \<le> n \<Longrightarrow> n \<le> v"
proof (induction b arbitrary: n)
  case (Cons c b)
  then obtain d where d: "digit c = Some d" "val b (n * base + d) = Some v" by (auto split: option.splits)
  have "0 \<le> d" using digit_range d(1) by blast
  moreover have "n * 1 \<le> n * base" using Cons.prems(2) base(1) by (intro mult_left_mono) simp_all
  ultimately show ?case using Cons.IH [OF d(2)] Cons.prems(2) by simp
qed simp

lemma check_iff: "0 \<le> d \<Longrightarrow> n > (maxInt64 - d) div base \<longleftrightarrow> n * base + d > maxInt64"
proof -
  have "n > (maxInt64 - d) div base \<longleftrightarrow> maxInt64 - d < n * base"
    using base(1) by (simp add: int_div_less_iff)
  then show ?thesis by linarith
qed

theorem loop_iff: "0 \<le> n \<Longrightarrow> n \<le> maxInt64 \<Longrightarrow> loop b n = Some v \<longleftrightarrow> val b n = Some v \<and> v \<le> maxInt64"
proof (induction b arbitrary: n)
  case (Cons c b)
  show ?case
  proof (cases "digit c")
    case (Some d)
    have d: "0 \<le> d" "d < base" using digit_range Some by blast+
    have n: "0 \<le> n * base + d" using Cons.prems(1) base(1) d(1) by simp
    show ?thesis
    proof (cases "n * base + d > maxInt64")
      case True
      then show ?thesis using Some check_iff [OF d(1), of n] val_mono [OF _ n, of b v] by (auto simp: loop_Cons)
    next
      case False
      then show ?thesis using Some check_iff [OF d(1), of n] Cons.IH [OF n] by (auto simp: loop_Cons)
    qed
  qed (simp add: loop_Cons)
qed (auto simp: loop_Nil)

end

lemma uint_diff: "y \<le> x \<Longrightarrow> uint (x - y) = uint x - uint (y :: byte)"
  by (simp add: uint_minus_simple_alt)

lemma decDigit_range: "decDigit c = Some d \<Longrightarrow> 0 \<le> d \<and> d < 10"
  by (auto simp: decDigit_def uint_diff not_less word_le_def split: if_splits)

lemma hexDigit_range: "hexDigit c = Some d \<Longrightarrow> 0 \<le> d \<and> d < 16"
  by (auto simp: hexDigit_def uint_diff word_le_def split: if_splits)

interpretation decimal: positional parseContentLength_loop decDigit 10
  by unfold_locales (auto simp: decDigit_range split: option.splits dest: decDigit_range)

interpretation hexadecimal: positional parseHex_loop hexDigit 16
  by unfold_locales (auto simp: hexDigit_range split: option.splits dest: hexDigit_range)

end
