(* ===== verification/Http_Request.thy ===== *)
theory Http_Request
  imports Http_Lexical
begin

text \<open>
  HTTP/1 request heads (\<open>src/header.go\<close>): the request line, the header fields and the header store
  \<open>RequestHeader\<close> with its accessors. A slice that is \<open>nil\<close> and an empty slice are both
  \<^term>\<open>[]\<close>. Of the slot array only the first \<open>hcount\<close> slots are ever read, and they are
  \<open>headers\<close>; the length and the capacity of the array are \<open>hslots\<close> and \<open>hcap\<close>. An index outside the
  array is a panic, the value \<^term>\<open>None\<close>.
\<close>

section \<open>Data\<close>

datatype request_error = ErrMalformedRequest | ErrRequestLineTooLarge | HTTPError nat

record Header =
  hKey :: bytes
  hVal :: bytes

record RequestHeader =
  Method :: bytes
  URI :: bytes
  RequestTarget :: bytes
  Path :: bytes
  QueryString :: bytes
  Proto :: bytes
  Host :: bytes
  targetAuthority :: bytes
  ContentType :: bytes
  Expect :: bytes
  Upgrade :: bytes
  HTTP2Settings :: bytes
  ContentLength :: int
  HasContentLength :: bool
  KeepAlive :: bool
  Chunked :: bool
  UnsupportedTransferEncoding :: bool
  headers :: "Header list"
  hslots :: nat
  hcap :: nat

text \<open>The zero value of the struct.\<close>

definition zeroHeader :: RequestHeader where
  "zeroHeader =
     \<lparr>Method = [], URI = [], RequestTarget = [], Path = [], QueryString = [], Proto = [], Host = [],
      targetAuthority = [], ContentType = [], Expect = [], Upgrade = [], HTTP2Settings = [],
      ContentLength = 0, HasContentLength = False, KeepAlive = False, Chunked = False,
      UnsupportedTransferEncoding = False, headers = [], hslots = 0, hcap = 0\<rparr>"

definition strHTTP11 :: bytes where
  "strHTTP11 = s2b ''HTTP/1.1''"

definition strHTTP10 :: bytes where
  "strHTTP10 = s2b ''HTTP/1.0''"

definition maxHeaders :: nat where
  "maxHeaders = 64"

definition hcount :: "RequestHeader \<Rightarrow> nat" where
  "hcount h = length (headers h)"

definition resetRetained :: "RequestHeader \<Rightarrow> RequestHeader" where
  "resetRetained h =
     \<lparr>Method = [], URI = [], RequestTarget = [], Path = [], QueryString = [], Proto = [], Host = [],
      targetAuthority = [], ContentType = [], Expect = [], Upgrade = [], HTTP2Settings = [],
      ContentLength = 0, HasContentLength = False, KeepAlive = False, Chunked = False,
      UnsupportedTransferEncoding = False, headers = [], hslots = hslots h, hcap = hcap h\<rparr>"

text \<open>\<open>reset\<close> also clears the slots in use, which no operation reads before writing them.\<close>

definition reset :: "RequestHeader \<Rightarrow> RequestHeader" where
  "reset h = resetRetained h"

definition Init :: "RequestHeader \<Rightarrow> RequestHeader" where
  "Init h = reset (h\<lparr>hslots := maxHeaders, hcap := maxHeaders\<rparr>)"

section \<open>The request line\<close>

text \<open>\<open>bytes.Index\<close>\<close>

fun indexBytes :: "bytes \<Rightarrow> bytes \<Rightarrow> nat option" where
  "indexBytes [] sep = (if sep = [] then Some 0 else None)"
| "indexBytes (x # xs) sep = (if take (length sep) (x # xs) = sep then Some 0 else map_option Suc (indexBytes xs sep))"

definition schemeByte :: "byte \<Rightarrow> bool" where
  "schemeByte c \<longleftrightarrow> (c \<ge> ch CHR ''a'' \<and> c \<le> ch CHR ''z'') \<or> (c \<ge> ch CHR ''A'' \<and> c \<le> ch CHR ''Z'') \<or>
     (c \<ge> ch CHR ''0'' \<and> c \<le> ch CHR ''9'') \<or> c = ch CHR ''+'' \<or> c = ch CHR ''-'' \<or> c = ch CHR ''.''"

text \<open>
  The four forms of a request target: the target that is routed and whether it is the whole
  target; \<^term>\<open>None\<close> when \<open>validTarget\<close> is false. CONNECT and absolute targets set the authority.
\<close>

definition targetForm :: "bytes \<Rightarrow> bytes \<Rightarrow> RequestHeader \<Rightarrow> (RequestHeader \<times> bytes \<times> bool) option" where
  "targetForm mth target h =
     (if hd target = ch CHR ''/'' then Some (h, target, True)
      else if methodIs mth (ch CHR ''O'') (s2b ''PTIONS'') \<and> length target = 1 \<and> hd target = ch CHR ''*'' then Some (h, target, True)
      else if methodIs mth (ch CHR ''C'') (s2b ''ONNECT'') \<and> indexByte target (ch CHR ''/'') = None
      then Some (h\<lparr>targetAuthority := target, Host := target\<rparr>, target, True)
      else case indexBytes target (s2b ''://'') of
        None \<Rightarrow> None
      | Some absIdx \<Rightarrow>
          if \<not> (absIdx > 0 \<and> absIdx + 3 < length target) then None
          else if \<not> list_all schemeByte (take absIdx target) then None
          else
            let authStart = absIdx + 3;
                auth = takeWhile (\<lambda>c. c \<noteq> ch CHR ''/'' \<and> c \<noteq> ch CHR ''?'') (drop authStart target);
                pathStart = authStart + length auth;
                routeTarget = (if pathStart < length target \<and> target ! pathStart = ch CHR ''/'' then drop pathStart target else [])
            in Some (if pathStart > authStart then h\<lparr>targetAuthority := auth, Host := auth\<rparr> else h, routeTarget, False))"

definition targetByte :: "byte \<Rightarrow> bool" where
  "targetByte c \<longleftrightarrow> \<not> (c \<le> 0x20 \<or> c = 0x7f \<or> c = ch CHR ''#'')"

text \<open>Path and query of the target.\<close>

definition splitTarget :: "RequestHeader \<Rightarrow> bytes \<Rightarrow> bytes \<Rightarrow> bool \<Rightarrow> RequestHeader" where
  "splitTarget h target routeTarget sameRouteTarget =
     (let queryAt = indexByte target (ch CHR ''?'');
          routeQueryAt = (if sameRouteTarget then queryAt else indexByte routeTarget (ch CHR ''?''))
      in if length routeTarget = 0 then
           h\<lparr>Path := [ch CHR ''/''], QueryString := (case queryAt of None \<Rightarrow> [] | Some q \<Rightarrow> drop (q + 1) target)\<rparr>
         else case routeQueryAt of
           Some q \<Rightarrow> h\<lparr>Path := take q routeTarget, QueryString := drop (q + 1) routeTarget\<rparr>
         | None \<Rightarrow> h\<lparr>Path := routeTarget, QueryString := []\<rparr>)"

text \<open>The line without its line end.\<close>

definition parseLine :: "bytes \<Rightarrow> RequestHeader \<Rightarrow> RequestHeader \<times> request_error option" where
  "parseLine line h =
     (case indexByte line (ch CHR '' '') of
        None \<Rightarrow> (h, Some ErrMalformedRequest)
      | Some sp1 \<Rightarrow>
          if sp1 = 0 \<or> \<not> validToken (take sp1 line) then (h, Some ErrMalformedRequest)
          else case indexByte (drop (sp1 + 1) line) (ch CHR '' '') of
            None \<Rightarrow> (h, Some ErrMalformedRequest)
          | Some rel \<Rightarrow>
              let mth = take sp1 line;
                  sp2 = sp1 + 1 + rel;
                  target = take rel (drop (sp1 + 1) line);
                  proto = drop (sp2 + 1) line
              in if sp2 \<le> sp1 + 1 \<or> sp2 = length line - 1 then (h, Some ErrMalformedRequest)
                 else if proto \<noteq> strHTTP11 \<and> proto \<noteq> strHTTP10 then (h, Some (HTTPError 505))
                 else case targetForm mth target h of
                   None \<Rightarrow> (h, Some ErrMalformedRequest)
                 | Some (h, routeTarget, sameRouteTarget) \<Rightarrow>
                     if \<not> list_all targetByte target then (h, Some ErrMalformedRequest)
                     else let h = h\<lparr>Method := mth, URI := routeTarget, RequestTarget := target, Proto := proto\<rparr>
                          in ((splitTarget h target routeTarget sameRouteTarget)\<lparr>KeepAlive := (proto = strHTTP11)\<rparr>, None))"

definition parseRequestLine :: "bytes \<Rightarrow> RequestHeader \<Rightarrow> int \<Rightarrow> RequestHeader \<times> nat \<times> request_error option" where
  "parseRequestLine buf h maxLineSize =
     (let limit = (if maxLineSize > 0 \<and> int (length buf) > maxLineSize + 2 then nat (maxLineSize + 2) else length buf)
      in case indexByte (take limit buf) 10 of
           None \<Rightarrow> (h, 0, Some (if maxLineSize > 0 \<and> int (length buf) > maxLineSize then ErrRequestLineTooLarge else ErrMalformedRequest))
         | Some nl \<Rightarrow>
             if nl = 0 \<or> buf ! (nl - 1) \<noteq> 13 then (h, 0, Some ErrMalformedRequest)
             else let lineEnd = nl - 1
                  in if maxLineSize > 0 \<and> int lineEnd > maxLineSize then (h, 0, Some ErrRequestLineTooLarge)
                     else case parseLine (take lineEnd buf) h of
                       (h, Some e) \<Rightarrow> (h, 0, Some e)
                     | (h, None) \<Rightarrow> (h, lineEnd + 2, None))"

section \<open>Header fields\<close>

datatype knownHeaderKind =
    knownNone | knownHost | knownContentType | knownContentLength | knownConnection
  | knownTransferEncoding | knownExpect | knownUpgrade | knownHTTP2Settings

definition knownHeader :: "bytes \<Rightarrow> knownHeaderKind" where
  "knownHeader k =
     (if length k = 4 then
        (if lower4 k (ch CHR ''h'') (ch CHR ''o'') (ch CHR ''s'') (ch CHR ''t'') then knownHost else knownNone)
      else if length k = 10 then (if lowerN k (s2b ''connection'') then knownConnection else knownNone)
      else if length k = 12 then (if lowerN k (s2b ''content-type'') then knownContentType else knownNone)
      else if length k = 6 then (if lowerN k (s2b ''expect'') then knownExpect else knownNone)
      else if length k = 7 then (if lowerN k (s2b ''upgrade'') then knownUpgrade else knownNone)
      else if length k = 14 then
        (if lowerN k (s2b ''content-length'') then knownContentLength
         else if lowerN k (s2b ''http2-settings'') then knownHTTP2Settings else knownNone)
      else if length k = 17 then (if lowerN k (s2b ''transfer-encoding'') then knownTransferEncoding else knownNone)
      else knownNone)"

definition applyConnectionHeader :: "RequestHeader \<Rightarrow> bytes \<Rightarrow> RequestHeader" where
  "applyConnectionHeader h val =
     (if length val = 5 then
        (if lower5 val (ch CHR ''c'') (ch CHR ''l'') (ch CHR ''o'') (ch CHR ''s'') (ch CHR ''e'') then h\<lparr>KeepAlive := False\<rparr> else h)
      else if length val = 10 \<and> lowerN val (s2b ''keep-alive'') then
        (if Proto h = strHTTP10 then h\<lparr>KeepAlive := True\<rparr> else h)
      else if hasHeaderToken val (s2b ''close'') then h\<lparr>KeepAlive := False\<rparr>
      else if Proto h = strHTTP10 \<and> hasHeaderToken val (s2b ''keep-alive'') then h\<lparr>KeepAlive := True\<rparr>
      else h)"

definition valueByte :: "byte \<Rightarrow> bool" where
  "valueByte c \<longleftrightarrow> \<not> ((c < 0x20 \<and> c \<noteq> 9) \<or> c = 0x7f)"

text \<open>The key and the value of a header line, if it is well formed.\<close>

definition splitHeaderLine :: "bytes \<Rightarrow> (bytes \<times> bytes) option" where
  "splitHeaderLine line =
     (case indexByte line (ch CHR '':'') of
        None \<Rightarrow> None
      | Some colon \<Rightarrow>
          if colon = 0 \<or> \<not> validToken (take colon line) then None
          else let val = trimOWSRight (dropWhile isOWS (drop (colon + 1) line))
               in if \<not> list_all valueByte val then None else Some (take colon line, val))"

text \<open>The \<open>switch\<close> over the known headers; \<^term>\<open>None\<close> is \<open>ErrMalformedRequest\<close>.\<close>

definition applyKnown ::
  "(bytes \<Rightarrow> bytes \<Rightarrow> bool) \<Rightarrow> bytes \<Rightarrow> bytes \<Rightarrow> RequestHeader \<Rightarrow> bool \<Rightarrow> bool \<Rightarrow> (RequestHeader \<times> bool \<times> bool) option" where
  "applyKnown uni key val h seenHost seenTE =
     (case knownHeader key of
        knownHost \<Rightarrow>
          if seenHost \<or> \<not> validHostField val then None
          else if length (targetAuthority h) \<noteq> 0 then
            (if \<not> EqualFold uni (targetAuthority h) val then None else Some (h\<lparr>Host := targetAuthority h\<rparr>, True, seenTE))
          else Some (h\<lparr>Host := val\<rparr>, True, seenTE)
      | knownContentType \<Rightarrow> Some (h\<lparr>ContentType := val\<rparr>, seenHost, seenTE)
      | knownContentLength \<Rightarrow>
          (case parseContentLength val of
             None \<Rightarrow> None
           | Some n \<Rightarrow> if HasContentLength h \<and> n \<noteq> ContentLength h then None
                       else Some (h\<lparr>ContentLength := n, HasContentLength := True\<rparr>, seenHost, seenTE))
      | knownConnection \<Rightarrow> Some (applyConnectionHeader h val, seenHost, seenTE)
      | knownTransferEncoding \<Rightarrow>
          if seenTE then None
          else (case parseTransferCoding val of
             (chunked, ok) \<Rightarrow> if \<not> ok then None
               else Some (h\<lparr>Chunked := chunked, UnsupportedTransferEncoding := \<not> chunked\<rparr>, seenHost, True))
      | knownExpect \<Rightarrow> Some (h\<lparr>Expect := val\<rparr>, seenHost, seenTE)
      | knownUpgrade \<Rightarrow> Some (h\<lparr>Upgrade := val\<rparr>, seenHost, seenTE)
      | knownHTTP2Settings \<Rightarrow> Some (h\<lparr>HTTP2Settings := val\<rparr>, seenHost, seenTE)
      | knownNone \<Rightarrow> Some (h, seenHost, seenTE))"

text \<open>
  The loop, with the unread bytes in \<open>rest\<close> and their position \<open>pos\<close>: the header, and an error or the
  position after the blank line and whether a Host field was seen.
\<close>

function parseHeaders_loop ::
  "(bytes \<Rightarrow> bytes \<Rightarrow> bool) \<Rightarrow> nat \<Rightarrow> bytes \<Rightarrow> nat \<Rightarrow> RequestHeader \<Rightarrow> bool \<Rightarrow> bool \<Rightarrow>
   (RequestHeader \<times> (request_error + nat \<times> bool)) option" where
  "parseHeaders_loop uni maxCount rest pos h seenHost seenTE =
     (if rest = [] then Some (h, Inl ErrMalformedRequest)
      else if hd rest = 13 \<and> length rest > 1 \<and> rest ! 1 = 10 then Some (h, Inr (pos + 2, seenHost))
      else if isOWS (hd rest) then Some (h, Inl ErrMalformedRequest)
      else case indexByte rest 10 of
        None \<Rightarrow> Some (h, Inl ErrMalformedRequest)
      | Some nl \<Rightarrow>
          if nl = 0 \<or> rest ! (nl - 1) \<noteq> 13 then Some (h, Inl ErrMalformedRequest)
          else case splitHeaderLine (take (nl - 1) rest) of
            None \<Rightarrow> Some (h, Inl ErrMalformedRequest)
          | Some (key, val) \<Rightarrow>
              (case applyKnown uni key val h seenHost seenTE of
                 None \<Rightarrow> Some (h, Inl ErrMalformedRequest)
               | Some (h, seenHost, seenTE) \<Rightarrow>
                   if hcount h \<ge> maxCount then Some (h, Inl ErrMalformedRequest)
                   else if hcount h \<ge> hslots h then None
                   else parseHeaders_loop uni maxCount (drop (nl + 1) rest) (pos + nl + 1)
                          (h\<lparr>headers := headers h @ [\<lparr>hKey = key, hVal = val\<rparr>]\<rparr>) seenHost seenTE))"
  by pat_completeness auto
termination
  by (relation "measure (\<lambda>(_, _, rest, _). length rest)") (auto dest: indexByte_less)

declare parseHeaders_loop.simps [simp del]

definition parseHeadersWithLimit ::
  "(bytes \<Rightarrow> bytes \<Rightarrow> bool) \<Rightarrow> bytes \<Rightarrow> RequestHeader \<Rightarrow> int \<Rightarrow> (RequestHeader \<times> nat \<times> request_error option) option" where
  "parseHeadersWithLimit uni src h maxCount =
     (let maxCount = (if maxCount \<le> 0 then maxHeaders else nat maxCount);
          h = (if hcap h < maxCount then h\<lparr>hslots := maxCount, hcap := maxCount\<rparr> else h);
          h = h\<lparr>headers := []\<rparr>
      in case parseHeaders_loop uni maxCount src 0 h False False of
           None \<Rightarrow> None
         | Some (h, Inl e) \<Rightarrow> Some (h, 0, Some e)
         | Some (h, Inr (pos, seenHost)) \<Rightarrow>
             if Chunked h \<and> HasContentLength h then Some (h, 0, Some ErrMalformedRequest)
             else if Proto h = strHTTP11 \<and> \<not> seenHost then Some (h, 0, Some ErrMalformedRequest)
             else Some (h, pos, None))"

definition parseHeaders ::
  "(bytes \<Rightarrow> bytes \<Rightarrow> bool) \<Rightarrow> bytes \<Rightarrow> RequestHeader \<Rightarrow> (RequestHeader \<times> nat \<times> request_error option) option" where
  "parseHeaders uni src h = parseHeadersWithLimit uni src h (int maxHeaders)"

section \<open>The header store\<close>

definition HeaderCookieBytes :: bytes where
  "HeaderCookieBytes = s2b ''Cookie''"

definition HeaderHostBytes :: bytes where
  "HeaderHostBytes = s2b ''Host''"

text \<open>
  \<open>append\<close> to the slot array. The capacity that a full array grows to is up to the run time: it is
  \<open>grow n\<close> for an array of length \<open>n\<close>.
\<close>

definition appendSlot :: "(nat \<Rightarrow> nat) \<Rightarrow> RequestHeader \<Rightarrow> RequestHeader" where
  "appendSlot grow h = h\<lparr>hslots := hslots h + 1, hcap := (if hslots h < hcap h then hcap h else grow (hslots h))\<rparr>"

fun appendCookie :: "bytes \<Rightarrow> Header list \<Rightarrow> Header list option" where
  "appendCookie cookieVal [] = None"
| "appendCookie cookieVal (x # xs) =
     (if bytesEqualFold (hKey x) HeaderCookieBytes then Some (x\<lparr>hVal := hVal x @ s2b ''; '' @ cookieVal\<rparr> # xs)
      else map_option ((#) x) (appendCookie cookieVal xs))"

definition SetCookie :: "(nat \<Rightarrow> nat) \<Rightarrow> RequestHeader \<Rightarrow> bytes \<Rightarrow> bytes \<Rightarrow> RequestHeader" where
  "SetCookie grow h name val =
     (let cookieVal = name @ s2b ''='' @ val
      in case appendCookie cookieVal (headers h) of
           Some xs \<Rightarrow> h\<lparr>headers := xs\<rparr>
         | None \<Rightarrow>
             (if hcount h < hslots h then h else appendSlot grow h)
               \<lparr>headers := headers h @ [\<lparr>hKey = HeaderCookieBytes, hVal = cookieVal\<rparr>]\<rparr>)"

definition Peek :: "RequestHeader \<Rightarrow> bytes \<Rightarrow> bytes" where
  "Peek h name =
     (case find (\<lambda>x. bytesEqualFold (hKey x) name) (headers h) of
        Some x \<Rightarrow> hVal x
      | None \<Rightarrow> if bytesEqualFold name HeaderHostBytes then Host h else [])"

definition peekStr :: "RequestHeader \<Rightarrow> bytes \<Rightarrow> bytes" where
  "peekStr h name =
     (case find (\<lambda>x. strBytesEqualFold name (hKey x)) (headers h) of
        Some x \<Rightarrow> hVal x
      | None \<Rightarrow>
          if length name = 4 \<and> name ! 0 OR 0x20 = ch CHR ''h'' \<and> name ! 1 OR 0x20 = ch CHR ''o'' \<and>
             name ! 2 OR 0x20 = ch CHR ''s'' \<and> name ! 3 OR 0x20 = ch CHR ''t''
          then Host h else [])"

definition PeekStr :: "RequestHeader \<Rightarrow> bytes \<Rightarrow> bytes" where
  "PeekStr h name = peekStr h name"

definition Get :: "RequestHeader \<Rightarrow> bytes \<Rightarrow> bytes list \<Rightarrow> bytes" where
  "Get h name defaults =
     (let val = PeekStr h name
      in if val = [] \<and> length defaults \<noteq> 0 then hd defaults else val)"

definition Values :: "RequestHeader \<Rightarrow> bytes \<Rightarrow> bytes list" where
  "Values h name = map hVal (filter (\<lambda>x. strBytesEqualFold name (hKey x)) (headers h))"

text \<open>
  \<open>textproto.CanonicalMIMEHeaderKey\<close>: a name with a byte that is not a token byte is left alone,
  otherwise the first letter and every letter after a hyphen is made upper case, the others lower.
\<close>

fun canonicalBytes :: "bool \<Rightarrow> bytes \<Rightarrow> bytes" where
  "canonicalBytes upper [] = []"
| "canonicalBytes upper (c # s) =
     (if upper \<and> ch CHR ''a'' \<le> c \<and> c \<le> ch CHR ''z'' then c - 32
      else if \<not> upper \<and> ch CHR ''A'' \<le> c \<and> c \<le> ch CHR ''Z'' then c + 32 else c)
     # canonicalBytes (c = ch CHR ''-'') s"

definition CanonicalMIMEHeaderKey :: "bytes \<Rightarrow> bytes" where
  "CanonicalMIMEHeaderKey s = (if list_all tokenByte s then canonicalBytes True s else s)"

definition appendValue :: "(bytes \<rightharpoonup> bytes list) \<Rightarrow> Header \<Rightarrow> (bytes \<rightharpoonup> bytes list)" where
  "appendValue m x =
     (let key = CanonicalMIMEHeaderKey (hKey x)
      in m(key \<mapsto> (case m key of None \<Rightarrow> [] | Some vs \<Rightarrow> vs) @ [hVal x]))"

definition mapValues :: "(bytes \<rightharpoonup> bytes list) \<Rightarrow> bytes \<Rightarrow> bytes list" where
  "mapValues m key = (case m key of None \<Rightarrow> [] | Some vs \<Rightarrow> vs)"

definition GetHeaders :: "RequestHeader \<Rightarrow> (bytes \<rightharpoonup> bytes list)" where
  "GetHeaders h =
     (let m = foldl appendValue Map.empty (headers h);
          m = (if length (Host h) \<noteq> 0 \<and> length (mapValues m (s2b ''Host'')) = 0 then m(s2b ''Host'' \<mapsto> [Host h]) else m);
          m = (if length (ContentType h) \<noteq> 0 \<and> length (mapValues m (s2b ''Content-Type'')) = 0
               then m(s2b ''Content-Type'' \<mapsto> [ContentType h]) else m)
      in m)"

text \<open>\<open>strconv.Atoi\<close>\<close>

fun decValue :: "bytes \<Rightarrow> int \<Rightarrow> int option" where
  "decValue [] n = Some n"
| "decValue (c # s) n = (case decDigit c of None \<Rightarrow> None | Some d \<Rightarrow> decValue s (n * 10 + d))"

definition Atoi :: "bytes \<Rightarrow> int option" where
  "Atoi s =
     (let neg = (s \<noteq> [] \<and> hd s = ch CHR ''-'');
          digits = (if s \<noteq> [] \<and> (hd s = ch CHR ''-'' \<or> hd s = ch CHR ''+'') then tl s else s)
      in if digits = [] then None
         else case decValue digits 0 of
           None \<Rightarrow> None
         | Some n \<Rightarrow> if neg then (if n > maxInt64 + 1 then None else Some (- n))
                     else if n > maxInt64 then None else Some n)"

definition syncKnownHeader :: "(bytes \<Rightarrow> bytes \<Rightarrow> bool) \<Rightarrow> RequestHeader \<Rightarrow> bytes \<Rightarrow> bytes \<Rightarrow> RequestHeader" where
  "syncKnownHeader uni h name val =
     (if EqualFold uni name (s2b ''Host'') then h\<lparr>Host := val\<rparr>
      else if EqualFold uni name (s2b ''Content-Type'') then h\<lparr>ContentType := val\<rparr>
      else if EqualFold uni name (s2b ''Content-Length'') then
        (case Atoi val of
           Some n \<Rightarrow> if n \<ge> 0 then h\<lparr>ContentLength := n, HasContentLength := True\<rparr> else h
         | None \<Rightarrow> h)
      else h)"

definition stringsContainsCTL :: "bytes \<Rightarrow> bool" where
  "stringsContainsCTL val = list_ex (\<lambda>c. c = 13 \<or> c = 10 \<or> c = 0) val"

definition Add :: "(bytes \<Rightarrow> bytes \<Rightarrow> bool) \<Rightarrow> (nat \<Rightarrow> nat) \<Rightarrow> RequestHeader \<Rightarrow> bytes \<Rightarrow> bytes \<Rightarrow> RequestHeader" where
  "Add uni grow h name val =
     (if \<not> validToken name \<or> stringsContainsCTL val then h
      else if hcount h \<ge> maxHeaders then h
      else let h = (if hcount h = hslots h then appendSlot grow h else h);
               h = h\<lparr>headers := headers h @ [\<lparr>hKey = name, hVal = val\<rparr>]\<rparr>
           in syncKnownHeader uni h name val)"

definition Del :: "(bytes \<Rightarrow> bytes \<Rightarrow> bool) \<Rightarrow> RequestHeader \<Rightarrow> bytes \<Rightarrow> RequestHeader" where
  "Del uni h name =
     (let h = h\<lparr>headers := filter (\<lambda>x. \<not> strBytesEqualFold name (hKey x)) (headers h)\<rparr>
      in if EqualFold uni name (s2b ''Host'') then h\<lparr>Host := []\<rparr>
         else if EqualFold uni name (s2b ''Content-Type'') then h\<lparr>ContentType := []\<rparr>
         else if EqualFold uni name (s2b ''Content-Length'') then h\<lparr>ContentLength := 0, HasContentLength := False\<rparr>
         else h)"

definition hdr_Set :: "(bytes \<Rightarrow> bytes \<Rightarrow> bool) \<Rightarrow> (nat \<Rightarrow> nat) \<Rightarrow> RequestHeader \<Rightarrow> bytes \<Rightarrow> bytes \<Rightarrow> RequestHeader" where
  "hdr_Set uni grow h name val = Add uni grow (Del uni h name) name val"

end
