(* ===== verification/Http_Request_Correct.thy ===== *)
theory Http_Request_Correct
  imports Http_Request
begin

text \<open>
  Correctness of the HTTP/1 request parser. A request line that is accepted is exactly the method,
  the target and the protocol, each free of the separators; a line printed from such parts is
  accepted and gives them back. A header block that is accepted is a list of well-formed lines and
  has no room for request smuggling: one Host, one Transfer-Encoding, agreeing Content-Length
  fields, never both framings.
\<close>

section \<open>The request line\<close>

lemma splitTarget_frame:
  "Method (splitTarget h t r same) = Method h" "URI (splitTarget h t r same) = URI h"
  "RequestTarget (splitTarget h t r same) = RequestTarget h" "Proto (splitTarget h t r same) = Proto h"
  "headers (splitTarget h t r same) = headers h" "HasContentLength (splitTarget h t r same) = HasContentLength h"
  "Chunked (splitTarget h t r same) = Chunked h" "hslots (splitTarget h t r same) = hslots h"
  "hcap (splitTarget h t r same) = hcap h" "Host (splitTarget h t r same) = Host h"
  "targetAuthority (splitTarget h t r same) = targetAuthority h"
  by (simp_all add: splitTarget_def Let_def split: option.split)

lemma splitTarget_path:
  assumes "r \<noteq> []" and "same \<Longrightarrow> r = t"
  shows "r = Path (splitTarget h t r same) @ (if ch CHR ''?'' \<in> set r then ch CHR ''?'' # QueryString (splitTarget h t r same) else [])"
    and "ch CHR ''?'' \<notin> set (Path (splitTarget h t r same))"
proof -
  have q: "splitTarget h t r same = (case indexByte r (ch CHR ''?'') of
      Some q \<Rightarrow> h\<lparr>Path := take q r, QueryString := drop (q + 1) r\<rparr> | None \<Rightarrow> h\<lparr>Path := r, QueryString := []\<rparr>)"
    using assms by (cases same) (simp_all add: splitTarget_def Let_def cong: option.case_cong)
  show "r = Path (splitTarget h t r same) @ (if ch CHR ''?'' \<in> set r then ch CHR ''?'' # QueryString (splitTarget h t r same) else [])"
    using indexByte_split [of r "ch CHR ''?''"] indexByte_None_iff [of r "ch CHR ''?''"]
    by (auto simp: q split: option.splits)
  show "ch CHR ''?'' \<notin> set (Path (splitTarget h t r same))"
    using indexByte_SomeD [of r "ch CHR ''?''"] indexByte_None_iff [of r "ch CHR ''?''"]
    by (auto simp: q split: option.splits)
qed

lemma targetForm_route:
  assumes "targetForm m t h = Some (h', r, same)" and "t \<noteq> []"
  shows "same \<Longrightarrow> r = t" and "\<not> same \<Longrightarrow> r \<noteq> [] \<Longrightarrow> hd r = ch CHR ''/''" and "same \<Longrightarrow> r \<noteq> []"
proof -
  show "same \<Longrightarrow> r = t" "same \<Longrightarrow> r \<noteq> []"
    using assms by (auto simp: targetForm_def Let_def split: if_splits option.splits)
  show "\<not> same \<Longrightarrow> r \<noteq> [] \<Longrightarrow> hd r = ch CHR ''/''"
    using assms by (auto simp: targetForm_def Let_def hd_drop_conv_nth split: if_splits option.splits)
qed

lemma parseLine_ok:
  assumes "parseLine line h = (h', None)"
  shows "\<exists>h1 same. line = Method h' @ [32] @ RequestTarget h' @ [32] @ Proto h' \<and> validToken (Method h') \<and>
    RequestTarget h' \<noteq> [] \<and> list_all targetByte (RequestTarget h') \<and> Proto h' \<in> {strHTTP11, strHTTP10} \<and>
    targetForm (Method h') (RequestTarget h') h = Some (h1, URI h', same) \<and>
    h' = (splitTarget (h1\<lparr>Method := Method h', URI := URI h', RequestTarget := RequestTarget h', Proto := Proto h'\<rparr>)
            (RequestTarget h') (URI h') same)\<lparr>KeepAlive := (Proto h' = strHTTP11)\<rparr>"
proof -
  from assms obtain sp1 where sp1: "indexByte line 32 = Some sp1" "sp1 \<noteq> 0" "validToken (take sp1 line)"
    by (auto simp: parseLine_def split: option.splits if_splits)
  from assms sp1 obtain rel where rel: "indexByte (drop (sp1 + 1) line) 32 = Some rel" "rel \<noteq> 0"
    by (auto simp: parseLine_def Let_def split: option.splits if_splits)
  define t where "t = take rel (drop (sp1 + 1) line)"
  define p where "p = drop (sp1 + 1 + rel + 1) line"
  have "p = drop (Suc rel) (drop (Suc sp1) line)" by (simp add: p_def add.commute)
  then have "drop (Suc sp1) line = t @ 32 # p" using indexByte_split [OF rel(1)] by (simp add: t_def)
  then have line: "line = take sp1 line @ [32] @ t @ [32] @ p" using indexByte_split [OF sp1(1)] by simp
  from assms sp1 rel obtain h1 r same where r: "targetForm (take sp1 line) t h = Some (h1, r, same)"
      "list_all targetByte t" "p = strHTTP11 \<or> p = strHTTP10"
      "h' = (splitTarget (h1\<lparr>Method := take sp1 line, URI := r, RequestTarget := t, Proto := p\<rparr>) t r same)\<lparr>KeepAlive := (p = strHTTP11)\<rparr>"
    by (auto simp: parseLine_def Let_def t_def p_def split: option.splits if_splits prod.splits)
  have "t \<noteq> []" using rel indexByte_less [OF rel(1)] by (auto simp: t_def)
  with line r sp1(3) show ?thesis
    by (intro exI [of _ h1] exI [of _ same]) (simp add: splitTarget_frame)
qed

lemma parseRequestLine_ok:
  assumes "parseRequestLine buf h maxLine = (h', n, None)"
  shows "\<exists>line. parseLine line h = (h', None) \<and> take n buf = line @ [13, 10] \<and> n = length line + 2 \<and> n \<le> length buf \<and>
    10 \<notin> set line \<and> (maxLine > 0 \<longrightarrow> int (length line) \<le> maxLine)"
proof -
  define lim where "lim = (if maxLine > 0 \<and> int (length buf) > maxLine + 2 then nat (maxLine + 2) else length buf)"
  from assms obtain nl where nl: "indexByte (take lim buf) 10 = Some nl" "nl \<noteq> 0" "buf ! (nl - 1) = 13"
      "maxLine > 0 \<longrightarrow> int (nl - 1) \<le> maxLine" "parseLine (take (nl - 1) buf) h = (h', None)" "n = nl - 1 + 2"
    by (auto simp: parseRequestLine_def Let_def lim_def [symmetric] not_less split: option.splits if_splits prod.splits)
  have at: "nl < length buf" "buf ! nl = 10" "10 \<notin> set (take nl buf)"
    using indexByte_SomeD [OF nl(1)] by (auto simp: min_def split: if_splits)
  obtain k where k: "nl = Suc k" using nl(2) by (cases nl) auto
  have "take n buf = take k buf @ [13, 10]"
    using at nl(3,6) by (simp add: k take_Suc_conv_app_nth)
  moreover have "10 \<notin> set (take k buf)"
    using at(3) set_take_subset_set_take [of k nl buf] by (auto simp: k)
  ultimately show ?thesis
    using nl at(1) by (intro exI [of _ "take k buf"]) (auto simp: k)
qed

text \<open>
  C16: The bytes consumed by a request line that is accepted are exactly method, space, target,
  space, protocol, CRLF: the method is a token, the target is not empty and has no white space,
  control character or fragment, the protocol is HTTP/1.1 or HTTP/1.0 and decides keep-alive, and
  the line respects the limit. The routed URI is the path, free of question marks, followed by the
  query, unless the target is absolute without a path, which routes to the slash.
\<close>

theorem parseRequestLine_sound:
  assumes "parseRequestLine buf h maxLine = (h', n, None)"
  shows "n \<le> length buf \<and> take n buf = Method h' @ [32] @ RequestTarget h' @ [32] @ Proto h' @ [13, 10] \<and>
    validToken (Method h') \<and> RequestTarget h' \<noteq> [] \<and> list_all targetByte (RequestTarget h') \<and>
    (Proto h' = strHTTP11 \<or> Proto h' = strHTTP10) \<and> (KeepAlive h' \<longleftrightarrow> Proto h' = strHTTP11) \<and>
    (maxLine > 0 \<longrightarrow> int n \<le> maxLine + 2) \<and> ch CHR ''?'' \<notin> set (Path h') \<and>
    (if URI h' = [] then Path h' = [ch CHR ''/'']
     else URI h' = Path h' @ (if ch CHR ''?'' \<in> set (URI h') then ch CHR ''?'' # QueryString h' else []))"
proof -
  from parseRequestLine_ok [OF assms] obtain line where line: "parseLine line h = (h', None)" "take n buf = line @ [13, 10]"
      "n = length line + 2" "n \<le> length buf" "maxLine > 0 \<longrightarrow> int (length line) \<le> maxLine" by blast
  from parseLine_ok [OF line(1)] obtain h1 same where ok:
      "line = Method h' @ [32] @ RequestTarget h' @ [32] @ Proto h'" "validToken (Method h')" "RequestTarget h' \<noteq> []"
      "list_all targetByte (RequestTarget h')" "Proto h' \<in> {strHTTP11, strHTTP10}"
      "targetForm (Method h') (RequestTarget h') h = Some (h1, URI h', same)"
      "h' = (splitTarget (h1\<lparr>Method := Method h', URI := URI h', RequestTarget := RequestTarget h', Proto := Proto h'\<rparr>)
         (RequestTarget h') (URI h') same)\<lparr>KeepAlive := (Proto h' = strHTTP11)\<rparr>" by blast
  let ?s = "splitTarget (h1\<lparr>Method := Method h', URI := URI h', RequestTarget := RequestTarget h', Proto := Proto h'\<rparr>)
         (RequestTarget h') (URI h') same"
  have h': "Path h' = Path ?s" "QueryString h' = QueryString ?s" "KeepAlive h' \<longleftrightarrow> Proto h' = strHTTP11"
    by (subst ok(7), simp)+
  have path: "ch CHR ''?'' \<notin> set (Path h') \<and> (if URI h' = [] then Path h' = [ch CHR ''/'']
     else URI h' = Path h' @ (if ch CHR ''?'' \<in> set (URI h') then ch CHR ''?'' # QueryString h' else []))"
  proof (cases "URI h' = []")
    case True
    then have "Path ?s = [ch CHR ''/'']" by (simp add: splitTarget_def Let_def)
    with True h'(1) show ?thesis by simp
  next
    case False
    from splitTarget_path [OF False targetForm_route(1) [OF ok(6,3)], where h = "h1\<lparr>Method := Method h', URI := URI h', RequestTarget := RequestTarget h', Proto := Proto h'\<rparr>"]
    show ?thesis using False unfolding h'(1,2) by simp
  qed
  have eq: "take n buf = Method h' @ [32] @ RequestTarget h' @ [32] @ Proto h' @ [13, 10]" using line(2) ok(1) by simp
  have lim: "maxLine > 0 \<longrightarrow> int n \<le> maxLine + 2" using line(3,5) by auto
  show ?thesis using line(4) eq ok(2-5) h'(3) lim path by blast
qed

theorem parseRequestLine_sound_witness:
  "let buf = s2b ''GET /a?b HTTP/1.1'' @ [13, 10, 65];
       r = parseRequestLine buf (Init zeroHeader) 100
   in snd r = (19, None) \<and> take 19 buf = Method (fst r) @ [32] @ RequestTarget (fst r) @ [32] @ Proto (fst r) @ [13, 10]"
proof -
  let ?r = "parseRequestLine (s2b ''GET /a?b HTTP/1.1'' @ [13, 10, 65]) (Init zeroHeader) 100"
  have "snd ?r = (19, None)" by code_simp
  then have "?r = (fst ?r, 19, None)" by (cases ?r) simp
  from parseRequestLine_sound [OF this] \<open>snd ?r = (19, None)\<close> show ?thesis unfolding Let_def by blast
qed

lemma token_no_space: "validToken m \<Longrightarrow> 32 \<notin> set m \<and> 10 \<notin> set m \<and> m \<noteq> []"
  by (auto simp: validToken_def list_all_iff tokenByte_def)

lemma target_no_space: "list_all targetByte t \<Longrightarrow> 32 \<notin> set t \<and> 10 \<notin> set t"
  by (auto simp: list_all_iff targetByte_def)

lemma proto_no_lf: "p = strHTTP11 \<or> p = strHTTP10 \<Longrightarrow> 10 \<notin> set p \<and> p \<noteq> []"
  by (auto simp: strHTTP11_def strHTTP10_def)

lemma parseLine_print:
  assumes "validToken m" and "t \<noteq> []" and "list_all targetByte t" and "p = strHTTP11 \<or> p = strHTTP10"
    and "targetForm m t h = Some (h1, r, same)"
  shows "parseLine (m @ [32] @ t @ [32] @ p) h =
    ((splitTarget (h1\<lparr>Method := m, URI := r, RequestTarget := t, Proto := p\<rparr>) t r same)\<lparr>KeepAlive := (p = strHTTP11)\<rparr>, None)"
proof -
  let ?line = "m @ 32 # t @ 32 # p"
  have i: "indexByte ?line 32 = Some (length m)" "indexByte (t @ 32 # p) 32 = Some (length t)"
    using token_no_space [OF assms(1)] target_no_space [OF assms(3)] by (simp_all add: indexByte_append_notin)
  have "m \<noteq> []" "p \<noteq> []" using token_no_space [OF assms(1)] proto_no_lf [OF assms(4)] by simp_all
  moreover have "(proto \<noteq> strHTTP11 \<and> proto \<noteq> strHTTP10) = False" if "proto = p" for proto using assms(4) that by blast
  ultimately show ?thesis
    using assms i by (simp add: parseLine_def Let_def)
qed

lemma parseRequestLine_print:
  assumes "10 \<notin> set line" and "maxLine > 0 \<longrightarrow> int (length line) \<le> maxLine" and "parseLine line h = (h', None)"
  shows "parseRequestLine (line @ [13, 10] @ rest) h maxLine = (h', length line + 2, None)"
proof -
  let ?buf = "line @ [13, 10] @ rest"
  define lim where "lim = (if maxLine > 0 \<and> int (length ?buf) > maxLine + 2 then nat (maxLine + 2) else length ?buf)"
  have "length line + 2 \<le> lim" using assms(2) by (auto simp: lim_def)
  then have "take lim ?buf = (line @ [13]) @ 10 # take (lim - length line - 2) rest"
    by (simp add: take_Cons' numeral_2_eq_2)
  then have "indexByte (take lim ?buf) 10 = Some (length line + 1)"
    using assms(1) indexByte_append_notin [of 10 "line @ [13]"] by simp
  with assms(2,3) show ?thesis
    unfolding parseRequestLine_def lim_def [symmetric] by (auto simp: Let_def nth_append)
qed



section \<open>Header fields\<close>

text \<open>A header of the given name.\<close>

definition named :: "string \<Rightarrow> Header \<Rightarrow> bool" where
  "named s x \<longleftrightarrow> strEqFold (hKey x) (s2b s)"

lemma lower4_lowerN: "length k = 4 \<Longrightarrow> lower4 k a b c d = lowerN k [a, b, c, d]"
proof -
  assume "length k = 4"
  then obtain w x y z where "k = [w, x, y, z]" by (auto simp: numeral_eq_Suc length_Suc_conv)
  then show ?thesis by (simp add: lower4_def)
qed

lemma knownHeader_iff:
  assumes "validToken k"
  shows "knownHeader k = knownHost \<longleftrightarrow> strEqFold k (s2b ''host'')"
    and "knownHeader k = knownContentLength \<longleftrightarrow> strEqFold k (s2b ''content-length'')"
    and "knownHeader k = knownTransferEncoding \<longleftrightarrow> strEqFold k (s2b ''transfer-encoding'')"
proof -
  have "list_all (\<lambda>c. c > 0x20) k" using assms by (auto simp: validToken_def list_all_iff tokenByte_def)
  then have lower: "length k = length s \<Longrightarrow> list_all lowerName s \<Longrightarrow> lowerN k s = strEqFold k s" for s
    by (simp add: lowerN_iff)
  have len: "strEqFold k s \<Longrightarrow> length k = length s" for s by (simp add: strEqFold_def split: if_splits)
  have names: "list_all lowerName (s2b ''host'')" "list_all lowerName (s2b ''content-length'')"
    "list_all lowerName (s2b ''transfer-encoding'')" by (simp_all add: lowerName_def)
  show "knownHeader k = knownHost \<longleftrightarrow> strEqFold k (s2b ''host'')"
    using lower [OF _ names(1)] len [of "s2b ''host''"] lower4_lowerN [of k] by (auto simp: knownHeader_def)
  show "knownHeader k = knownContentLength \<longleftrightarrow> strEqFold k (s2b ''content-length'')"
    using lower [OF _ names(2)] len [of "s2b ''content-length''"] by (auto simp: knownHeader_def)
  show "knownHeader k = knownTransferEncoding \<longleftrightarrow> strEqFold k (s2b ''transfer-encoding'')"
    using lower [OF _ names(3)] len [of "s2b ''transfer-encoding''"] by (auto simp: knownHeader_def)
qed

text \<open>How the fields of the header relate to the header lines read so far.\<close>

definition head_inv :: "RequestHeader \<Rightarrow> bool \<Rightarrow> bool \<Rightarrow> bool" where
  "head_inv h seenHost seenTE \<longleftrightarrow>
     (\<forall>x \<in> set (headers h). validToken (hKey x) \<and> list_all valueByte (hVal x)) \<and>
     (HasContentLength h \<longleftrightarrow> list_ex (named ''content-length'') (headers h)) \<and>
     (\<forall>x \<in> set (filter (named ''content-length'') (headers h)). parseContentLength (hVal x) = Some (ContentLength h)) \<and>
     length (filter (named ''host'') (headers h)) = of_bool seenHost \<and>
     length (filter (named ''transfer-encoding'') (headers h)) = of_bool seenTE \<and>
     (Chunked h \<longleftrightarrow> list_ex (\<lambda>x. named ''transfer-encoding'' x \<and> parseTransferCoding (hVal x) = (True, True)) (headers h))"

lemma names_distinct:
  "named ''host'' x \<Longrightarrow> \<not> named ''content-length'' x \<and> \<not> named ''transfer-encoding'' x"
  "named ''content-length'' x \<Longrightarrow> \<not> named ''transfer-encoding'' x"
  by (auto simp: named_def strEqFold_def split: if_splits)

lemma applyConnectionHeader_frame [simp]:
  "headers (applyConnectionHeader h v) = headers h" "HasContentLength (applyConnectionHeader h v) = HasContentLength h"
  "ContentLength (applyConnectionHeader h v) = ContentLength h" "Chunked (applyConnectionHeader h v) = Chunked h"
  "hslots (applyConnectionHeader h v) = hslots h" "Proto (applyConnectionHeader h v) = Proto h"
  "UnsupportedTransferEncoding (applyConnectionHeader h v) = UnsupportedTransferEncoding h"
  by (simp_all add: applyConnectionHeader_def del: s2b_Cons)

lemma applyKnown_frame:
  assumes "applyKnown uni key v h sh te = Some (h', sh', te')"
  shows "headers h' = headers h" "hslots h' = hslots h" "Proto h' = Proto h"
  using assms by (auto simp: applyKnown_def split: knownHeaderKind.splits if_splits option.splits prod.splits)

lemma applyKnown_inv:
  assumes inv: "head_inv h sh te" and k: "validToken key" "list_all valueByte v"
    and a: "applyKnown uni key v h sh te = Some (h', sh', te')"
  shows "head_inv (h'\<lparr>headers := headers h' @ [\<lparr>hKey = key, hVal = v\<rparr>]\<rparr>) sh' te'"
proof -
  let ?x = "\<lparr>hKey = key, hVal = v\<rparr>"
  have n: "named ''host'' ?x \<longleftrightarrow> knownHeader key = knownHost"
      "named ''content-length'' ?x \<longleftrightarrow> knownHeader key = knownContentLength"
      "named ''transfer-encoding'' ?x \<longleftrightarrow> knownHeader key = knownTransferEncoding"
    by (simp_all add: named_def knownHeader_iff [OF k(1)])
  consider (host) "knownHeader key = knownHost" "\<not> sh" "sh'" "te' = te" "HasContentLength h' = HasContentLength h"
        "ContentLength h' = ContentLength h" "Chunked h' = Chunked h"
    | (cl) m where "knownHeader key = knownContentLength" "sh' = sh" "te' = te" "HasContentLength h'" "ContentLength h' = m"
        "parseContentLength v = Some m" "HasContentLength h \<longrightarrow> m = ContentLength h" "Chunked h' = Chunked h"
    | (te) "knownHeader key = knownTransferEncoding" "\<not> te" "te'" "sh' = sh" "HasContentLength h' = HasContentLength h"
        "ContentLength h' = ContentLength h" "parseTransferCoding v = (Chunked h', True)"
    | (other) "knownHeader key \<noteq> knownHost" "knownHeader key \<noteq> knownContentLength" "knownHeader key \<noteq> knownTransferEncoding"
        "sh' = sh" "te' = te" "HasContentLength h' = HasContentLength h" "ContentLength h' = ContentLength h" "Chunked h' = Chunked h"
    using a by (auto simp: applyKnown_def split: knownHeaderKind.splits if_splits option.splits prod.splits)
  then show ?thesis
  proof cases
    case host
    then show ?thesis using inv k n by (simp add: head_inv_def applyKnown_frame(1) [OF a])
  next
    case cl
    then show ?thesis using inv k n
      by (auto simp: head_inv_def applyKnown_frame(1) [OF a] list_ex_iff)
  next
    case te
    moreover have "\<not> Chunked h" using inv te(2) by (auto simp: head_inv_def list_ex_iff filter_empty_conv)
    ultimately show ?thesis using inv k n
      by (auto simp: head_inv_def applyKnown_frame(1) [OF a] list_ex_iff filter_empty_conv)
  next
    case other
    then show ?thesis using inv k n by (simp add: head_inv_def applyKnown_frame(1) [OF a])
  qed
qed

lemma splitHeaderLine_ok:
  "splitHeaderLine line = Some (key, v) \<Longrightarrow> validToken key \<and> list_all valueByte v"
  by (auto simp: splitHeaderLine_def Let_def split: option.splits if_splits)

lemma parseHeaders_loop_cases:
  assumes "parseHeaders_loop uni mx rest pos h sh te = Some (h', Inr (n, sh'))"
  obtains (blank) r where "rest = 13 # 10 # r" "n = pos + 2" "h' = h" "sh' = sh"
  | (line) line r key v h1 sh1 te1 where "rest = line @ [13, 10] @ r" "line \<noteq> []" "10 \<notin> set line" "splitHeaderLine line = Some (key, v)"
      "applyKnown uni key v h sh te = Some (h1, sh1, te1)" "length (headers h1) < mx"
      "parseHeaders_loop uni mx r (pos + length line + 2) (h1\<lparr>headers := headers h1 @ [\<lparr>hKey = key, hVal = v\<rparr>]\<rparr>) sh1 te1 = Some (h', Inr (n, sh'))"
proof (cases "hd rest = 13 \<and> length rest > 1 \<and> rest ! 1 = 10")
  case True
  then obtain r where "rest = 13 # 10 # r" by (cases rest; cases "tl rest") auto
  moreover have "n = pos + 2" "h' = h" "sh' = sh" 
    using assms True by (auto simp: parseHeaders_loop.simps [of uni mx rest] split: if_splits)
  ultimately show thesis using blank by blast
next
  case False
  from assms False obtain nl where nl: "rest \<noteq> []" "indexByte rest 10 = Some nl" "nl \<noteq> 0" "rest ! (nl - 1) = 13"
    by (auto simp: parseHeaders_loop.simps [of uni mx rest] split: if_splits option.splits)
  from assms False nl obtain key v h1 sh1 te1 where l: "splitHeaderLine (take (nl - 1) rest) = Some (key, v)"
      "applyKnown uni key v h sh te = Some (h1, sh1, te1)" "length (headers h1) < mx"
      "parseHeaders_loop uni mx (drop (nl + 1) rest) (pos + nl + 1) (h1\<lparr>headers := headers h1 @ [\<lparr>hKey = key, hVal = v\<rparr>]\<rparr>) sh1 te1 = Some (h', Inr (n, sh'))"
    by (auto simp: parseHeaders_loop.simps [of uni mx rest] hcount_def split: if_splits option.splits)
  obtain k where k: "nl = Suc k" using nl(3) by (cases nl) auto
  have lt: "nl < length rest" "10 \<notin> set (take nl rest)" "rest ! nl = 10" using indexByte_SomeD [OF nl(2)] by auto
  have "rest = take k rest @ [13, 10] @ drop (nl + 1) rest"
    using lt nl(4) indexByte_split [OF nl(2)] by (simp add: k take_Suc_conv_app_nth)
  moreover have "take k rest \<noteq> []"
  proof
    assume e: "take k rest = []"
    have "splitHeaderLine [] = None" by (simp add: splitHeaderLine_def)
    with l(1) e show False by (simp only: k diff_Suc_1) simp
  qed
  moreover have "10 \<notin> set (take k rest)" using lt(2) set_take_subset_set_take [of k nl rest] by (auto simp: k)
  moreover have "pos + length (take k rest) + 2 = pos + nl + 1" using lt(1) by (simp add: k)
  ultimately show thesis using line [of "take k rest" "drop (nl + 1) rest" key v h1 sh1 te1] l by (simp add: k)
qed

lemma parseHeaders_loop_slots:
  "mx \<le> hslots h \<Longrightarrow> \<exists>h' r. parseHeaders_loop uni mx rest pos h sh te = Some (h', r)"
proof (induction rest arbitrary: pos h sh te rule: measure_induct_rule [of length])
  case (less rest)
  have step: "\<exists>h' r. parseHeaders_loop uni mx (drop (Suc nl) rest) p (h1\<lparr>headers := hs\<rparr>) sh1 te1 = Some (h', r)"
    if "rest \<noteq> []" "applyKnown uni key v h sh te = Some (h1, sh1, te1)" for nl p key v h1 hs sh1 te1
    using that less applyKnown_frame(2) [OF that(2)] by simp
  show ?case
    using less.prems step applyKnown_frame(2)
    by (subst parseHeaders_loop.simps) (fastforce simp: hcount_def split: option.splits prod.splits)
qed

text \<open>The wire form of a list of lines.\<close>

definition wireLines :: "bytes list \<Rightarrow> bytes" where
  "wireLines ls = concat (map (\<lambda>l. l @ [13, 10]) ls)"

lemma parseHeaders_loop_sound:
  assumes "parseHeaders_loop uni mx rest pos h sh te = Some (h', Inr (n, sh'))" and "head_inv h sh te" and "length (headers h) \<le> mx"
  shows "\<exists>ls te'. pos \<le> n \<and> n \<le> pos + length rest \<and> take (n - pos) rest = wireLines ls @ [13, 10] \<and>
    (\<exists>new. headers h' = headers h @ new \<and> map splitHeaderLine ls = map (\<lambda>x. Some (hKey x, hVal x)) new) \<and>
    head_inv h' sh' te' \<and> length (headers h') \<le> mx \<and> Proto h' = Proto h"
  using assms
proof (induction rest arbitrary: pos h sh te rule: measure_induct_rule [of length])
  case (less rest)
  from less.prems(1) show ?case
  proof (cases rule: parseHeaders_loop_cases)
    case (blank r)
    then show ?thesis using less.prems(2,3) by (intro exI [of _ "[]"] exI [of _ te]) (simp add: wireLines_def)
  next
    case (line l r key v h1 sh1 te1)
    have f: "headers h1 = headers h" "Proto h1 = Proto h" using applyKnown_frame [OF line(5)] by simp_all
    have "validToken key" "list_all valueByte v" using splitHeaderLine_ok [OF line(4)] by simp_all
    from less.IH [OF _ line(7) applyKnown_inv [OF less.prems(2) this line(5)]] line(1,6)
    obtain ls te' new where ih: "pos + length l + 2 \<le> n" "n \<le> pos + length l + 2 + length r"
        "take (n - (pos + length l + 2)) r = wireLines ls @ [13, 10]"
        "headers h' = headers h @ [\<lparr>hKey = key, hVal = v\<rparr>] @ new"
        "map splitHeaderLine ls = map (\<lambda>x. Some (hKey x, hVal x)) new"
        "head_inv h' sh' te'" "length (headers h') \<le> mx" "Proto h' = Proto h"
      by (auto simp: f)
    obtain m where m: "n = pos + length l + 2 + m" using ih(1) le_Suc_ex by blast
    have "take (n - pos) rest = take (length (l @ [13, 10]) + m) ((l @ [13, 10]) @ r)" by (simp add: m line(1))
    also have "\<dots> = (l @ [13, 10]) @ take m r" by (simp only: take_append) simp
    also have "take m r = wireLines ls @ [13, 10]" using ih(3) by (simp add: m)
    finally have "take (n - pos) rest = wireLines (l # ls) @ [13, 10]" by (simp add: wireLines_def)
    with ih line(1,4) show ?thesis
      by (intro exI [of _ "l # ls"] exI [of _ te']) simp
  qed
qed

text \<open>
  C2: A header block that is accepted is a sequence of CRLF-terminated lines and a blank line, one
  header per line, each with a token as its name and no control character in its value, at most as
  many as the limit. What a proxy in front of the server could read differently is excluded: there
  is at most one Host field, and exactly one in HTTP/1.1; at most one Transfer-Encoding field, and the
  body is chunked just when this field is the single coding \<open>chunked\<close>; all Content-Length fields
  denote the length the server uses; and no request has both a chunked body and a length.
\<close>

theorem parseHeaders_no_smuggling:
  assumes "parseHeadersWithLimit uni src h maxCount = Some (h', n, None)"
    and "\<not> HasContentLength h" and "\<not> Chunked h"
  shows "n \<le> length src \<and>
    (\<exists>ls. take n src = wireLines ls @ [13, 10] \<and> map splitHeaderLine ls = map (\<lambda>x. Some (hKey x, hVal x)) (headers h')) \<and>
    int (length (headers h')) \<le> (if maxCount \<le> 0 then int maxHeaders else maxCount) \<and>
    (\<forall>x \<in> set (headers h'). validToken (hKey x) \<and> list_all valueByte (hVal x)) \<and>
    length (filter (named ''host'') (headers h')) \<le> 1 \<and>
    (Proto h' = strHTTP11 \<longrightarrow> length (filter (named ''host'') (headers h')) = 1) \<and>
    length (filter (named ''transfer-encoding'') (headers h')) \<le> 1 \<and>
    (Chunked h' \<longleftrightarrow> list_ex (\<lambda>x. named ''transfer-encoding'' x \<and> parseTransferCoding (hVal x) = (True, True)) (headers h')) \<and>
    (HasContentLength h' \<longleftrightarrow> list_ex (named ''content-length'') (headers h')) \<and>
    (\<forall>x \<in> set (headers h'). named ''content-length'' x \<longrightarrow> parseContentLength (hVal x) = Some (ContentLength h')) \<and>
    \<not> (Chunked h' \<and> HasContentLength h')"
proof -
  define mx where "mx = (if maxCount \<le> 0 then maxHeaders else nat maxCount)"
  define h0 where "h0 = (if hcap h < mx then h\<lparr>hslots := mx, hcap := mx\<rparr> else h)\<lparr>headers := []\<rparr>"
  from assms(1) obtain sh where loop: "parseHeaders_loop uni mx src 0 h0 False False = Some (h', Inr (n, sh))"
      "\<not> (Chunked h' \<and> HasContentLength h')" "Proto h' = strHTTP11 \<longrightarrow> sh"
    unfolding parseHeadersWithLimit_def Let_def mx_def [symmetric] h0_def [symmetric]
    by (auto split: option.splits sum.splits if_splits)
  have "head_inv h0 False False" using assms(2,3) by (simp add: head_inv_def h0_def)
  from parseHeaders_loop_sound [OF loop(1) this] obtain ls te where s: "n \<le> length src" "take n src = wireLines ls @ [13, 10]"
      "map splitHeaderLine ls = map (\<lambda>x. Some (hKey x, hVal x)) (headers h')" "head_inv h' sh te" "length (headers h') \<le> mx"
    by (auto simp: h0_def)
  have "int (length (headers h')) \<le> (if maxCount \<le> 0 then int maxHeaders else maxCount)"
    using s(5) by (auto simp: mx_def split: if_splits)
  with s loop(2,3) show ?thesis by (auto simp: head_inv_def)
qed

definition sampleHead :: bytes where
  "sampleHead = wireLines [s2b ''Host: a'', s2b ''Content-Length:  5 '', s2b ''X-Y: z''] @ [13, 10, 1, 2]"

theorem parseHeaders_no_smuggling_witness:
  "case parseHeadersWithLimit (\<lambda>_ _. False) sampleHead ((Init zeroHeader)\<lparr>Proto := strHTTP11\<rparr>) 0 of
     Some (h', n, e) \<Rightarrow> e = None \<and> n = 40 \<and> length (filter (named ''host'') (headers h')) = 1 \<and> \<not> Chunked h' \<and> ContentLength h' = 5
   | None \<Rightarrow> False"
proof -
  let ?h = "(Init zeroHeader)\<lparr>Proto := strHTTP11\<rparr>"
  let ?r = "parseHeadersWithLimit (\<lambda>_ _. False) sampleHead ?h 0"
  have e: "case ?r of Some (h', n, e) \<Rightarrow> n = 40 \<and> e = None \<and> ContentLength h' = 5 \<and> HasContentLength h' \<and> Proto h' = strHTTP11 | None \<Rightarrow> False"
    by code_simp
  then obtain h' where h': "?r = Some (h', 40, None)" "ContentLength h' = 5" "HasContentLength h'" "Proto h' = strHTTP11"
    by (auto split: option.splits)
  have "\<not> HasContentLength ?h" "\<not> Chunked ?h" by (simp_all add: Init_def reset_def resetRetained_def)
  from parseHeaders_no_smuggling [OF h'(1) this] h' show ?thesis by auto
qed

section \<open>Printing and parsing\<close>

definition headerLine :: "Header \<Rightarrow> bytes" where
  "headerLine x = hKey x @ s2b '': '' @ hVal x"

definition trimmed :: "bytes \<Rightarrow> bool" where
  "trimmed v \<longleftrightarrow> v = [] \<or> \<not> isOWS (hd v) \<and> \<not> isOWS (last v)"

definition printable :: "Header \<Rightarrow> bool" where
  "printable x \<longleftrightarrow> validToken (hKey x) \<and> list_all valueByte (hVal x) \<and> trimmed (hVal x)"

lemma token_no_colon: "validToken k \<Longrightarrow> 58 \<notin> set k"
  by (auto simp: validToken_def list_all_iff tokenByte_def forbiddenTokenByte_def)

lemma trimOWSRight_id: "v = [] \<or> \<not> isOWS (last v) \<Longrightarrow> trimOWSRight v = v"
  by (cases v rule: rev_cases) (simp_all add: trimOWSRight_def)

lemma splitHeaderLine_print:
  assumes "printable x"
  shows "splitHeaderLine (headerLine x) = Some (hKey x, hVal x)"
proof -
  have i: "indexByte (hKey x @ 58 # 32 # hVal x) 58 = Some (length (hKey x))"
    using assms token_no_colon by (intro indexByte_append_notin) (auto simp: printable_def)
  have "hKey x \<noteq> []" using assms by (auto simp: printable_def validToken_def)
  moreover have "dropWhile isOWS (32 # hVal x) = hVal x"
    using assms by (cases "hVal x") (auto simp: printable_def trimmed_def isOWS_def)
  moreover have "trimOWSRight (hVal x) = hVal x" using assms by (intro trimOWSRight_id) (auto simp: printable_def trimmed_def)
  ultimately show ?thesis
    using assms i by (simp add: splitHeaderLine_def headerLine_def printable_def Let_def)
qed

text \<open>The effect of a list of headers on the fields of the request header.\<close>

fun applyAll :: "(bytes \<Rightarrow> bytes \<Rightarrow> bool) \<Rightarrow> Header list \<Rightarrow> RequestHeader \<Rightarrow> bool \<Rightarrow> bool \<Rightarrow> (RequestHeader \<times> bool) option" where
  "applyAll uni [] h sh te = Some (h, sh)"
| "applyAll uni (x # xs) h sh te =
     (case applyKnown uni (hKey x) (hVal x) h sh te of
        None \<Rightarrow> None
      | Some (h1, sh1, te1) \<Rightarrow> applyAll uni xs (h1\<lparr>headers := headers h1 @ [x]\<rparr>) sh1 te1)"

lemma parseHeaders_loop_print:
  assumes "list_all printable xs" and "applyAll uni xs h sh te = Some (h', sh')"
    and "length (headers h) + length xs \<le> mx" and "mx \<le> hslots h"
  shows "parseHeaders_loop uni mx (wireLines (map headerLine xs) @ [13, 10] @ rest) pos h sh te =
    Some (h', Inr (pos + length (wireLines (map headerLine xs)) + 2, sh'))"
  using assms
proof (induction xs arbitrary: pos h sh te)
  case Nil
  then show ?case by (simp add: wireLines_def parseHeaders_loop.simps)
next
  case (Cons x xs)
  let ?l = "headerLine x" and ?r = "wireLines (map headerLine xs) @ [13, 10] @ rest"
  obtain h1 sh1 te1 where a: "applyKnown uni (hKey x) (hVal x) h sh te = Some (h1, sh1, te1)"
      "applyAll uni xs (h1\<lparr>headers := headers h1 @ [x]\<rparr>) sh1 te1 = Some (h', sh')"
    using Cons.prems(2) by (auto split: option.splits)
  have f: "headers h1 = headers h" "hslots h1 = hslots h" using applyKnown_frame [OF a(1)] by simp_all
  have p: "printable x" using Cons.prems(1) by simp
  have x: "\<lparr>hKey = hKey x, hVal = hVal x\<rparr> = x" by (cases x) simp
  have hd: "hd ?l \<noteq> 13" "\<not> isOWS (hd ?l)" "?l \<noteq> []"
    using p by (cases "hKey x"; auto simp: printable_def validToken_def headerLine_def tokenByte_def isOWS_def)+
  have "10 \<notin> set ?l"
    using p by (auto simp: printable_def validToken_def headerLine_def tokenByte_def valueByte_def list_all_iff)
  then have i: "indexByte ((?l @ [13]) @ 10 # ?r) 10 = Some (Suc (length ?l))"
    using indexByte_append_notin [of 10 "?l @ [13]" ?r] by simp
  have "parseHeaders_loop uni mx (?l @ [13, 10] @ ?r) pos h sh te =
      parseHeaders_loop uni mx ?r (pos + length ?l + 2) (h1\<lparr>headers := headers h1 @ [x]\<rparr>) sh1 te1"
    using hd i splitHeaderLine_print [OF p] a(1) Cons.prems(3,4) f
    by (subst parseHeaders_loop.simps) (simp add: hcount_def nth_append x)
  also have "\<dots> = Some (h', Inr (pos + length ?l + 2 + length (wireLines (map headerLine xs)) + 2, sh'))"
    using Cons.prems f a(2) by (intro Cons.IH) auto
  finally show ?case by (simp add: wireLines_def algebra_simps)
qed

text \<open>
  C15: A header block printed from well-formed headers, one \<open>name: value\<close> line each, is accepted
  whatever follows it when the headers fit the limit and agree among each other; all headers
  come back in their order and the block's length is reported.
\<close>

theorem parseHeaders_roundtrip:
  assumes "list_all printable xs" and "int (length xs) \<le> maxCount" and "maxCount \<le> int (hslots h)" and "hslots h \<le> hcap h"
    and "applyAll uni xs (h\<lparr>headers := []\<rparr>) False False = Some (h', seenHost)"
    and "\<not> (Chunked h' \<and> HasContentLength h')" and "Proto h = strHTTP11 \<longrightarrow> seenHost" and "0 < maxCount"
  shows "parseHeadersWithLimit uni (wireLines (map headerLine xs) @ [13, 10] @ rest) h maxCount =
      Some (h', length (wireLines (map headerLine xs)) + 2, None) \<and> headers h' = xs"
proof -
  define mx where "mx = nat maxCount"
  have mx: "(if maxCount \<le> 0 then maxHeaders else nat maxCount) = mx" using assms(8) by (simp add: mx_def)
  have "\<not> hcap h < mx" using assms(3,4) by (simp add: mx_def)
  then have h0: "(if hcap h < mx then h\<lparr>hslots := mx, hcap := mx\<rparr> else h) = h" by simp
  have fr: "headers h' = headers g @ xs \<and> Proto h' = Proto g" if "applyAll uni xs g sh te = Some (h', sh')" for g sh te sh'
    using that
  proof (induction xs arbitrary: g sh te)
    case (Cons x xs)
    then obtain h1 sh1 te1 where a: "applyKnown uni (hKey x) (hVal x) g sh te = Some (h1, sh1, te1)"
        "applyAll uni xs (h1\<lparr>headers := headers h1 @ [x]\<rparr>) sh1 te1 = Some (h', sh')" by (auto split: option.splits)
    show ?case using Cons.IH [OF a(2)] applyKnown_frame [OF a(1)] by simp
  qed simp
  have "parseHeaders_loop uni mx (wireLines (map headerLine xs) @ [13, 10] @ rest) 0 (h\<lparr>headers := []\<rparr>) False False =
      Some (h', Inr (0 + length (wireLines (map headerLine xs)) + 2, seenHost))"
    by (rule parseHeaders_loop_print) (use assms(1,2,3,5) in \<open>auto simp: mx_def\<close>)
  moreover have "headers h' = xs" "Proto h' = Proto h" using fr [OF assms(5)] by simp_all
  ultimately show ?thesis
    using assms(6,7) unfolding parseHeadersWithLimit_def Let_def mx h0 by auto
qed

theorem parseHeaders_roundtrip_witness:
  "case parseHeadersWithLimit (\<lambda>_ _. False) (wireLines (map headerLine [\<lparr>hKey = s2b ''Host'', hVal = s2b ''a''\<rparr>, \<lparr>hKey = s2b ''X'', hVal = []\<rparr>]) @ [13, 10] @ [7])
      ((Init zeroHeader)\<lparr>Proto := strHTTP11\<rparr>) 64 of
     Some (h', n, e) \<Rightarrow> e = None \<and> headers h' = [\<lparr>hKey = s2b ''Host'', hVal = s2b ''a''\<rparr>, \<lparr>hKey = s2b ''X'', hVal = []\<rparr>] | None \<Rightarrow> False"
proof -
  let ?xs = "[\<lparr>hKey = s2b ''Host'', hVal = s2b ''a''\<rparr>, \<lparr>hKey = s2b ''X'', hVal = []\<rparr>]"
  let ?h = "(Init zeroHeader)\<lparr>Proto := strHTTP11\<rparr>"
  have "case applyAll (\<lambda>_ _. False) ?xs (?h\<lparr>headers := []\<rparr>) False False of
      Some (h', sh) \<Rightarrow> sh \<and> \<not> Chunked h' | None \<Rightarrow> False" by code_simp
  then obtain h' where "applyAll (\<lambda>_ _. False) ?xs (?h\<lparr>headers := []\<rparr>) False False = Some (h', True)" "\<not> Chunked h'"
    by (auto split: option.splits)
  moreover have "list_all printable ?xs" by code_simp
  moreover have "64 \<le> int (hslots ?h)" "hslots ?h \<le> hcap ?h" by (simp_all add: Init_def reset_def resetRetained_def maxHeaders_def)
  ultimately show ?thesis
    using parseHeaders_roundtrip [of ?xs 64 ?h "\<lambda>_ _. False" h' True "[7]"] by simp
qed

text \<open>
  C39: The parser never indexes outside the slot array: from a header whose slots are all of its
  capacity, as \<open>Init\<close> makes it, and for every input and every limit, it returns a result.
\<close>

theorem parseHeaders_returns:
  assumes "hslots h = hcap h"
  shows "\<exists>h' n e. parseHeadersWithLimit uni src h maxCount = Some (h', n, e)"
proof -
  define mx where "mx = (if maxCount \<le> 0 then maxHeaders else nat maxCount)"
  define h0 where "h0 = (if hcap h < mx then h\<lparr>hslots := mx, hcap := mx\<rparr> else h)\<lparr>headers := []\<rparr>"
  have "mx \<le> hslots h0" using assms by (simp add: h0_def)
  then obtain h' r where "parseHeaders_loop uni mx src 0 h0 False False = Some (h', r)"
    using parseHeaders_loop_slots by blast
  then show ?thesis
    unfolding parseHeadersWithLimit_def Let_def mx_def [symmetric] h0_def [symmetric] by (cases r) auto
qed

theorem parseHeaders_returns_witness:
  "\<exists>h' n e. parseHeadersWithLimit (\<lambda>_ _. False) sampleHead (Init zeroHeader) 3 = Some (h', n, e)"
  by (rule parseHeaders_returns) (simp add: Init_def reset_def resetRetained_def)

end
