(* ===== verification/Http_Header_Store.thy ===== *)
theory Http_Header_Store
  imports Http_Request_Correct
begin

text \<open>
  The header store of a request as a multimap from names, compared without regard to case, to lists
  of values: what \<open>Add\<close>, \<open>Del\<close> and \<open>Set\<close> do to \<open>Values\<close>, \<open>Get\<close> and the mirrored fields. The contract is
  the locale \<open>multimap\<close>; its client lemma about replacing a value is used for \<open>Set\<close>.
\<close>

section \<open>The contract of a multimap\<close>

locale multimap =
  fixes vals :: "'s \<Rightarrow> 'k \<Rightarrow> 'v list"
    and add :: "'s \<Rightarrow> 'k \<Rightarrow> 'v \<Rightarrow> 's"
    and del :: "'s \<Rightarrow> 'k \<Rightarrow> 's"
    and inv :: "'s \<Rightarrow> bool"
    and room :: "'s \<Rightarrow> bool"
    and same :: "'k \<Rightarrow> 'k \<Rightarrow> bool"
    and ok :: "'k \<Rightarrow> 'v \<Rightarrow> bool"
  assumes vals_add: "inv s \<Longrightarrow> room s \<Longrightarrow> ok k v \<Longrightarrow> vals (add s k v) k' = vals s k' @ (if same k k' then [v] else [])"
    and vals_del: "inv s \<Longrightarrow> vals (del s k) k' = (if same k k' then [] else vals s k')"
    and inv_add: "inv s \<Longrightarrow> inv (add s k v)"
    and inv_del: "inv s \<Longrightarrow> inv (del s k)"
    and room_del: "inv s \<Longrightarrow> room s \<Longrightarrow> room (del s k)"
begin

lemma vals_replace:
  assumes "inv s" and "room (del s k)" and "ok k v"
  shows "vals (add (del s k) k v) k' = (if same k k' then [v] else vals s k')"
  using vals_add [OF inv_del [OF assms(1)] assms(2,3)] vals_del [OF assms(1)] by simp

lemma inv_replace: "inv s \<Longrightarrow> inv (add (del s k) k v)"
  by (simp add: inv_add inv_del)

end

section \<open>The request header is one\<close>

lemma find_filter_singleton: "map f (filter P xs) = [v] \<Longrightarrow> \<exists>x. find P xs = Some x \<and> f x = v"
  by (induction xs) (auto split: if_splits)

text \<open>On ASCII strings the library's case folding is the same relation.\<close>

definition isUpper :: "byte \<Rightarrow> bool" where
  "isUpper c \<longleftrightarrow> c \<ge> ch CHR ''A'' \<and> c \<le> ch CHR ''Z''"

lemma foldByte_upper: "isUpper c \<longrightarrow> c OR 0x20 = c + 32 \<and> \<not> isUpper (c + 32)"
  by (rule byte_exhaust [of "\<lambda>c. isUpper c \<longrightarrow> c OR 0x20 = c + 32 \<and> \<not> isUpper (c + 32)"]) code_simp

lemma foldByte_eq: "foldByte c = foldByte d \<longleftrightarrow> c = d \<or> (isUpper c \<and> d = c + 32) \<or> (isUpper d \<and> c = d + 32)"
  using foldByte_upper [of c] foldByte_upper [of d] unfolding foldByte_def isUpper_def [symmetric]
  by (cases "isUpper c"; cases "isUpper d") auto

lemma EqualFold_ascii:
  assumes "list_all (\<lambda>c. c < 0x80) s" and "list_all (\<lambda>c. c < 0x80) t"
  shows "EqualFold uni s t \<longleftrightarrow> strEqFold s t"
  using assms
  by (induction uni s t rule: EqualFold.induct)
     (auto simp: strEqFold_iff foldByte_eq isUpper_def not_le [symmetric])

definition token_keys :: "RequestHeader \<Rightarrow> bool" where
  "token_keys h \<longleftrightarrow> list_all (\<lambda>x. validToken (hKey x)) (headers h)"

definition has_room :: "RequestHeader \<Rightarrow> bool" where
  "has_room h \<longleftrightarrow> hcount h < maxHeaders"

definition field_ok :: "bytes \<Rightarrow> bytes \<Rightarrow> bool" where
  "field_ok name val \<longleftrightarrow> validToken name \<and> \<not> stringsContainsCTL val"

lemma Values_fold:
  "token_keys h \<Longrightarrow> Values h name = map hVal (filter (\<lambda>x. strEqFold (hKey x) name) (headers h))"
proof -
  assume "token_keys h"
  then have "strBytesEqualFold name (hKey x) \<longleftrightarrow> strEqFold (hKey x) name" if "x \<in> set (headers h)" for x
    using that strBytesEqualFold_iff [OF validToken_ascii, of "hKey x" name]
    by (auto simp: token_keys_def list_all_iff strEqFold_iff)
  then show ?thesis by (simp add: Values_def cong: filter_cong)
qed

lemma syncKnownHeader_headers [simp]: "headers (syncKnownHeader uni h n v) = headers h"
  by (simp add: syncKnownHeader_def split: option.split)

lemma appendSlot_headers [simp]: "headers (appendSlot grow h) = headers h"
  by (simp add: appendSlot_def)

lemma Add_headers:
  "headers (Add uni grow h n v) = (if field_ok n v \<and> has_room h then headers h @ [\<lparr>hKey = n, hVal = v\<rparr>] else headers h)"
  by (simp add: Add_def field_ok_def has_room_def Let_def)

lemma Del_headers: "headers (Del uni h n) = filter (\<lambda>x. \<not> strBytesEqualFold n (hKey x)) (headers h)"
  by (simp add: Del_def Let_def)

interpretation header_store: multimap Values "Add uni grow" "Del uni" token_keys has_room strEqFold field_ok for uni grow
proof unfold_locales
  fix s :: RequestHeader and k v k' :: bytes
  assume inv: "token_keys s"
  then have del: "token_keys (Del uni s k)" by (auto simp: token_keys_def Del_headers list_all_iff)
  then show "token_keys (Del uni s k)" .
  show add: "token_keys (Add uni grow s k v)" using inv by (auto simp: token_keys_def Add_headers field_ok_def)
  show "has_room s \<Longrightarrow> has_room (Del uni s k)"
    using le_less_trans [OF length_filter_le] by (auto simp: has_room_def hcount_def Del_headers)
  show "Values (Add uni grow s k v) k' = Values s k' @ (if strEqFold k k' then [v] else [])" if "has_room s" "field_ok k v"
    using that by (simp add: Values_fold [OF add] Values_fold [OF inv] Add_headers)
  have "strBytesEqualFold k (hKey x) \<longleftrightarrow> strEqFold (hKey x) k" if "x \<in> set (headers s)" for x
    using that inv strBytesEqualFold_iff [OF validToken_ascii, of "hKey x" k]
    by (auto simp: token_keys_def list_all_iff strEqFold_iff)
  then have "headers (Del uni s k) = filter (\<lambda>x. \<not> strEqFold (hKey x) k) (headers s)"
    by (simp add: Del_headers cong: filter_cong)
  then show "Values (Del uni s k) k' = (if strEqFold k k' then [] else Values s k')"
    by (auto simp: Values_fold [OF del] Values_fold [OF inv] strEqFold_iff intro!: arg_cong [of _ _ "map hVal"] filter_cong)
qed

text \<open>
  C30: \<open>Set\<close> replaces: for a token as the name and a value without line breaks, and with room for one
  header, afterwards the name, in any spelling, has just this value and every other name has the
  values it had; \<open>Get\<close> returns the new value; and a Host or Content-Type is mirrored in the field the
  server itself reads.
\<close>

theorem Set_replaces:
  assumes "token_keys h" and "hcount (Del uni h name) < maxHeaders" and "validToken name" and "\<not> stringsContainsCTL val"
  shows "Values (hdr_Set uni grow h name val) name' = (if strEqFold name name' then [val] else Values h name') \<and>
    token_keys (hdr_Set uni grow h name val) \<and>
    (strEqFold name name' \<longrightarrow> PeekStr (hdr_Set uni grow h name val) name' = val) \<and>
    (strEqFold name (s2b ''host'') \<longrightarrow> Host (hdr_Set uni grow h name val) = val) \<and>
    (strEqFold name (s2b ''content-type'') \<longrightarrow> ContentType (hdr_Set uni grow h name val) = val)"
proof -
  let ?h = "hdr_Set uni grow h name val"
  have ok: "field_ok name val" "has_room (Del uni h name)" using assms by (simp_all add: field_ok_def has_room_def)
  have v: "Values ?h n = (if strEqFold name n then [val] else Values h n)" for n
    unfolding hdr_Set_def by (rule header_store.vals_replace [OF assms(1) ok(2,1)])
  have inv: "token_keys ?h" unfolding hdr_Set_def by (rule header_store.inv_replace [OF assms(1)])
  have peek: "PeekStr ?h n = val" if "strEqFold name n" for n
  proof -
    have vs: "map hVal (filter (\<lambda>x. strBytesEqualFold n (hKey x)) (headers ?h)) = [val]"
      using v [of n] that by (simp add: Values_def)
    obtain x where "find (\<lambda>x. strBytesEqualFold n (hKey x)) (headers ?h) = Some x" "hVal x = val"
      using find_filter_singleton [OF vs] by blast
    then show ?thesis by (simp add: PeekStr_def peekStr_def)
  qed
  have ascii: "list_all (\<lambda>c. c < 0x80) name" by (rule validToken_ascii [OF assms(3)])
  have ef: "EqualFold uni name (s2b ''Host'') = strEqFold name (s2b ''host'')"
      "EqualFold uni name (s2b ''Content-Type'') = strEqFold name (s2b ''content-type'')"
    using EqualFold_ascii [OF ascii, of "s2b ''Host''" uni] EqualFold_ascii [OF ascii, of "s2b ''Content-Type''" uni]
    by (simp_all add: strEqFold_iff foldByte_def)
  have excl: "strEqFold name (s2b ''content-type'') \<Longrightarrow> \<not> strEqFold name (s2b ''host'')"
    by (auto simp: strEqFold_def split: if_splits)
  have "Host ?h = val" if "strEqFold name (s2b ''host'')"
    using that assms(2-4) ef by (simp add: hdr_Set_def Add_def syncKnownHeader_def Let_def del: s2b_Cons)
  moreover have "ContentType ?h = val" if "strEqFold name (s2b ''content-type'')"
    using that assms(2-4) ef excl by (simp add: hdr_Set_def Add_def syncKnownHeader_def Let_def del: s2b_Cons)
  ultimately show ?thesis using v inv peek by blast
qed

theorem Set_replaces_witness:
  "Values (hdr_Set (\<lambda>_ _. False) (\<lambda>n. 2 * n) (Init zeroHeader) (s2b ''X-A'') (s2b ''1'')) (s2b ''x-a'') = [s2b ''1''] \<and>
   Values (hdr_Set (\<lambda>_ _. False) (\<lambda>n. 2 * n) (Init zeroHeader) (s2b ''X-A'') (s2b ''1'')) (s2b ''x-b'') = []"
proof -
  have 1: "token_keys (Init zeroHeader)" by (simp add: token_keys_def Init_def reset_def resetRetained_def)
  have 2: "hcount (Del (\<lambda>_ _. False) (Init zeroHeader) (s2b ''X-A'')) < maxHeaders"
    by (simp add: hcount_def Del_headers Init_def reset_def resetRetained_def maxHeaders_def)
  have 3: "validToken (s2b ''X-A'')" "\<not> stringsContainsCTL (s2b ''1'')" "strEqFold (s2b ''X-A'') (s2b ''x-a'')"
      "\<not> strEqFold (s2b ''X-A'') (s2b ''x-b'')" by code_simp+
  have "Values (Init zeroHeader) n = []" for n by (simp add: Values_def Init_def reset_def resetRetained_def)
  then show ?thesis using Set_replaces [OF 1 2 3(1,2)] 3(3,4) by simp
qed

end
