(* ===== verification/Http_Chunked.thy ===== *)
theory Http_Chunked
  imports Http_Request
begin

text \<open>
  Chunked request bodies (\<open>src/chunked.go\<close>). The connection is the list of the answers its \<open>Read\<close>
  gives, each the bytes read and an error, and the end of the stream after the last of them; \<open>buf\<close> is
  \<open>wire[pos:]\<close>, the bytes received and not consumed. \<open>reserve\<close> is the callback that admits a chunk,
  a function on a state of its own. The result is an error or body, left-over and trailers;
  \<^term>\<open>None\<close> is a panic (a slice out of range).
\<close>

section \<open>Reading\<close>

datatype 'e body_error =
    ErrInvalidChunkedBody | ErrBodyTooLarge | ErrBufferedBodyBudget | ErrNoProgress | ErrEOF | ConnError 'e

type_synonym 'e reads = "(bytes \<times> 'e option) list"

definition maxChunkLine :: nat where
  "maxChunkLine = 4096"

text \<open>Go's \<open>int\<close>: 64-bit two's complement.\<close>

definition goInt :: "int \<Rightarrow> int" where
  "goInt x = (x + 2 ^ 63) mod 2 ^ 64 - 2 ^ 63"

fun readMore :: "'e reads \<Rightarrow> 'e body_error + (bytes \<times> 'e reads)" where
  "readMore [] = Inl ErrEOF"
| "readMore ((bs, err) # rs) =
     (if length bs > 0 then Inr (bs, rs)
      else case err of Some e \<Rightarrow> Inl (ConnError e) | None \<Rightarrow> Inl ErrNoProgress)"

fun findCRLF :: "bytes \<Rightarrow> nat option" where
  "findCRLF (a # b # xs) = (if a = 13 \<and> b = 10 then Some 0 else map_option Suc (findCRLF (b # xs)))"
| "findCRLF _ = None"

lemma readMore_shorter: "readMore rs = Inr (bs, rs') \<Longrightarrow> length rs' < length rs"
  by (cases rs) (auto split: if_splits option.splits)

function readLine :: "bytes \<Rightarrow> 'e reads \<Rightarrow> 'e body_error + (bytes \<times> bytes \<times> 'e reads)" where
  "readLine buf rs =
     (case findCRLF buf of
        Some i \<Rightarrow> Inr (take i buf, drop (i + 2) buf, rs)
      | None \<Rightarrow>
          if length buf > maxChunkLine then Inl ErrInvalidChunkedBody
          else case readMore rs of
            Inl e \<Rightarrow> Inl e
          | Inr (bs, rs') \<Rightarrow> readLine (buf @ bs) rs')"
  by pat_completeness auto
termination
  by (relation "measure (\<lambda>(buf, rs). length rs)") (auto dest: readMore_shorter)

declare readLine.simps [simp del]

function ensure :: "int \<Rightarrow> bytes \<Rightarrow> 'e reads \<Rightarrow> 'e body_error + (bytes \<times> 'e reads)" where
  "ensure n buf rs =
     (if int (length buf) < n then
        (case readMore rs of
           Inl e \<Rightarrow> Inl e
         | Inr (bs, rs') \<Rightarrow> ensure n (buf @ bs) rs')
      else Inr (buf, rs))"
  by pat_completeness auto
termination
  by (relation "measure (\<lambda>(n, buf, rs). length rs)") (auto dest: readMore_shorter)

declare ensure.simps [simp del]

text \<open>The bytes that are still to come.\<close>

definition incoming :: "'e reads \<Rightarrow> bytes" where
  "incoming rs = concat (map fst rs)"

lemma readMore_incoming: "readMore rs = Inr (bs, rs') \<Longrightarrow> incoming rs = bs @ incoming rs'"
  by (cases rs) (auto simp: incoming_def split: if_splits option.splits)

lemma findCRLF_SomeD: "findCRLF buf = Some i \<Longrightarrow> \<exists>line rest. buf = line @ [13, 10] @ rest \<and> length line = i"
proof (induction buf arbitrary: i rule: findCRLF.induct)
  case (1 a b xs)
  show ?case
  proof (cases "a = 13 \<and> b = 10")
    case True
    with 1 show ?thesis by auto
  next
    case False
    with 1 obtain j line rest where "i = Suc j" "b # xs = line @ [13, 10] @ rest" "length line = j" by auto
    then show ?thesis by (intro exI [of _ "a # line"] exI [of _ rest]) simp
  qed
qed simp_all

lemma readLine_ok:
  "readLine buf rs = Inr (line, buf', rs') \<Longrightarrow> buf @ incoming rs = line @ [13, 10] @ buf' @ incoming rs'"
proof (induction buf rs rule: readLine.induct)
  case (1 buf rs)
  show ?case
  proof (cases "findCRLF buf")
    case None
    with 1 show ?thesis
      by (auto simp: readLine.simps [of buf rs] dest: readMore_incoming split: if_splits sum.splits)
  next
    case (Some i)
    with 1(2) findCRLF_SomeD [OF Some] show ?thesis by (auto simp: readLine.simps [of buf rs])
  qed
qed

lemma ensure_ok: "ensure n buf rs = Inr (buf', rs') \<Longrightarrow> buf @ incoming rs = buf' @ incoming rs' \<and> n \<le> int (length buf')"
proof (induction n buf rs rule: ensure.induct)
  case (1 n buf rs)
  then show ?case
    by (auto simp: ensure.simps [of n buf rs] dest!: readMore_incoming split: if_splits sum.splits)
qed

lemma readLine_less:
  "readLine buf rs = Inr (line, buf', rs') \<Longrightarrow> length (buf' @ incoming rs') < length (buf @ incoming rs)"
  by (drule readLine_ok) simp

section \<open>Decoding\<close>

text \<open>One chunk after its size line: the data and the line end.\<close>

definition takeChunk :: "int \<Rightarrow> bytes \<Rightarrow> 'e reads \<Rightarrow> ('e body_error + (bytes \<times> bytes \<times> 'e reads)) option" where
  "takeChunk sz buf rs =
     (case ensure (goInt (sz + 2)) buf rs of
        Inl e \<Rightarrow> Some (Inl e)
      | Inr (buf, rs) \<Rightarrow>
          if length buf < nat sz + 2 then None
          else if buf ! nat sz \<noteq> 13 \<or> buf ! (nat sz + 1) \<noteq> 10 then Some (Inl ErrInvalidChunkedBody)
          else Some (Inr (take (nat sz) buf, drop (nat sz + 2) buf, rs)))"

lemma takeChunk_le:
  "takeChunk sz buf rs = Some (Inr (data, buf', rs')) \<Longrightarrow> length (buf' @ incoming rs') \<le> length (buf @ incoming rs)"
  by (auto simp: takeChunk_def split: sum.splits if_splits dest!: ensure_ok arg_cong [where f = length])

definition chunkSize :: "bytes \<Rightarrow> int option" where
  "chunkSize line =
     parseHex (trimOWS (case indexByte line (ch CHR '';'') of Some semi \<Rightarrow> take semi line | None \<Rightarrow> line))"

function chunks_loop ::
  "int \<Rightarrow> ('s \<Rightarrow> int \<Rightarrow> 's \<times> bool) option \<Rightarrow> 's \<Rightarrow> bytes \<Rightarrow> 'e reads \<Rightarrow> bytes \<Rightarrow>
   ('s \<times> ('e body_error + (bytes \<times> bytes \<times> 'e reads))) option" where
  "chunks_loop maxBody reserve s buf rs body =
     (case readLine buf rs of
        Inl e \<Rightarrow> Some (s, Inl e)
      | Inr (line, buf1, rs1) \<Rightarrow>
          (case chunkSize line of
             None \<Rightarrow> Some (s, Inl ErrInvalidChunkedBody)
           | Some sz \<Rightarrow>
               if sz = 0 then Some (s, Inr (body, buf1, rs1))
               else if sz > maxBody - int (length body) then Some (s, Inl ErrBodyTooLarge)
               else case (case reserve of None \<Rightarrow> (s, True) | Some r \<Rightarrow> r s sz) of
                 (s', False) \<Rightarrow> Some (s', Inl ErrBufferedBodyBudget)
               | (s', True) \<Rightarrow>
                   (case takeChunk sz buf1 rs1 of
                      None \<Rightarrow> None
                    | Some (Inl e) \<Rightarrow> Some (s', Inl e)
                    | Some (Inr (data, buf2, rs2)) \<Rightarrow> chunks_loop maxBody reserve s' buf2 rs2 (body @ data))))"
  by pat_completeness auto
termination
  by (relation "measure (\<lambda>(_, _, _, buf, rs, _). length (buf @ incoming rs))")
     (auto dest!: readLine_less takeChunk_le)

declare chunks_loop.simps [simp del]

function trailers_loop :: "bytes \<Rightarrow> 'e reads \<Rightarrow> Header list \<Rightarrow> 'e body_error + (Header list \<times> bytes \<times> 'e reads)" where
  "trailers_loop buf rs trailers =
     (case readLine buf rs of
        Inl e \<Rightarrow> Inl e
      | Inr (line, buf1, rs1) \<Rightarrow>
          if length line = 0 then Inr (trailers, buf1, rs1)
          else case indexByte line (ch CHR '':'') of
            None \<Rightarrow> Inl ErrInvalidChunkedBody
          | Some colon \<Rightarrow>
              if colon = 0 \<or> \<not> validToken (take colon line) \<or> length trailers \<ge> maxHeaders then Inl ErrInvalidChunkedBody
              else if bytesEqualFold (take colon line) (s2b ''Content-Length'')
                   \<or> bytesEqualFold (take colon line) (s2b ''Transfer-Encoding'')
                   \<or> bytesEqualFold (take colon line) (s2b ''Host'') then Inl ErrInvalidChunkedBody
              else trailers_loop buf1 rs1
                     (trailers @ [\<lparr>hKey = take colon line, hVal = trimOWS (drop (colon + 1) line)\<rparr>]))"
  by pat_completeness auto
termination
  by (relation "measure (\<lambda>(buf, rs, _). length (buf @ incoming rs))") (auto dest!: readLine_less)

declare trailers_loop.simps [simp del]

record 'e conn =
  deadlineErr :: "'e option"
  reads :: "'e reads"

definition readChunkedBodyWithReserve ::
  "'e conn \<Rightarrow> bytes \<Rightarrow> int \<Rightarrow> int \<Rightarrow> ('s \<Rightarrow> int \<Rightarrow> 's \<times> bool) option \<Rightarrow> 's \<Rightarrow>
   ('s \<times> ('e body_error + (bytes \<times> bytes \<times> Header list \<times> 'e reads))) option" where
  "readChunkedBodyWithReserve conn initial maxBody timeout reserve s =
     (if timeout > 0 \<and> deadlineErr conn \<noteq> None then Some (s, Inl (ConnError (the (deadlineErr conn))))
      else case chunks_loop maxBody reserve s initial (reads conn) [] of
        None \<Rightarrow> None
      | Some (s, Inl e) \<Rightarrow> Some (s, Inl e)
      | Some (s, Inr (body, buf, rs)) \<Rightarrow>
          (case trailers_loop buf rs [] of
             Inl e \<Rightarrow> Some (s, Inl e)
           | Inr (trailers, buf, rs) \<Rightarrow> Some (s, Inr (body, buf, trailers, rs))))"

definition readChunkedBody ::
  "'e conn \<Rightarrow> bytes \<Rightarrow> int \<Rightarrow> int \<Rightarrow> ('e body_error + (bytes \<times> bytes \<times> Header list \<times> 'e reads)) option" where
  "readChunkedBody conn initial maxBody timeout =
     map_option snd (readChunkedBodyWithReserve conn initial maxBody timeout None ())"

section \<open>Independence of segmentation\<close>

lemma findCRLF_append: "findCRLF buf = Some i \<Longrightarrow> findCRLF (buf @ x) = Some i"
  by (induction buf arbitrary: i rule: findCRLF.induct) (auto split: if_splits)

lemma findCRLF_line: "10 \<notin> set line \<Longrightarrow> findCRLF (line @ [13, 10] @ x) = Some (length line)"
proof (induction line)
  case (Cons a line)
  then show ?case by (cases line) auto
qed simp

lemma readLine_all:
  "readLine buf (rs :: 'e reads) = Inr (line, buf', rs') \<Longrightarrow>
   readLine (buf @ incoming rs) ([] :: 'e reads) = Inr (line, buf' @ incoming rs', [])"
proof (induction buf rs rule: readLine.induct)
  case (1 buf rs)
  show ?case
  proof (cases "findCRLF buf")
    case None
    with 1(2) obtain bs rs1 where m: "readMore rs = Inr (bs, rs1)" "readLine (buf @ bs) rs1 = Inr (line, buf', rs')"
        "\<not> maxChunkLine < length buf"
      by (auto simp: readLine.simps [of buf rs] split: if_splits sum.splits)
    from 1(1) [OF None m(3,1) refl m(2)] show ?thesis by (simp add: readMore_incoming [OF m(1)])
  next
    case (Some i)
    have "i + 2 \<le> length buf" using findCRLF_SomeD [OF Some] by auto
    with Some 1(2) findCRLF_append [OF Some, of "incoming rs"] show ?thesis
      by (subst readLine.simps) (auto simp: readLine.simps [of buf rs])
  qed
qed

lemma ensure_all:
  "ensure n buf (rs :: 'e reads) = Inr (buf', rs') \<Longrightarrow> ensure n (buf @ incoming rs) ([] :: 'e reads) = Inr (buf' @ incoming rs', [])"
  using ensure_ok [of n buf rs buf' rs'] by (subst ensure.simps) simp

lemma takeChunk_all:
  assumes "takeChunk sz buf (rs :: 'e reads) = Some (Inr (data, buf', rs'))"
  shows "takeChunk sz (buf @ incoming rs) ([] :: 'e reads) = Some (Inr (data, buf' @ incoming rs', []))"
proof -
  from assms obtain b1 where e: "ensure (goInt (sz + 2)) buf rs = Inr (b1, rs')" "\<not> length b1 < nat sz + 2"
      "b1 ! nat sz = 13" "b1 ! (nat sz + 1) = 10" "data = take (nat sz) b1" "buf' = drop (nat sz + 2) b1"
    by (auto simp: takeChunk_def split: sum.splits if_splits)
  then show ?thesis using ensure_all [OF e(1)] by (simp add: takeChunk_def nth_append)
qed

lemma chunks_loop_cases:
  assumes "chunks_loop mx reserve s buf rs body = Some (s', Inr r)"
  obtains (last) line b1 rs1 where "readLine buf rs = Inr (line, b1, rs1)" "chunkSize line = Some 0" "s' = s" "r = (body, b1, rs1)"
  | (chunk) line b1 rs1 sz s1 data b2 rs2 where "readLine buf rs = Inr (line, b1, rs1)" "chunkSize line = Some sz" "sz \<noteq> 0"
      "sz \<le> mx - int (length body)" "(case reserve of None \<Rightarrow> (s, True) | Some f \<Rightarrow> f s sz) = (s1, True)"
      "takeChunk sz b1 rs1 = Some (Inr (data, b2, rs2))" "chunks_loop mx reserve s1 b2 rs2 (body @ data) = Some (s', Inr r)"
proof -
  from assms obtain line b1 rs1 where l: "readLine buf rs = Inr (line, b1, rs1)"
    by (auto simp: chunks_loop.simps [of mx reserve s buf] split: sum.splits)
  from assms l obtain sz where sz: "chunkSize line = Some sz"
    by (auto simp: chunks_loop.simps [of mx reserve s buf] split: option.splits)
  show thesis
  proof (cases "sz = 0")
    case True
    with assms l sz show thesis by (intro last) (auto simp: chunks_loop.simps [of mx reserve s buf])
  next
    case False
    obtain s1 where g: "\<not> sz > mx - int (length body)" "(case reserve of None \<Rightarrow> (s, True) | Some r \<Rightarrow> r s sz) = (s1, True)"
      using assms l sz False
      by (auto simp: chunks_loop.simps [of mx reserve s buf] split: if_splits prod.splits bool.splits)
    obtain data b2 rs2 where t: "takeChunk sz b1 rs1 = Some (Inr (data, b2, rs2))"
        "chunks_loop mx reserve s1 b2 rs2 (body @ data) = Some (s', Inr r)"
      using assms l sz False g
      by (auto simp: chunks_loop.simps [of mx reserve s buf] split: option.splits sum.splits)
    show thesis using chunk [OF l sz False _ g(2) t] g(1) by simp
  qed
qed

lemma chunks_loop_all:
  "chunks_loop mx reserve s buf (rs :: 'e reads) body = Some (s', Inr (body', buf', rs')) \<Longrightarrow>
   chunks_loop mx reserve s (buf @ incoming rs) ([] :: 'e reads) body = Some (s', Inr (body', buf' @ incoming rs', []))"
proof (induction "length (buf @ incoming rs)" arbitrary: s buf rs body rule: less_induct)
  case less
  from less.prems show ?case
  proof (cases rule: chunks_loop_cases)
    case (last line b1 rs1)
    with readLine_all [OF last(1)] show ?thesis by (subst chunks_loop.simps) simp
  next
    case (chunk line b1 rs1 sz s1 data b2 rs2)
    have "length (b2 @ incoming rs2) < length (buf @ incoming rs)"
      using readLine_less [OF chunk(1)] takeChunk_le [OF chunk(6)] by simp
    from less.hyps [OF this chunk(7)] readLine_all [OF chunk(1)] takeChunk_all [OF chunk(6)] chunk(2-5) show ?thesis
      by (subst chunks_loop.simps) simp
  qed
qed

lemma trailers_loop_all:
  "trailers_loop buf (rs :: 'e reads) ts = Inr (ts', buf', rs') \<Longrightarrow>
   trailers_loop (buf @ incoming rs) ([] :: 'e reads) ts = Inr (ts', buf' @ incoming rs', [])"
proof (induction "length (buf @ incoming rs)" arbitrary: buf rs ts rule: less_induct)
  case less
  from less.prems obtain line b1 rs1 where l: "readLine buf rs = Inr (line, b1, rs1)"
    by (auto simp: trailers_loop.simps [of buf] split: sum.splits)
  have lt: "length (b1 @ incoming rs1) < length (buf @ incoming rs)" by (rule readLine_less [OF l])
  show ?case
    using less.prems less.hyps [OF lt] readLine_all [OF l] l
    by (subst trailers_loop.simps) (auto simp: trailers_loop.simps [of buf] simp del: s2b_Cons split: if_splits option.splits)
qed



section \<open>Bounds and reservations\<close>

lemma chunks_loop_bound:
  "chunks_loop mx reserve s buf rs body = Some (s', Inr (body', buf', rs')) \<Longrightarrow>
   int (length body) \<le> mx \<Longrightarrow> int (length body') \<le> mx"
proof (induction "length (buf @ incoming rs)" arbitrary: s buf rs body rule: less_induct)
  case less
  from less.prems(1) show ?case
  proof (cases rule: chunks_loop_cases)
    case (last line b1 rs1)
    with less.prems(2) show ?thesis by simp
  next
    case (chunk line b1 rs1 sz s1 data b2 rs2)
    have "length (b2 @ incoming rs2) < length (buf @ incoming rs)"
      using readLine_less [OF chunk(1)] takeChunk_le [OF chunk(6)] by simp
    moreover have "length data \<le> nat sz" using chunk(6) by (auto simp: takeChunk_def split: sum.splits if_splits)
    then have "int (length (body @ data)) \<le> mx" using chunk(4) less.prems(2) by (cases "0 \<le> sz") auto
    ultimately show ?thesis using less.hyps chunk(7) by blast
  qed
qed

lemma chunkSize_nonneg: "chunkSize line = Some sz \<Longrightarrow> 0 \<le> sz"
  using hexadecimal.loop_iff [of 0] hexadecimal.val_mono [of _ 0 sz]
  by (auto simp: chunkSize_def parseHex_def maxInt64_def split: if_splits)

lemma chunks_loop_reserved:
  assumes "\<And>s n s'. I s \<Longrightarrow> 0 < n \<Longrightarrow> r s n = (s', True) \<Longrightarrow> m s' = m s + n \<and> I s'"
  shows "chunks_loop mx (Some r) s buf rs body = Some (s', Inr (body', buf', rs')) \<Longrightarrow> I s \<Longrightarrow>
   m s' = m s + (int (length body') - int (length body))"
proof (induction "length (buf @ incoming rs)" arbitrary: s buf rs body rule: less_induct)
  case less
  from less.prems(1) show ?case
  proof (cases rule: chunks_loop_cases)
    case (chunk line b1 rs1 sz s1 data b2 rs2)
    have lt: "length (b2 @ incoming rs2) < length (buf @ incoming rs)"
      using readLine_less [OF chunk(1)] takeChunk_le [OF chunk(6)] by simp
    have "0 \<le> sz" using chunk(2) by (rule chunkSize_nonneg)
    then have "int (length data) = sz" using chunk(6) by (auto simp: takeChunk_def split: sum.splits if_splits)
    moreover have "m s1 = m s + sz \<and> I s1" using assms [OF less.prems(2), of sz s1] chunk(3,5) \<open>0 \<le> sz\<close> by simp
    ultimately show ?thesis using less.hyps [OF lt chunk(7)] by simp
  qed simp
qed

lemma chunks_loop_inv:
  assumes "\<And>s n s'. I s \<Longrightarrow> 0 < n \<Longrightarrow> r s n = (s', True) \<Longrightarrow> I s'"
  shows "chunks_loop mx (Some r) s buf rs body = Some (s', Inr (body', buf', rs')) \<Longrightarrow> I s \<Longrightarrow> I s'"
proof (induction "length (buf @ incoming rs)" arbitrary: s buf rs body rule: less_induct)
  case less
  from less.prems(1) show ?case
  proof (cases rule: chunks_loop_cases)
    case (chunk line b1 rs1 sz s1 data b2 rs2)
    have "0 \<le> sz" using chunk(2) by (rule chunkSize_nonneg)
    then have "I s1" using assms [OF less.prems(2), of sz s1] chunk(3,5) by simp
    moreover have "length (b2 @ incoming rs2) < length (buf @ incoming rs)"
      using readLine_less [OF chunk(1)] takeChunk_le [OF chunk(6)] by simp
    ultimately show ?thesis using less.hyps chunk(7) by blast
  qed (use less.prems(2) in simp)
qed

lemma trailers_loop_count:
  "trailers_loop buf rs ts = Inr (ts', buf', rs') \<Longrightarrow> length ts \<le> maxHeaders \<Longrightarrow> length ts' \<le> maxHeaders"
proof (induction "length (buf @ incoming rs)" arbitrary: buf rs ts rule: less_induct)
  case less
  from less.prems(1) obtain line b1 rs1 where l: "readLine buf rs = Inr (line, b1, rs1)"
    by (auto simp: trailers_loop.simps [of buf] split: sum.splits)
  show ?case
    using less.prems less.hyps [OF readLine_less [OF l]] l
    by (auto simp: trailers_loop.simps [of buf] simp del: s2b_Cons split: if_splits option.splits)
qed

text \<open>
  C26: The decoded body never exceeds the limit, and the reservations granted while it was read are
  its length: with a callback that counts what it grants in the component \<open>m\<close> of its state, the
  count has grown by the length of the body exactly.
\<close>

theorem chunked_body_accounted:
  assumes "readChunkedBodyWithReserve c initial maxBody timeout (Some r) s = Some (s', Inr (body, leftover, trailers, rs))"
    and "0 \<le> maxBody" and "\<And>s n s'. r s n = (s', True) \<Longrightarrow> m s' = m s + n"
  shows "int (length body) \<le> maxBody \<and> m s' = m s + int (length body) \<and> length trailers \<le> maxHeaders"
proof -
  from assms(1) obtain b1 rs1 where l: "chunks_loop maxBody (Some r) s initial (reads c) [] = Some (s', Inr (body, b1, rs1))"
      "trailers_loop b1 rs1 [] = Inr (trailers, leftover, rs)"
    by (auto simp: readChunkedBodyWithReserve_def split: if_splits option.splits sum.splits)
  have "length trailers \<le> maxHeaders" using trailers_loop_count [OF l(2)] by simp
  with chunks_loop_bound [OF l(1)] chunks_loop_reserved [of "\<lambda>_. True" r m, OF _ l(1)] assms(3) assms(2) show ?thesis by simp
qed

theorem chunked_body_accounted_witness:
  "case readChunkedBodyWithReserve \<lparr>deadlineErr = (None :: unit option), reads = []\<rparr> (s2b ''3'' @ [13, 10, 1, 2, 3, 13, 10] @ s2b ''0'' @ [13, 10, 13, 10, 9])
      10 0 (Some (\<lambda>s n. (s + n, True))) 100 of
     Some (s', Inr (body, _)) \<Rightarrow> s' = 100 + int (length body) \<and> int (length body) \<le> 10 | _ \<Rightarrow> False"
proof -
  have "readChunkedBodyWithReserve \<lparr>deadlineErr = (None :: unit option), reads = []\<rparr> (s2b ''3'' @ [13, 10, 1, 2, 3, 13, 10] @ s2b ''0'' @ [13, 10, 13, 10, 9])
      10 0 (Some (\<lambda>s n. (s + n, True))) 100 = Some (103, Inr ([1, 2, 3], [9], [], []))" by code_simp
  from chunked_body_accounted [OF this, of id] this show ?thesis by simp
qed

section \<open>Encoded bodies are decoded\<close>

definition delivers :: "'e reads \<Rightarrow> bool" where
  "delivers rs \<longleftrightarrow> list_all (\<lambda>(bs, e). bs \<noteq> []) rs"

lemma readMore_delivers: "delivers rs \<Longrightarrow> rs \<noteq> [] \<Longrightarrow> \<exists>bs rs'. readMore rs = Inr (bs, rs') \<and> delivers rs'"
  by (cases rs) (auto simp: delivers_def)

lemma readLine_complete:
  assumes "buf @ incoming rs = line @ [13, 10] @ rest" and "10 \<notin> set line" and "length line < maxChunkLine" and "delivers rs"
  shows "\<exists>buf' rs'. readLine buf rs = Inr (line, buf', rs') \<and> buf' @ incoming rs' = rest \<and> delivers rs'"
  using assms
proof (induction buf rs rule: readLine.induct)
  case (1 buf rs)
  show ?case
  proof (cases "findCRLF buf")
    case None
    have "length buf \<le> length line + 1"
    proof (rule ccontr)
      assume "\<not> length buf \<le> length line + 1"
      then have "take (length line + 2) buf = line @ [13, 10]"
        using arg_cong [OF 1(2), of "take (length line + 2)"] by simp
      then obtain x where "buf = line @ [13, 10] @ x" by (metis append_take_drop_id append.assoc)
      then show False using None findCRLF_line [OF 1(3)] by simp
    qed
    then have lim: "\<not> maxChunkLine < length buf" using 1(4) by simp
    have "rs \<noteq> []"
    proof
      assume "rs = []"
      then have "buf = line @ [13, 10] @ rest" using 1(2) by (simp add: incoming_def)
      then show False using None findCRLF_line [OF 1(3)] by simp
    qed
    then obtain bs rs' where m: "readMore rs = Inr (bs, rs')" "delivers rs'" using readMore_delivers 1(5) by blast
    have "(buf @ bs) @ incoming rs' = line @ [13, 10] @ rest" using 1(2) readMore_incoming [OF m(1)] by simp
    from 1(1) [OF None lim m(1) refl this 1(3,4) m(2)] show ?thesis
      using None lim m(1) by (simp add: readLine.simps [of buf rs])
  next
    case (Some i)
    have "findCRLF (line @ [13, 10] @ rest) = Some i" using findCRLF_append [OF Some] 1(2) by metis
    then have i: "i = length line" using findCRLF_line [OF 1(3)] by simp
    have "i + 2 \<le> length buf" using findCRLF_SomeD [OF Some] by auto
    then have "take i buf = line" "drop (i + 2) buf @ incoming rs = rest"
      using arg_cong [OF 1(2), of "take i"] arg_cong [OF 1(2), of "drop (i + 2)"] i by simp_all
    with Some 1(5) show ?thesis by (simp add: readLine.simps [of buf rs])
  qed
qed

lemma ensure_complete:
  "n \<le> int (length (buf @ incoming rs)) \<Longrightarrow> delivers rs \<Longrightarrow> \<exists>buf' rs'. ensure n buf rs = Inr (buf', rs') \<and> delivers rs'"
proof (induction n buf rs rule: ensure.induct)
  case (1 n buf rs)
  show ?case
  proof (cases "int (length buf) < n")
    case True
    with 1(2) have "rs \<noteq> []" by (auto simp: incoming_def)
    then obtain bs rs' where m: "readMore rs = Inr (bs, rs')" "delivers rs'" using readMore_delivers 1(3) by blast
    with 1(1) [OF True m(1) refl] 1(2) readMore_incoming [OF m(1)] True show ?thesis
      by (simp add: ensure.simps [of n buf rs])
  qed (use 1 in \<open>simp add: ensure.simps [of n buf rs]\<close>)
qed

lemma takeChunk_complete:
  assumes "buf @ incoming rs = data @ [13, 10] @ rest" and "delivers rs" and "int (length data) < 2 ^ 62"
  shows "\<exists>buf' rs'. takeChunk (int (length data)) buf rs = Some (Inr (data, buf', rs')) \<and> buf' @ incoming rs' = rest \<and> delivers rs'"
proof -
  let ?n = "int (length data)"
  have n: "goInt (?n + 2) = ?n + 2" using assms(3) by (simp add: goInt_def)
  have "?n + 2 \<le> int (length (buf @ incoming rs))" unfolding assms(1) by simp
  then obtain b rs' where e: "ensure (?n + 2) buf rs = Inr (b, rs')" "delivers rs'" using ensure_complete assms(2) by blast
  have b: "b @ incoming rs' = data @ [13, 10] @ rest" "length data + 2 \<le> length b" using ensure_ok [OF e(1)] assms(1) by auto
  have "take (length data + 2) b = data @ [13, 10]" using arg_cong [OF b(1), of "take (length data + 2)"] b(2) by simp
  then have "b = (data @ [13, 10]) @ drop (length data + 2) b" by (metis append_take_drop_id)
  then obtain x where x: "b = data @ [13, 10] @ x" by (metis append.assoc)
  with b(1) have "x @ incoming rs' = rest" by simp
  with e n x show ?thesis by (simp add: takeChunk_def nth_append)
qed

text \<open>The chunks of a body, each a size line and its data.\<close>

definition chunkWire :: "(bytes \<times> bytes) list \<Rightarrow> bytes" where
  "chunkWire cs = concat (map (\<lambda>(line, data). line @ [13, 10] @ data @ [13, 10]) cs)"

definition sizeLine :: "bytes \<Rightarrow> nat \<Rightarrow> bool" where
  "sizeLine line n \<longleftrightarrow> chunkSize line = Some (int n) \<and> 10 \<notin> set line \<and> length line < maxChunkLine"

lemma chunks_loop_complete:
  assumes "buf @ incoming rs = chunkWire cs @ lastLine @ [13, 10] @ rest" and "delivers rs"
    and "list_all (\<lambda>(line, data). sizeLine line (length data) \<and> data \<noteq> []) cs" and "sizeLine lastLine 0"
    and "int (length body + length (concat (map snd cs))) \<le> mx" and "mx < 2 ^ 62"
  shows "\<exists>buf' rs'. chunks_loop mx None s buf rs body = Some (s, Inr (body @ concat (map snd cs), buf', rs')) \<and>
    buf' @ incoming rs' = rest \<and> delivers rs'"
  using assms
proof (induction cs arbitrary: buf rs body)
  case Nil
  then obtain buf' rs' where "readLine buf rs = Inr (lastLine, buf', rs')" "buf' @ incoming rs' = rest" "delivers rs'"
    using readLine_complete [of buf rs lastLine rest] by (auto simp: chunkWire_def sizeLine_def)
  then show ?case using Nil by (simp add: chunks_loop.simps [of mx None s buf] sizeLine_def)
next
  case (Cons c cs)
  obtain line data where c: "c = (line, data)" by fastforce
  let ?r = "chunkWire cs @ lastLine @ [13, 10] @ rest"
  have sl: "chunkSize line = Some (int (length data))" "10 \<notin> set line" "length line < maxChunkLine" "data \<noteq> []"
    using Cons.prems(3) by (simp_all add: c sizeLine_def)
  have "buf @ incoming rs = line @ [13, 10] @ data @ [13, 10] @ ?r" using Cons.prems(1) by (simp add: c chunkWire_def)
  from readLine_complete [OF this sl(2,3) Cons.prems(2)] obtain b1 rs1 where
    l: "readLine buf rs = Inr (line, b1, rs1)" "b1 @ incoming rs1 = data @ [13, 10] @ ?r" "delivers rs1" by blast
  have len: "int (length data) \<le> mx - int (length body)" using Cons.prems(5) by (simp add: c)
  then have "int (length data) < 2 ^ 62" using Cons.prems(6) by simp
  from takeChunk_complete [OF l(2,3) this] obtain b2 rs2 where
    t: "takeChunk (int (length data)) b1 rs1 = Some (Inr (data, b2, rs2))" "b2 @ incoming rs2 = ?r" "delivers rs2" by blast
  have "int (length (body @ data) + length (concat (map snd cs))) \<le> mx" using Cons.prems(5) by (simp add: c)
  from Cons.IH [OF t(2,3) _ Cons.prems(4) this Cons.prems(6)] Cons.prems(3) obtain buf' rs' where
    "chunks_loop mx None s b2 rs2 (body @ data) = Some (s, Inr ((body @ data) @ concat (map snd cs), buf', rs'))"
    "buf' @ incoming rs' = rest" "delivers rs'" by auto
  then show ?case using l(1) sl t(1) len by (simp add: c chunks_loop.simps [of mx None s buf])
qed

text \<open>
  C10: A body sent in chunks, cut into reads in any way, is decoded to the concatenation of the
  chunks; the bytes after the final chunk, which belong to the next request, are kept, in the
  left-over or unread.
\<close>

theorem chunked_roundtrip:
  assumes "initial @ incoming (reads c) = chunkWire cs @ lastLine @ [13, 10] @ [13, 10] @ rest" and "delivers (reads c)"
    and "list_all (\<lambda>(line, data). sizeLine line (length data) \<and> data \<noteq> []) cs" and "sizeLine lastLine 0"
    and "int (length (concat (map snd cs))) \<le> maxBody" and "maxBody < 2 ^ 62" and "timeout \<le> 0"
  shows "\<exists>leftover rs. readChunkedBody c initial maxBody timeout = Some (Inr (concat (map snd cs), leftover, [], rs)) \<and>
    leftover @ incoming rs = rest"
proof -
  from chunks_loop_complete [OF assms(1-4), of "[]" maxBody "()"] assms(5,6) obtain b1 rs1 where
    "chunks_loop maxBody None () initial (reads c) [] = Some ((), Inr (concat (map snd cs), b1, rs1))"
    "b1 @ incoming rs1 = [] @ [13, 10] @ rest" "delivers rs1" by auto
  moreover from readLine_complete [OF this(2) _ _ this(3)] obtain b2 rs2 where
    "readLine b1 rs1 = Inr ([], b2, rs2)" "b2 @ incoming rs2 = rest" by (auto simp: maxChunkLine_def)
  ultimately show ?thesis
    using assms(7) by (simp add: readChunkedBody_def readChunkedBodyWithReserve_def trailers_loop.simps [of b1])
qed

theorem chunked_roundtrip_witness:
  "\<exists>leftover rs. readChunkedBody \<lparr>deadlineErr = None :: unit option, reads = [([10, 1], None), ([2, 3, 13, 10] @ s2b ''0'' @ [13], None), ([10, 13, 10], None), ([9], None)]\<rparr>
      (s2b ''3'' @ [13]) 10 0 = Some (Inr ([1, 2, 3], leftover, [], rs)) \<and> leftover @ incoming rs = [9]"
proof -
  have "sizeLine (s2b ''3'') 3" "sizeLine (s2b ''0'') 0" by code_simp+
  then show ?thesis
    using chunked_roundtrip [of "s2b ''3'' @ [13]" "\<lparr>deadlineErr = None :: unit option, reads = [([10, 1], None), ([2, 3, 13, 10] @ s2b ''0'' @ [13], None), ([10, 13, 10], None), ([9], None)]\<rparr>"
      "[(s2b ''3'', [1, 2, 3])]" "s2b ''0''" "[9]" 10 0]
    by (simp add: incoming_def chunkWire_def delivers_def numeral_3_eq_3)
qed

end
