(* ===== verification/Http_Body_Stream.thy ===== *)
theory Http_Body_Stream
  imports Http_Chunked
begin

text \<open>
  Streamed HTTP/1 request bodies (\<open>requestBodyStream\<close> of \<open>src/request_stream.go\<close>): the reader handed to
  the handler, for bodies of a fixed length and for chunked ones. A read from the connection takes
  at most the length of the buffer from the next segment the peer sent.
\<close>

section \<open>The connection\<close>

definition connRead :: "nat \<Rightarrow> 'e reads \<Rightarrow> bytes \<times> 'e body_error option \<times> 'e reads" where
  "connRead k rs =
     (case rs of
        [] \<Rightarrow> ([], Some ErrEOF, [])
      | (bs, e) # rs' \<Rightarrow>
          if k < length bs then (take k bs, None, (drop k bs, e) # rs')
          else (bs, map_option ConnError e, rs'))"

section \<open>Library functions\<close>

text \<open>\<open>strings.TrimSpace\<close> and \<open>bytes.TrimSpace\<close>: the UTF-8 encodings of the space characters.\<close>

definition spaceRunes :: "bytes list" where
  "spaceRunes = [[9], [10], [11], [12], [13], [32], [0xC2, 0x85], [0xC2, 0xA0], [0xE1, 0x9A, 0x80],
     [0xE2, 0x80, 0x80], [0xE2, 0x80, 0x81], [0xE2, 0x80, 0x82], [0xE2, 0x80, 0x83], [0xE2, 0x80, 0x84],
     [0xE2, 0x80, 0x85], [0xE2, 0x80, 0x86], [0xE2, 0x80, 0x87], [0xE2, 0x80, 0x88], [0xE2, 0x80, 0x89],
     [0xE2, 0x80, 0x8A], [0xE2, 0x80, 0xA8], [0xE2, 0x80, 0xA9], [0xE2, 0x80, 0xAF], [0xE2, 0x81, 0x9F],
     [0xE3, 0x80, 0x80]]"

lemma strip_less: "r \<noteq> [] \<Longrightarrow> take (length r) s = r \<Longrightarrow> length s - length r < length s"
  by (cases s; cases r) auto

function trimPrefix :: "bytes list \<Rightarrow> bytes \<Rightarrow> bytes" where
  "trimPrefix runes s =
     (case find (\<lambda>r. r \<noteq> [] \<and> take (length r) s = r) runes of
        Some r \<Rightarrow> trimPrefix runes (drop (length r) s)
      | None \<Rightarrow> s)"
  by pat_completeness auto
termination
  by (relation "measure (\<lambda>(runes, s). length s)") (auto simp: find_Some_iff intro: strip_less)

declare trimPrefix.simps [simp del]

definition TrimSpace :: "bytes \<Rightarrow> bytes" where
  "TrimSpace s = rev (trimPrefix (map rev spaceRunes) (rev (trimPrefix spaceRunes s)))"

text \<open>\<open>strconv.ParseInt(s, 16, 64)\<close>\<close>

fun hexValue :: "bytes \<Rightarrow> int \<Rightarrow> int option" where
  "hexValue [] n = Some n"
| "hexValue (c # s) n = (case hexDigit c of None \<Rightarrow> None | Some d \<Rightarrow> hexValue s (n * 16 + d))"

definition ParseInt16 :: "bytes \<Rightarrow> int option" where
  "ParseInt16 s =
     (let neg = (s \<noteq> [] \<and> hd s = ch CHR ''-'');
          digits = (if s \<noteq> [] \<and> (hd s = ch CHR ''-'' \<or> hd s = ch CHR ''+'') then tl s else s)
      in if digits = [] then None
         else case hexValue digits 0 of
           None \<Rightarrow> None
         | Some n \<Rightarrow> if neg then (if n > maxInt64 + 1 then None else Some (- n))
                     else if n > maxInt64 then None else Some n)"

section \<open>The reader\<close>

datatype 'e stream_error = BodyError "'e body_error" | ErrMalformed | ErrUnexpectedEOF

record 'e requestBodyStream =
  sconn :: "'e reads"
  sprefix :: bytes
  remaining :: int
  chunked :: bool
  smax :: int
  total :: int
  chunkLeft :: int
  needCRLF :: bool
  sdone :: bool
  serr :: "'e stream_error option"
  leftover :: bytes
  trailers :: "Header list"

definition newRequestBodyStream :: "'e reads \<Rightarrow> bytes \<Rightarrow> int \<Rightarrow> bool \<Rightarrow> int \<Rightarrow> 'e requestBodyStream" where
  "newRequestBodyStream conn pre len chk mx =
     \<lparr>sconn = conn, sprefix = pre, remaining = len, chunked = chk, smax = mx, total = 0, chunkLeft = 0,
      needCRLF = False, sdone = False, serr = None, leftover = [], trailers = []\<rparr>"

definition stream_fail :: "'e requestBodyStream \<Rightarrow> 'e stream_error \<Rightarrow> 'e requestBodyStream" where
  "stream_fail r e = r\<lparr>serr := Some e, sdone := True\<rparr>"

text \<open>\<open>readSome(p)\<close> for a buffer of length \<open>k\<close>: the bytes copied into it.\<close>

definition readSome :: "'e requestBodyStream \<Rightarrow> nat \<Rightarrow> 'e requestBodyStream \<times> bytes" where
  "readSome r k =
     (if length (sprefix r) > 0 then (r\<lparr>sprefix := drop k (sprefix r)\<rparr>, take k (sprefix r))
      else case connRead k (sconn r) of
        (bs, err, rs) \<Rightarrow>
          (case err of Some e \<Rightarrow> r\<lparr>sconn := rs, serr := Some (BodyError e)\<rparr> | None \<Rightarrow> r\<lparr>sconn := rs\<rparr>, bs))"

definition readByte :: "'e requestBodyStream \<Rightarrow> 'e requestBodyStream \<times> ('e stream_error + byte)" where
  "readByte r =
     (case sprefix r of
        b # bs \<Rightarrow> (r\<lparr>sprefix := bs\<rparr>, Inr b)
      | [] \<Rightarrow>
          (case connRead 1 (sconn r) of
             (bs, err, rs) \<Rightarrow>
               let r = r\<lparr>sconn := rs\<rparr>
               in if length bs = 1 then (r, Inr (hd bs))
                  else let e = (case err of Some e \<Rightarrow> BodyError e | None \<Rightarrow> ErrUnexpectedEOF)
                       in (stream_fail r e, Inl e)))"

text \<open>\<open>readLine\<close>: the line read so far in \<open>line\<close>.\<close>

function stream_readLine :: "'e requestBodyStream \<Rightarrow> bytes \<Rightarrow> 'e requestBodyStream \<times> ('e stream_error + bytes)" where
  "stream_readLine r line =
     (if length line \<le> maxChunkLine then
        (case readByte r of
           (r, Inl e) \<Rightarrow> (r, Inl e)
         | (r, Inr b) \<Rightarrow>
             let line = line @ [b]
             in if b = 10 then
                  if length line < 2 \<or> line ! (length line - 2) \<noteq> 13 then (stream_fail r ErrMalformed, Inl ErrMalformed)
                  else (r, Inr (take (length line - 2) line))
                else stream_readLine r line)
      else (stream_fail r (BodyError ErrInvalidChunkedBody), Inl (BodyError ErrInvalidChunkedBody)))"
  by pat_completeness auto
termination
  by (relation "measure (\<lambda>(r, line). Suc maxChunkLine - length line)") auto

declare stream_readLine.simps [simp del]

definition expectCRLF :: "'e requestBodyStream \<Rightarrow> 'e requestBodyStream \<times> 'e stream_error option" where
  "expectCRLF r =
     (case readByte r of
        (r, Inl e) \<Rightarrow> (r, Some e)
      | (r, Inr a) \<Rightarrow>
          (case readByte r of
             (r, Inl e) \<Rightarrow> (r, Some e)
           | (r, Inr b) \<Rightarrow> if a \<noteq> 13 \<or> b \<noteq> 10 then (stream_fail r ErrMalformed, Some ErrMalformed) else (r, None)))"

text \<open>The bytes that have not been consumed.\<close>

definition unread :: "'e requestBodyStream \<Rightarrow> bytes" where
  "unread r = sprefix r @ incoming (sconn r)"

lemma connRead_incoming: "connRead k rs = (bs, err, rs') \<Longrightarrow> incoming rs = bs @ incoming rs'"
  by (auto simp: connRead_def incoming_def split: list.splits prod.splits if_splits)

lemma readByte_unread:
  "readByte r = (r', Inr b) \<Longrightarrow> unread r = b # unread r' \<and> r' = r\<lparr>sprefix := sprefix r', sconn := sconn r'\<rparr>"
  "readByte r = (r', Inl e) \<Longrightarrow> length (unread r') \<le> length (unread r)"
  by (auto simp: readByte_def unread_def Let_def stream_fail_def length_Suc_conv
      split: list.splits prod.splits if_splits option.splits dest!: connRead_incoming)

lemma stream_readLine_unread:
  "stream_readLine r line = (r', Inr l) \<Longrightarrow> line @ unread r = l @ [13, 10] @ unread r' \<and> length (unread r') < length (unread r)"
proof (induction r line rule: stream_readLine.induct)
  case (1 r line)
  from 1(2) obtain r1 b where b: "length line \<le> maxChunkLine" "readByte r = (r1, Inr b)"
    by (auto simp: stream_readLine.simps [of r line] split: if_splits prod.splits sum.splits)
  show ?case
  proof (cases "b = 10")
    case True
    with 1(2) b have l: "line \<noteq> []" "last line = 13" "l = butlast line" "r' = r1"
      by (auto simp: stream_readLine.simps [of r line] Let_def nth_append last_conv_nth butlast_conv_take
          split: if_splits)
    with readByte_unread(1) [OF b(2)] True show ?thesis by (metis append.assoc append_Cons append_Nil append_butlast_last_id length_Cons lessI)
  next
    case False
    with 1(2) b have "stream_readLine r1 (line @ [b]) = (r', Inr l)"
      by (auto simp: stream_readLine.simps [of r line] Let_def)
    with 1(1) [OF b(1) b(2) [symmetric] refl refl False] readByte_unread(1) [OF b(2)] show ?thesis by auto
  qed
qed

function readTrailers :: "'e requestBodyStream \<Rightarrow> 'e requestBodyStream \<times> 'e stream_error option" where
  "readTrailers r =
     (case stream_readLine r [] of
        (r, Inl e) \<Rightarrow> (r, Some e)
      | (r, Inr line) \<Rightarrow>
          if length line = 0 then (r, None)
          else case indexByte line (ch CHR '':'') of
            None \<Rightarrow> (stream_fail r (BodyError ErrInvalidChunkedBody), Some (BodyError ErrInvalidChunkedBody))
          | Some colon \<Rightarrow>
              if colon = 0 \<or> \<not> validToken (take colon line) \<or> length (trailers r) \<ge> maxHeaders
              then (stream_fail r (BodyError ErrInvalidChunkedBody), Some (BodyError ErrInvalidChunkedBody))
              else if bytesEqualFold (take colon line) (s2b ''Content-Length'')
                   \<or> bytesEqualFold (take colon line) (s2b ''Transfer-Encoding'')
                   \<or> bytesEqualFold (take colon line) (s2b ''Host'')
              then (stream_fail r (BodyError ErrInvalidChunkedBody), Some (BodyError ErrInvalidChunkedBody))
              else let val = TrimSpace (drop (colon + 1) line)
                   in if \<not> list_all valueByte val then (stream_fail r ErrMalformed, Some ErrMalformed)
                      else readTrailers (r\<lparr>trailers := trailers r @ [\<lparr>hKey = take colon line, hVal = val\<rparr>]\<rparr>))"
  by pat_completeness auto
termination
  by (relation "measure (\<lambda>r. length (unread r))") (auto simp: unread_def [of "_\<lparr>trailers := _\<rparr>"] unread_def [symmetric] dest!: stream_readLine_unread [OF sym])

declare readTrailers.simps [simp del]

definition readFixed :: "'e requestBodyStream \<Rightarrow> nat \<Rightarrow> 'e requestBodyStream \<times> bytes \<times> 'e stream_error option" where
  "readFixed r k =
     (if remaining r = 0 then (r\<lparr>sdone := True, leftover := sprefix r, sprefix := []\<rparr>, [], Some (BodyError ErrEOF))
      else let k = (if int k > remaining r then nat (remaining r) else k)
           in case readSome r k of
             (r, bs) \<Rightarrow>
               let r = r\<lparr>remaining := remaining r - int (length bs), total := total r + int (length bs)\<rparr>
               in if length bs = 0 \<and> serr r \<noteq> None then (r, [], serr r)
                  else if remaining r = 0
                  then (r\<lparr>sdone := True, leftover := sprefix r, sprefix := []\<rparr>, bs, Some (BodyError ErrEOF))
                  else (r, bs, None))"

text \<open>The branch of the loop for a chunk that is open.\<close>

definition readChunkData :: "'e requestBodyStream \<Rightarrow> nat \<Rightarrow> 'e requestBodyStream \<times> bytes \<times> 'e stream_error option" where
  "readChunkData r k =
     (let k = (if int k > chunkLeft r then nat (chunkLeft r) else k)
      in case readSome r k of
        (r, bs) \<Rightarrow>
          let r = r\<lparr>chunkLeft := chunkLeft r - int (length bs), total := total r + int (length bs)\<rparr>
          in if length bs = 0 \<and> serr r \<noteq> None then (r, [], serr r)
             else (r\<lparr>needCRLF := needCRLF r \<or> chunkLeft r = 0\<rparr>, bs, None))"

text \<open>
  The loop runs at most twice: after a size line the chunk is open.
\<close>

definition readChunkedStream :: "'e requestBodyStream \<Rightarrow> nat \<Rightarrow> 'e requestBodyStream \<times> bytes \<times> 'e stream_error option" where
  "readChunkedStream r k =
     (if chunkLeft r > 0 then readChunkData r k
      else case (if needCRLF r then expectCRLF r else (r, None)) of
        (r, Some e) \<Rightarrow> (r, [], Some e)
      | (r, None) \<Rightarrow>
          (case stream_readLine (r\<lparr>needCRLF := False\<rparr>) [] of
             (r, Inl e) \<Rightarrow> (r, [], Some e)
           | (r, Inr line) \<Rightarrow>
               let sizeText = (case indexByte line (ch CHR '';'') of Some semi \<Rightarrow> take semi line | None \<Rightarrow> line)
               in case ParseInt16 (TrimSpace sizeText) of
                 None \<Rightarrow> (stream_fail r ErrMalformed, [], Some ErrMalformed)
               | Some sz \<Rightarrow>
                   if sz < 0 then (stream_fail r ErrMalformed, [], Some ErrMalformed)
                   else if sz > smax r - total r then (stream_fail r (BodyError ErrBodyTooLarge), [], Some (BodyError ErrBodyTooLarge))
                   else if sz = 0 then
                     (case readTrailers r of
                        (r, Some e) \<Rightarrow> (r, [], Some e)
                      | (r, None) \<Rightarrow> (r\<lparr>sdone := True\<rparr>, [], Some (BodyError ErrEOF)))
                   else readChunkData (r\<lparr>chunkLeft := sz\<rparr>) k))"

definition stream_Read :: "'e requestBodyStream \<Rightarrow> nat \<Rightarrow> 'e requestBodyStream \<times> bytes \<times> 'e stream_error option" where
  "stream_Read r k =
     (if sdone r then (r, [], case serr r of Some e \<Rightarrow> Some e | None \<Rightarrow> Some (BodyError ErrEOF))
      else if k = 0 then (r, [], None)
      else if \<not> chunked r then readFixed r k
      else readChunkedStream r k)"

definition finish :: "'e requestBodyStream \<Rightarrow> bytes \<times> Header list \<times> 'e stream_error option" where
  "finish r = (leftover r, trailers r, serr r)"

section \<open>Reading a body to its end\<close>

text \<open>The handler reads with buffers of the given lengths until an error is reported.\<close>

fun run_reads :: "'e requestBodyStream \<Rightarrow> nat list \<Rightarrow> 'e requestBodyStream \<times> bytes \<times> 'e stream_error option" where
  "run_reads r [] = (r, [], None)"
| "run_reads r (k # ks) =
     (case stream_Read r k of
        (r, bs, Some e) \<Rightarrow> (r, bs, Some e)
      | (r, bs, None) \<Rightarrow> (case run_reads r ks of (r, bs', e) \<Rightarrow> (r, bs @ bs', e)))"

text \<open>A connection that delivers its segments without an error until the peer closes it.\<close>

definition clean :: "'e reads \<Rightarrow> bool" where
  "clean rs \<longleftrightarrow> list_all (\<lambda>(bs, e). bs \<noteq> [] \<and> e = None) rs"

lemma connRead_clean:
  assumes "clean rs" and "0 < k" and "incoming rs \<noteq> []"
  shows "\<exists>bs rs'. connRead k rs = (bs, None, rs') \<and> bs \<noteq> [] \<and> length bs \<le> k \<and> clean rs'"
  using assms by (cases rs) (auto simp: connRead_def clean_def incoming_def)

lemma clean_empty: "clean rs \<Longrightarrow> incoming rs = [] \<longleftrightarrow> rs = []"
  by (cases rs) (auto simp: clean_def incoming_def)

text \<open>What the readers leave alone.\<close>

definition moved :: "'e requestBodyStream \<Rightarrow> 'e requestBodyStream \<Rightarrow> bool" where
  "moved r r' \<longleftrightarrow> r' = r\<lparr>sprefix := sprefix r', sconn := sconn r'\<rparr>"

lemma moved_fields:
  assumes "moved r r'"
  shows "remaining r' = remaining r" "chunked r' = chunked r" "smax r' = smax r" "total r' = total r" "chunkLeft r' = chunkLeft r"
    "needCRLF r' = needCRLF r" "sdone r' = sdone r" "serr r' = serr r" "leftover r' = leftover r" "trailers r' = trailers r"
  using assms by (cases r; cases r'; simp add: moved_def)+

lemma moved_trans: "moved r r' \<Longrightarrow> moved r' r'' \<Longrightarrow> moved r r''"
  by (cases r; cases r'; cases r'') (simp add: moved_def)

lemma readSome_unread: "readSome r k = (r', bs) \<Longrightarrow> unread r = bs @ unread r' \<and> length bs \<le> length (unread r)"
  by (auto simp: readSome_def unread_def split: if_splits prod.splits option.splits dest!: connRead_incoming)

lemma readSome_clean:
  assumes "clean (sconn r)" and "0 < k" and "unread r \<noteq> []"
  shows "\<exists>r' bs. readSome r k = (r', bs) \<and> bs \<noteq> [] \<and> length bs \<le> k \<and> unread r = bs @ unread r' \<and> clean (sconn r') \<and> moved r r'"
proof (cases "sprefix r = []")
  case True
  then have "incoming (sconn r) \<noteq> []" using assms(3) by (simp add: unread_def)
  from connRead_clean [OF assms(1,2) this]
  obtain bs rs' where c: "connRead k (sconn r) = (bs, None, rs')" "bs \<noteq> []" "length bs \<le> k" "clean rs'" by blast
  with True connRead_incoming [OF c(1)] show ?thesis
    by (cases r) (auto simp: readSome_def unread_def moved_def)
next
  case False
  with assms show ?thesis by (cases r) (auto simp: readSome_def unread_def moved_def)
qed

lemma readByte_clean:
  assumes "clean (sconn r)" and "unread r = b # rest"
  shows "\<exists>r'. readByte r = (r', Inr b) \<and> unread r' = rest \<and> clean (sconn r') \<and> moved r r'"
proof (cases "sprefix r")
  case Nil
  then have "incoming (sconn r) = b # rest" using assms(2) by (simp add: unread_def)
  then obtain bs rs' where c: "connRead 1 (sconn r) = (bs, None, rs')" "bs \<noteq> []" "length bs \<le> 1" "clean rs'"
    using connRead_clean [OF assms(1), of 1] by auto
  then obtain x where "bs = [x]" by (cases bs) auto
  with c Nil connRead_incoming [OF c(1)] \<open>incoming (sconn r) = b # rest\<close> show ?thesis
    by (cases r) (auto simp: readByte_def unread_def moved_def)
next
  case (Cons a list)
  with assms show ?thesis by (cases r) (auto simp: readByte_def unread_def moved_def)
qed

lemma stream_readLine_clean:
  assumes "clean (sconn r)" and "unread r = l @ [13, 10] @ rest" and "10 \<notin> set l" and "length line + length l < maxChunkLine"
  shows "\<exists>r'. stream_readLine r line = (r', Inr (line @ l)) \<and> unread r' = rest \<and> clean (sconn r') \<and> moved r r'"
  using assms
proof (induction l arbitrary: r line)
  case Nil
  then obtain r1 where 1: "readByte r = (r1, Inr 13)" "unread r1 = 10 # rest" "clean (sconn r1)" "moved r r1"
    using readByte_clean [of r 13 "10 # rest"] by auto
  then obtain r2 where 2: "readByte r1 = (r2, Inr 10)" "unread r2 = rest" "clean (sconn r2)" "moved r1 r2"
    using readByte_clean [of r1 10 rest] by auto
  have "stream_readLine r line = stream_readLine r1 (line @ [13])"
    using 1(1) Nil.prems(4) by (simp add: stream_readLine.simps [of r] Let_def)
  also have "\<dots> = (r2, Inr line)" using 2(1) Nil.prems(4) by (simp add: stream_readLine.simps [of r1] Let_def nth_append)
  finally show ?case using 2 moved_trans [OF 1(4) 2(4)] by simp
next
  case (Cons a l)
  then obtain r1 where 1: "readByte r = (r1, Inr a)" "unread r1 = l @ [13, 10] @ rest" "clean (sconn r1)" "moved r r1"
    using readByte_clean [of r a "l @ [13, 10] @ rest"] by auto
  have "stream_readLine r line = stream_readLine r1 (line @ [a])"
    using 1(1) Cons.prems(3,4) by (simp add: stream_readLine.simps [of r] Let_def)
  moreover obtain r' where "stream_readLine r1 (line @ [a]) = (r', Inr ((line @ [a]) @ l))" "unread r' = rest" "clean (sconn r')" "moved r1 r'"
    using Cons.IH [OF 1(3,2), of "line @ [a]"] Cons.prems(3,4) by auto
  ultimately show ?case using moved_trans [OF 1(4)] by auto
qed

section \<open>Bodies of a fixed length\<close>

definition openFixed :: "'e requestBodyStream \<Rightarrow> nat \<Rightarrow> bool" where
  "openFixed r n \<longleftrightarrow> clean (sconn r) \<and> \<not> sdone r \<and> \<not> chunked r \<and> serr r = None \<and> remaining r = int n"

lemma readFixed_step:
  assumes "openFixed r n" and "0 < n" and "unread r \<noteq> []" and "0 < k"
  shows "\<exists>r' bs. stream_Read r k = (if length bs = n then (r'\<lparr>sdone := True, leftover := sprefix r', sprefix := []\<rparr>, bs, Some (BodyError ErrEOF)) else (r', bs, None)) \<and>
    bs \<noteq> [] \<and> length bs \<le> n \<and> unread r = bs @ unread r' \<and> openFixed r' (n - length bs)"
proof -
  define k' where "k' = (if int k > remaining r then nat (remaining r) else k)"
  have k': "0 < k'" "k' \<le> n" using assms by (auto simp: k'_def openFixed_def)
  obtain r1 bs where r1: "readSome r k' = (r1, bs)" "bs \<noteq> []" "length bs \<le> k'" "unread r = bs @ unread r1" "clean (sconn r1)" "moved r r1"
    using readSome_clean [of r k'] assms k'(1) by (auto simp: openFixed_def)
  let ?r = "r1\<lparr>remaining := remaining r1 - int (length bs), total := total r1 + int (length bs)\<rparr>"
  have "stream_Read r k = (if length bs = n then (?r\<lparr>sdone := True, leftover := sprefix ?r, sprefix := []\<rparr>, bs, Some (BodyError ErrEOF)) else (?r, bs, None))"
    using assms r1(1,2) moved_fields [OF r1(6)] unfolding stream_Read_def readFixed_def Let_def k'_def [symmetric]
    by (auto simp: openFixed_def)
  moreover have "openFixed ?r (n - length bs)"
    using assms(1) r1(3,5) k'(2) moved_fields [OF r1(6)] by (auto simp: openFixed_def)
  moreover have "unread ?r = unread r1" by (simp add: unread_def)
  ultimately show ?thesis using r1 k'(2) by (intro exI [of _ ?r] exI [of _ bs]) auto
qed

lemma fixed_run:
  assumes "openFixed r n" and "n \<le> length (unread r)" and "list_all ((<) 0) ks" and "n \<le> length ks" and "ks \<noteq> []"
  shows "\<exists>r'. run_reads r ks = (r', take n (unread r), Some (BodyError ErrEOF)) \<and>
    leftover r' @ incoming (sconn r') = drop n (unread r) \<and> serr r' = None \<and> sdone r'"
  using assms
proof (induction ks arbitrary: r n)
  case (Cons k ks)
  show ?case
  proof (cases "n = 0")
    case True
    with Cons.prems show ?thesis by (auto simp: stream_Read_def readFixed_def openFixed_def unread_def)
  next
    case False
    then have "unread r \<noteq> []" "0 < n" "0 < k" using Cons.prems by auto
    from readFixed_step [OF Cons.prems(1) this(2,1,3)] obtain r1 bs where
      r1: "stream_Read r k = (if length bs = n then (r1\<lparr>sdone := True, leftover := sprefix r1, sprefix := []\<rparr>, bs, Some (BodyError ErrEOF)) else (r1, bs, None))"
        "bs \<noteq> []" "length bs \<le> n" "unread r = bs @ unread r1" "openFixed r1 (n - length bs)" by blast
    show ?thesis
    proof (cases "length bs = n")
      case True
      with r1 show ?thesis by (simp add: unread_def openFixed_def)
    next
      case False
      then have lt: "length bs < n" using r1(3) by simp
      have "0 < length bs" "n \<le> Suc (length ks)" using r1(2) Cons.prems(4) by simp_all
      then have "n - length bs \<le> length ks" "0 < length ks" using lt by linarith+
      then have "n - length bs \<le> length ks" "ks \<noteq> []" by simp_all
      moreover have "n - length bs \<le> length (unread r1)" using Cons.prems(2) r1(4) by simp
      ultimately obtain r' where "run_reads r1 ks = (r', take (n - length bs) (unread r1), Some (BodyError ErrEOF))"
          "leftover r' @ incoming (sconn r') = drop (n - length bs) (unread r1)" "serr r' = None" "sdone r'"
        using Cons.IH [OF r1(5)] Cons.prems(3) by auto
      with False r1 lt show ?thesis by simp
    qed
  qed
qed simp

lemma fixed_run_truncated:
  assumes "openFixed r n" and "length (unread r) < n" and "list_all ((<) 0) ks" and "length (unread r) < length ks"
  shows "\<exists>r'. run_reads r ks = (r', unread r, Some (BodyError ErrEOF)) \<and> serr r' = Some (BodyError ErrEOF)"
  using assms
proof (induction ks arbitrary: r n)
  case (Cons k ks)
  show ?case
  proof (cases "unread r = []")
    case True
    then have "sprefix r = []" "sconn r = []" using clean_empty Cons.prems(1) by (auto simp: unread_def openFixed_def)
    with True Cons.prems show ?thesis
      by (auto simp: stream_Read_def readFixed_def openFixed_def readSome_def connRead_def Let_def)
  next
    case False
    then have "0 < n" "0 < k" using Cons.prems by auto
    from readFixed_step [OF Cons.prems(1) this(1) False this(2)] obtain r1 bs where
      r1: "stream_Read r k = (if length bs = n then (r1\<lparr>sdone := True, leftover := sprefix r1, sprefix := []\<rparr>, bs, Some (BodyError ErrEOF)) else (r1, bs, None))"
        "bs \<noteq> []" "length bs \<le> n" "unread r = bs @ unread r1" "openFixed r1 (n - length bs)" by blast
    have "length bs \<noteq> n" using Cons.prems(2) r1(4) by auto
    have "0 < length bs" "length bs + length (unread r1) < n" "length bs + length (unread r1) < Suc (length ks)"
      using r1(2,4) Cons.prems(2,4) by simp_all
    then have "length (unread r1) < length ks" "length (unread r1) < n - length bs" by linarith+
    then obtain r' where "run_reads r1 ks = (r', unread r1, Some (BodyError ErrEOF))" "serr r' = Some (BodyError ErrEOF)"
      using Cons.IH [OF r1(5)] Cons.prems(3) by auto
    with \<open>length bs \<noteq> n\<close> r1 show ?thesis by simp
  qed
qed simp

section \<open>Chunked bodies\<close>

definition streamSizeLine :: "bytes \<Rightarrow> nat \<Rightarrow> bool" where
  "streamSizeLine line n \<longleftrightarrow>
     ParseInt16 (TrimSpace (case indexByte line (ch CHR '';'') of Some semi \<Rightarrow> take semi line | None \<Rightarrow> line)) = Some (int n) \<and>
     10 \<notin> set line \<and> length line < maxChunkLine"

text \<open>
  A stream in the middle of a body: \<open>d\<close> is what is left of the current chunk, \<open>cs\<close> are the chunks
  after it, then come the last size line, the blank line and the bytes of the next request.
\<close>

definition openChunked :: "'e requestBodyStream \<Rightarrow> bytes \<Rightarrow> (bytes \<times> bytes) list \<Rightarrow> bytes \<Rightarrow> bytes \<Rightarrow> bool" where
  "openChunked r d cs lastLine rest \<longleftrightarrow>
     clean (sconn r) \<and> \<not> sdone r \<and> chunked r \<and> serr r = None \<and> leftover r = [] \<and> trailers r = [] \<and> chunkLeft r = int (length d) \<and>
     unread r = (if d \<noteq> [] then d @ [13, 10] else if needCRLF r then [13, 10] else []) @ chunkWire cs @ lastLine @ [13, 10] @ [13, 10] @ rest \<and>
     list_all (\<lambda>(line, data). streamSizeLine line (length data) \<and> data \<noteq> []) cs \<and> streamSizeLine lastLine 0 \<and>
     total r + int (length d) + int (length (concat (map snd cs))) \<le> smax r \<and> (d \<noteq> [] \<longrightarrow> \<not> needCRLF r)"

lemma readChunkData_step:
  assumes "openChunked r d cs lastLine rest" and "d \<noteq> []" and "0 < k"
  shows "\<exists>r' bs d'. readChunkData r k = (r', bs, None) \<and> bs \<noteq> [] \<and> d = bs @ d' \<and> openChunked r' d' cs lastLine rest"
proof -
  let ?w = "chunkWire cs @ lastLine @ [13, 10] @ [13, 10] @ rest"
  have u: "unread r = d @ [13, 10] @ ?w" "chunkLeft r = int (length d)" using assms by (auto simp: openChunked_def)
  define k' where "k' = (if int k > chunkLeft r then nat (chunkLeft r) else k)"
  have k': "0 < k'" "k' \<le> length d" using assms u(2) by (auto simp: k'_def)
  obtain r1 bs where r1: "readSome r k' = (r1, bs)" "bs \<noteq> []" "length bs \<le> k'" "unread r = bs @ unread r1" "clean (sconn r1)" "moved r r1"
    using readSome_clean [of r k'] assms(1) u(1) k'(1) by (auto simp: openChunked_def)
  have len: "length bs \<le> length d" using r1(3) k'(2) by simp
  define d' where "d' = drop (length bs) d"
  have "bs = take (length bs) d" using arg_cong [OF r1(4), of "take (length bs)"] u(1) len by simp
  then have d: "d = bs @ d'" unfolding d'_def by (metis append_take_drop_id)
  then have u1: "unread r1 = d' @ [13, 10] @ ?w" using r1(4) u(1) by simp
  let ?r = "(r1\<lparr>chunkLeft := chunkLeft r1 - int (length bs), total := total r1 + int (length bs)\<rparr>)\<lparr>needCRLF := needCRLF r1 \<or> chunkLeft r1 - int (length bs) = 0\<rparr>"
  have "readChunkData r k = (?r, bs, None)"
    using r1(1,2) unfolding readChunkData_def Let_def k'_def [symmetric] by simp
  moreover have "openChunked ?r d' cs lastLine rest"
    using assms(1) u1 u(2) r1(5) moved_fields [OF r1(6)] d assms(2) by (auto simp: openChunked_def unread_def)
  ultimately show ?thesis using r1(2) d by blast
qed

lemma expectCRLF_clean:
  assumes "clean (sconn r)" and "unread r = [13, 10] @ rest"
  shows "\<exists>r'. expectCRLF r = (r', None) \<and> unread r' = rest \<and> clean (sconn r') \<and> moved r r'"
proof -
  obtain r1 where 1: "readByte r = (r1, Inr 13)" "unread r1 = 10 # rest" "clean (sconn r1)" "moved r r1"
    using readByte_clean [OF assms(1), of 13 "10 # rest"] assms(2) by auto
  obtain r2 where 2: "readByte r1 = (r2, Inr 10)" "unread r2 = rest" "clean (sconn r2)" "moved r1 r2"
    using readByte_clean [OF 1(3,2)] by auto
  show ?thesis using 1 2 moved_trans [OF 1(4) 2(4)] by (simp add: expectCRLF_def)
qed

text \<open>Between chunks: the end of the previous chunk is skipped and the size line read.\<close>

lemma nextLine_clean:
  assumes "openChunked r [] cs lastLine rest" and "unread r = (if needCRLF r then [13, 10] else []) @ l @ [13, 10] @ w"
    and "10 \<notin> set l" and "length l < maxChunkLine"
  shows "\<exists>r1 r2. (if needCRLF r then expectCRLF r else (r, None)) = (r1, None) \<and>
    stream_readLine (r1\<lparr>needCRLF := False\<rparr>) [] = (r2, Inr l) \<and> unread r2 = w \<and> clean (sconn r2) \<and> moved (r\<lparr>needCRLF := False\<rparr>) r2"
proof -
  have c: "clean (sconn r)" using assms(1) by (simp add: openChunked_def)
  obtain r1 where r1: "(if needCRLF r then expectCRLF r else (r, None)) = (r1, None)" "unread r1 = l @ [13, 10] @ w"
      "clean (sconn r1)" "moved r r1"
    using expectCRLF_clean [OF c, of "l @ [13, 10] @ w"] assms(2) c by (cases "needCRLF r") (auto simp: moved_def)
  let ?r1 = "r1\<lparr>needCRLF := False\<rparr>"
  have "unread ?r1 = l @ [13, 10] @ w" "clean (sconn ?r1)" using r1 by (simp_all add: unread_def)
  from stream_readLine_clean [OF this(2,1) assms(3), of "[]"] assms(4) obtain r2 where
    "stream_readLine ?r1 [] = (r2, Inr l)" "unread r2 = w" "clean (sconn r2)" "moved ?r1 r2" by auto
  moreover have "moved (r\<lparr>needCRLF := False\<rparr>) ?r1" using r1(4) by (cases r; cases r1) (simp add: moved_def)
  ultimately show ?thesis using r1(1) moved_trans by blast
qed

lemma readChunkedStream_step:
  assumes "openChunked r d cs lastLine rest" and "d \<noteq> [] \<or> cs \<noteq> []" and "0 < k"
  shows "\<exists>r' bs d' cs'. stream_Read r k = (r', bs, None) \<and> bs \<noteq> [] \<and> d @ concat (map snd cs) = bs @ d' @ concat (map snd cs') \<and>
    openChunked r' d' cs' lastLine rest"
proof (cases "d = []")
  case False
  then have "0 < int (length d)" by simp
  then have "stream_Read r k = readChunkData r k"
    using assms(1,3) unfolding stream_Read_def readChunkedStream_def openChunked_def by simp
  moreover from readChunkData_step [OF assms(1) False assms(3)] obtain r' bs d' where
    "readChunkData r k = (r', bs, None)" "bs \<noteq> []" "d = bs @ d'" "openChunked r' d' cs lastLine rest" by blast
  ultimately show ?thesis by (intro exI [of _ r'] exI [of _ bs] exI [of _ d'] exI [of _ cs]) simp
next
  case True
  then obtain l x cs' where cs: "cs = (l, x) # cs'" using assms(2) by (cases cs) auto
  let ?w = "x @ [13, 10] @ chunkWire cs' @ lastLine @ [13, 10] @ [13, 10] @ rest"
  have sl: "streamSizeLine l (length x)" "x \<noteq> []" using assms(1) by (auto simp: openChunked_def cs)
  have "unread r = (if needCRLF r then [13, 10] else []) @ l @ [13, 10] @ ?w"
    using assms(1) True by (auto simp: openChunked_def cs chunkWire_def)
  from nextLine_clean [OF assms(1) [unfolded True] this] sl obtain r1 r2 where
    n: "(if needCRLF r then expectCRLF r else (r, None)) = (r1, None)" "stream_readLine (r1\<lparr>needCRLF := False\<rparr>) [] = (r2, Inr l)"
      "unread r2 = ?w" "clean (sconn r2)" "moved (r\<lparr>needCRLF := False\<rparr>) r2" by (auto simp: streamSizeLine_def)
  note f = moved_fields [OF n(5)]
  let ?r = "r2\<lparr>chunkLeft := int (length x)\<rparr>"
  have o: "openChunked ?r x cs' lastLine rest"
    using assms(1) True n(3,4) f sl(2) by (auto simp: openChunked_def cs unread_def)
  from readChunkData_step [OF o sl(2) assms(3)] obtain r' bs d' where
    s: "readChunkData ?r k = (r', bs, None)" "bs \<noteq> []" "x = bs @ d'" "openChunked r' d' cs' lastLine rest" by blast
  have "stream_Read r k = readChunkData ?r k"
    using assms(1,3) True n(1,2) f sl
    by (auto simp: stream_Read_def readChunkedStream_def openChunked_def streamSizeLine_def Let_def cs)
  with s True show ?thesis by (intro exI [of _ r'] exI [of _ bs] exI [of _ d'] exI [of _ cs']) (simp add: cs)
qed

lemma readChunkedStream_end:
  assumes "openChunked r [] [] lastLine rest" and "0 < k"
  shows "\<exists>r'. stream_Read r k = (r', [], Some (BodyError ErrEOF)) \<and> sdone r' \<and> serr r' = None \<and> leftover r' = [] \<and>
    trailers r' = [] \<and> unread r' = rest"
proof -
  have sl: "streamSizeLine lastLine 0" using assms(1) by (simp add: openChunked_def)
  have "unread r = (if needCRLF r then [13, 10] else []) @ lastLine @ [13, 10] @ [13, 10] @ rest"
    using assms(1) by (auto simp: openChunked_def chunkWire_def)
  from nextLine_clean [OF assms(1) this] sl obtain r1 r2 where
    n: "(if needCRLF r then expectCRLF r else (r, None)) = (r1, None)" "stream_readLine (r1\<lparr>needCRLF := False\<rparr>) [] = (r2, Inr lastLine)"
      "unread r2 = [13, 10] @ rest" "clean (sconn r2)" "moved (r\<lparr>needCRLF := False\<rparr>) r2" by (auto simp: streamSizeLine_def)
  note f = moved_fields [OF n(5)]
  from stream_readLine_clean [OF n(4), of "[]" rest "[]"] n(3) obtain r3 where
    t: "stream_readLine r2 [] = (r3, Inr [])" "unread r3 = rest" "moved r2 r3" by (auto simp: maxChunkLine_def)
  have "readTrailers r2 = (r3, None)" using t(1) by (simp add: readTrailers.simps [of r2])
  then have "stream_Read r k = (r3\<lparr>sdone := True\<rparr>, [], Some (BodyError ErrEOF))"
    using assms n(1,2) f sl
    by (auto simp: stream_Read_def readChunkedStream_def openChunked_def streamSizeLine_def Let_def)
  then show ?thesis using t(2) moved_fields [OF t(3)] f assms(1) by (auto simp: openChunked_def unread_def)
qed

lemma chunked_run:
  assumes "openChunked r d cs lastLine rest" and "list_all ((<) 0) ks" and "length (d @ concat (map snd cs)) < length ks"
  shows "\<exists>r'. run_reads r ks = (r', d @ concat (map snd cs), Some (BodyError ErrEOF)) \<and> serr r' = None \<and> leftover r' = [] \<and>
    trailers r' = [] \<and> unread r' = rest"
  using assms
proof (induction ks arbitrary: r d cs)
  case (Cons k ks)
  have k: "0 < k" using Cons.prems(2) by simp
  show ?case
  proof (cases "d = [] \<and> cs = []")
    case True
    with readChunkedStream_end [of r lastLine rest k] Cons.prems(1) k show ?thesis by auto
  next
    case False
    then have "d \<noteq> [] \<or> cs \<noteq> []" by blast
    from readChunkedStream_step [OF Cons.prems(1) this k] obtain r1 bs d' cs' where
      s: "stream_Read r k = (r1, bs, None)" "bs \<noteq> []" "d @ concat (map snd cs) = bs @ d' @ concat (map snd cs')"
        "openChunked r1 d' cs' lastLine rest" by blast
    have "0 < length bs" "length (bs @ d' @ concat (map snd cs')) < Suc (length ks)" using s(2) Cons.prems(3) s(3) by simp_all
    then have "length (d' @ concat (map snd cs')) < length ks" unfolding length_append by linarith
    from Cons.IH [OF s(4) _ this] Cons.prems(2) s(1,3) show ?thesis by auto
  qed
qed simp

section \<open>Properties\<close>

text \<open>
  C20: A body of fixed length is read to its end whatever the sizes of the handler's buffers: once
  there have been as many reads as the body has bytes, exactly the bytes of the body have been
  delivered, the end of the body is reported, and all bytes behind it are still there, in the
  left-over or in the connection.
\<close>

theorem stream_fixed_complete:
  assumes "clean conn" and "n \<le> length (pre @ incoming conn)" and "list_all ((<) 0) ks" and "n \<le> length ks" and "ks \<noteq> []"
  shows "\<exists>r. run_reads (newRequestBodyStream conn pre (int n) False mx) ks =
      (r, take n (pre @ incoming conn), Some (BodyError ErrEOF)) \<and> serr r = None \<and>
    leftover r @ incoming (sconn r) = drop n (pre @ incoming conn)"
proof -
  let ?r = "newRequestBodyStream conn pre (int n) False mx"
  have "openFixed ?r n" "unread ?r = pre @ incoming conn"
    using assms(1) by (simp_all add: openFixed_def newRequestBodyStream_def unread_def)
  with fixed_run [of ?r n ks] assms(2-) show ?thesis by auto
qed

theorem stream_fixed_complete_witness:
  "\<exists>r. run_reads (newRequestBodyStream [([3, 4, 5], None :: unit option)] [1, 2] (int 4) False 10) [3, 1, 2, 2] = (r, [1, 2, 3, 4], Some (BodyError ErrEOF)) \<and>
     leftover r @ incoming (sconn r) = [5]"
  using stream_fixed_complete [of "[([3, 4, 5], None :: unit option)]" 4 "[1, 2]" "[3, 1, 2, 2]" 10]
  by (auto simp: clean_def incoming_def)

text \<open>
  C36: A body that the peer cuts short by closing the connection ends for the handler in the same
  way as a complete one: it gets the bytes that arrived and then the plain end of the body, not an
  unexpected one. Only the field the connection loop looks at afterwards records the failure.
\<close>

theorem stream_fixed_truncated:
  assumes "clean conn" and "length (pre @ incoming conn) < n" and "list_all ((<) 0) ks" and "length (pre @ incoming conn) < length ks"
  shows "\<exists>r. run_reads (newRequestBodyStream conn pre (int n) False mx) ks = (r, pre @ incoming conn, Some (BodyError ErrEOF)) \<and>
    serr r = Some (BodyError ErrEOF)"
proof -
  let ?r = "newRequestBodyStream conn pre (int n) False mx"
  have "openFixed ?r n" "unread ?r = pre @ incoming conn"
    using assms(1) by (simp_all add: openFixed_def newRequestBodyStream_def unread_def)
  with fixed_run_truncated [of ?r n ks] assms(2-) show ?thesis by auto
qed

theorem stream_fixed_truncated_witness:
  "\<exists>r. run_reads (newRequestBodyStream [([3], None :: unit option)] [1, 2] (int 9) False 10) [3, 1, 2, 2] = (r, [1, 2, 3], Some (BodyError ErrEOF)) \<and>
     serr r = Some (BodyError ErrEOF)"
  using stream_fixed_truncated [of "[([3], None :: unit option)]" "[1, 2]" 9 "[3, 1, 2, 2]" 10]
  by (auto simp: clean_def incoming_def)

text \<open>
  C19: A chunked body is delivered completely for every cutting of the input and every choice of
  buffers, and nothing behind it is consumed. But \<open>finish\<close> hands no left-over to the connection loop:
  the bytes of the next request that had been received with the body stay in \<open>prefix\<close>.
\<close>

theorem stream_chunked_complete:
  assumes "clean conn" and "pre @ incoming conn = chunkWire cs @ lastLine @ [13, 10] @ [13, 10] @ rest"
    and "list_all (\<lambda>(line, data). streamSizeLine line (length data) \<and> data \<noteq> []) cs" and "streamSizeLine lastLine 0"
    and "int (length (concat (map snd cs))) \<le> mx" and "list_all ((<) 0) ks" and "length (concat (map snd cs)) < length ks"
  shows "\<exists>r. run_reads (newRequestBodyStream conn pre 0 True mx) ks = (r, concat (map snd cs), Some (BodyError ErrEOF)) \<and>
    finish r = ([], [], None) \<and> sprefix r @ incoming (sconn r) = rest"
proof -
  let ?r = "newRequestBodyStream conn pre 0 True mx"
  have "openChunked ?r [] cs lastLine rest"
    using assms(1-5) by (simp add: openChunked_def newRequestBodyStream_def unread_def)
  with chunked_run [of ?r "[]" cs lastLine rest ks] assms(6,7) show ?thesis
    by (auto simp: finish_def unread_def)
qed

theorem stream_chunked_complete_witness:
  "\<exists>r. run_reads (newRequestBodyStream ([] :: unit reads) (s2b ''3'' @ [13, 10, 1, 2, 3, 13, 10] @ s2b ''0'' @ [13, 10, 13, 10] @ s2b ''GET'') 0 True 10) [2, 2, 2, 2] =
     (r, [1, 2, 3], Some (BodyError ErrEOF)) \<and> finish r = ([], [], None) \<and> sprefix r @ incoming (sconn r) = s2b ''GET''"
proof -
  have "streamSizeLine (s2b ''3'') 3" "streamSizeLine (s2b ''0'') 0" by code_simp+
  then show ?thesis
    using stream_chunked_complete [of "[] :: unit reads" "s2b ''3'' @ [13, 10, 1, 2, 3, 13, 10] @ s2b ''0'' @ [13, 10, 13, 10] @ s2b ''GET''"
      "[(s2b ''3'', [1, 2, 3])]" "s2b ''0''" "s2b ''GET''" 10 "[2, 2, 2, 2]"]
    by (simp add: clean_def incoming_def chunkWire_def numeral_3_eq_3 del: run_reads.simps)
qed

text \<open>
  The two decoders of chunked bodies disagree on the size line: a sign in front of the size is
  rejected by the buffering one and accepted by the streaming one.
\<close>

theorem chunk_size_sign_differs:
  "chunkSize (s2b ''+3'') = None \<and> streamSizeLine (s2b ''+3'') 3"
  by code_simp

end
