(* ===== verification/Http_Budget.thy ===== *)
theory Http_Budget
  imports Http_Chunked
begin

text \<open>
  The memory budgets of the application (\<open>src/body_budget.go\<close>). Reservations are loops around a
  compare-and-swap; one iteration, for the value it has loaded, is a definition of its own, and a step
  relation interleaves the iterations of any number of goroutines. The locale \<open>budget\<close> is what the
  request and the response budget have in common.
\<close>

section \<open>The application's counters\<close>

record App =
  MaxBufferedRequestBytes :: int
  MaxBufferedResponseBytes :: int
  bufferedRequestBytes :: int
  bufferedResponseBytes :: int
  bodyBudgetRejections :: u64

text \<open>The outcome of one iteration of a reservation loop.\<close>

datatype attempt = Granted | Rejected | Retry

definition reserveBody_iter :: "App \<Rightarrow> int \<Rightarrow> int \<Rightarrow> App \<times> attempt" where
  "reserveBody_iter a n current =
     (if n > goInt (MaxBufferedRequestBytes a - current)
      then (a\<lparr>bodyBudgetRejections := bodyBudgetRejections a + 1\<rparr>, Rejected)
      else if bufferedRequestBytes a = current then (a\<lparr>bufferedRequestBytes := goInt (current + n)\<rparr>, Granted)
      else (a, Retry))"

definition reserveResponse_iter :: "App \<Rightarrow> int \<Rightarrow> int \<Rightarrow> App \<times> attempt" where
  "reserveResponse_iter a n current =
     (if n > goInt (MaxBufferedResponseBytes a - current)
      then (a\<lparr>bodyBudgetRejections := bodyBudgetRejections a + 1\<rparr>, Rejected)
      else if bufferedResponseBytes a = current then (a\<lparr>bufferedResponseBytes := goInt (current + n)\<rparr>, Granted)
      else (a, Retry))"

text \<open>Without interference the first iteration decides.\<close>

definition reserveBufferedBody :: "App \<Rightarrow> int \<Rightarrow> App \<times> bool" where
  "reserveBufferedBody a n =
     (if MaxBufferedRequestBytes a \<le> 0 \<or> n \<le> 0 then (a, True)
      else case reserveBody_iter a n (bufferedRequestBytes a) of (a', r) \<Rightarrow> (a', r = Granted))"

definition reserveBufferedResponse :: "App \<Rightarrow> int \<Rightarrow> App \<times> bool" where
  "reserveBufferedResponse a n =
     (if MaxBufferedResponseBytes a \<le> 0 \<or> n \<le> 0 then (a, True)
      else case reserveResponse_iter a n (bufferedResponseBytes a) of (a', r) \<Rightarrow> (a', r = Granted))"

definition releaseBufferedBody :: "App \<Rightarrow> int \<Rightarrow> App" where
  "releaseBufferedBody a n =
     (if MaxBufferedRequestBytes a > 0 \<and> n > 0 then a\<lparr>bufferedRequestBytes := goInt (bufferedRequestBytes a - n)\<rparr> else a)"

definition releaseBufferedResponse :: "App \<Rightarrow> int \<Rightarrow> App" where
  "releaseBufferedResponse a n =
     (if MaxBufferedResponseBytes a > 0 \<and> n > 0 then a\<lparr>bufferedResponseBytes := goInt (bufferedResponseBytes a - n)\<rparr> else a)"

text \<open>
  The response of one request: its server, if it has one, and \<open>bufferedResponseReserved\<close>.
  \<open>reserveResponseBody\<close> answers \<^term>\<open>False\<close> for \<open>ErrResponseBodyTooLarge\<close>.
\<close>

definition reserveResponseBody :: "App option \<Rightarrow> int \<Rightarrow> int \<Rightarrow> App option \<times> int \<times> bool" where
  "reserveResponseBody srv reserved n =
     (case srv of
        None \<Rightarrow> (srv, reserved, True)
      | Some a \<Rightarrow>
          if n \<le> reserved then (srv, reserved, True)
          else case reserveBufferedResponse a (n - reserved) of
            (a', ok) \<Rightarrow> if \<not> ok then (Some a', reserved, False) else (Some a', n, True))"

definition releaseResponseBody :: "App option \<Rightarrow> int \<Rightarrow> App option \<times> int" where
  "releaseResponseBody srv reserved =
     (case srv of
        None \<Rightarrow> (srv, reserved)
      | Some a \<Rightarrow> if reserved > 0 then (Some (releaseBufferedResponse a reserved), 0) else (srv, reserved))"

section \<open>Interleaving\<close>

text \<open>
  A goroutine holds some bytes and is either idle or in the loop of a reservation for \<open>n\<close> bytes
  after loading \<open>current\<close>.
\<close>

datatype thread = Idle int | Trying int int int

fun held :: "thread \<Rightarrow> int" where
  "held (Idle h) = h"
| "held (Trying h n current) = h"

inductive budget_step ::
  "(App \<Rightarrow> int) \<Rightarrow> (App \<Rightarrow> int \<Rightarrow> int \<Rightarrow> App \<times> attempt) \<Rightarrow> (App \<Rightarrow> int \<Rightarrow> App) \<Rightarrow>
   App \<times> thread list \<Rightarrow> App \<times> thread list \<Rightarrow> bool"
  for counter iter release where
  load: "i < length ts \<Longrightarrow> ts ! i = Idle h \<Longrightarrow> 0 < n \<Longrightarrow>
     budget_step counter iter release (a, ts) (a, ts[i := Trying h n (counter a)])"
| granted: "i < length ts \<Longrightarrow> ts ! i = Trying h n cur \<Longrightarrow> iter a n cur = (a', Granted) \<Longrightarrow>
     budget_step counter iter release (a, ts) (a', ts[i := Idle (h + n)])"
| rejected: "i < length ts \<Longrightarrow> ts ! i = Trying h n cur \<Longrightarrow> iter a n cur = (a', Rejected) \<Longrightarrow>
     budget_step counter iter release (a, ts) (a', ts[i := Idle h])"
| retry: "i < length ts \<Longrightarrow> ts ! i = Trying h n cur \<Longrightarrow> iter a n cur = (a', Retry) \<Longrightarrow>
     budget_step counter iter release (a, ts) (a', ts[i := Trying h n (counter a')])"
| release: "i < length ts \<Longrightarrow> ts ! i = Idle h \<Longrightarrow> 0 < n \<Longrightarrow> n \<le> h \<Longrightarrow>
     budget_step counter iter release (a, ts) (release a n, ts[i := Idle (h - n)])"

inductive_cases budget_stepE: "budget_step counter iter release (a, ts) (a', ts')"

inductive budget_reachable ::
  "(App \<Rightarrow> int) \<Rightarrow> (App \<Rightarrow> int \<Rightarrow> int \<Rightarrow> App \<times> attempt) \<Rightarrow> (App \<Rightarrow> int \<Rightarrow> App) \<Rightarrow>
   App \<times> thread list \<Rightarrow> App \<times> thread list \<Rightarrow> bool"
  for counter iter release s0 where
  start: "budget_reachable counter iter release s0 s0"
| step: "budget_reachable counter iter release s0 s \<Longrightarrow> budget_step counter iter release s t \<Longrightarrow>
     budget_reachable counter iter release s0 t"

lemma goInt_id: "- (2 ^ 63) \<le> x \<Longrightarrow> x < 2 ^ 63 \<Longrightarrow> goInt x = x"
  by (simp add: goInt_def)

text \<open>What is common to the two budgets.\<close>

locale budget =
  fixes counter :: "App \<Rightarrow> int" and limit :: "App \<Rightarrow> int"
    and iter :: "App \<Rightarrow> int \<Rightarrow> int \<Rightarrow> App \<times> attempt" and release :: "App \<Rightarrow> int \<Rightarrow> App"
  assumes iter_granted: "iter a n cur = (a', Granted) \<Longrightarrow>
      n \<le> goInt (limit a - cur) \<and> counter a = cur \<and> counter a' = goInt (cur + n) \<and> limit a' = limit a"
    and iter_other: "iter a n cur = (a', r) \<Longrightarrow> r \<noteq> Granted \<Longrightarrow> counter a' = counter a \<and> limit a' = limit a"
    and release_counter: "0 < limit a \<Longrightarrow> 0 < n \<Longrightarrow> counter (release a n) = goInt (counter a - n) \<and> limit (release a n) = limit a"
begin

definition ok :: "App \<times> thread list \<Rightarrow> bool" where
  "ok s \<longleftrightarrow> 0 < limit (fst s) \<and> limit (fst s) < 2 ^ 63 \<and> 0 \<le> counter (fst s) \<and> counter (fst s) \<le> limit (fst s) \<and>
     counter (fst s) = sum_list (map held (snd s)) \<and> list_all (\<lambda>t. 0 \<le> held t) (snd s) \<and>
     list_all (\<lambda>t. case t of Idle _ \<Rightarrow> True | Trying _ n _ \<Rightarrow> 0 < n) (snd s)"

lemma sum_update:
  "i < length ts \<Longrightarrow> sum_list (map held (ts[i := t])) = sum_list (map held ts) - held (ts ! i) + held t"
  by (induction ts arbitrary: i) (auto split: nat.splits)

lemma held_le_sum: "list_all (\<lambda>t. 0 \<le> held t) ts \<Longrightarrow> i < length ts \<Longrightarrow> held (ts ! i) \<le> sum_list (map held ts)"
proof (induction ts arbitrary: i)
  case (Cons t ts)
  have "0 \<le> sum_list (map held ts)" using Cons.prems(1) by (auto simp: list_all_iff intro!: sum_list_nonneg)
  with Cons show ?case by (cases i) (auto intro: order_trans [of _ "sum_list (map held ts)"])
qed simp

lemma list_all_update: "list_all P ts \<Longrightarrow> P t \<Longrightarrow> list_all P (ts[i := t])"
  by (auto simp: list_all_iff dest!: subsetD [OF set_update_subset_insert])

lemma ok_thread:
  assumes "ok (a, ts)" and "i < length ts"
  shows "0 \<le> held (ts ! i)" and "ts ! i = Trying h n cur \<Longrightarrow> 0 < n"
  using assms by (auto simp: ok_def list_all_length split: thread.splits)

lemma ok_step:
  assumes "ok s" and "budget_step counter iter release s t"
  shows "ok t \<and> limit (fst t) = limit (fst s)"
  using assms(2,1)
proof (cases rule: budget_step.cases)
  case (load i ts h n a)
  then have "0 \<le> h" using assms(1) ok_thread(1) [of a ts i] by simp
  with load assms(1) show ?thesis by (auto simp: ok_def sum_update list_all_update)
next
  case (granted i ts h n cur a a')
  note g = iter_granted [OF granted(5)]
  have n: "0 < n" "0 \<le> h" using assms(1) granted ok_thread [of a ts i] by simp_all
  have c: "0 \<le> cur" "cur \<le> limit a" "limit a < 2 ^ 63" using assms(1) granted g by (auto simp: ok_def)
  then have "n \<le> limit a - cur" using g goInt_id [of "limit a - cur"] by simp
  then have "counter a' = cur + n" using g n c goInt_id [of "cur + n"] by simp
  with assms(1) granted g n \<open>n \<le> limit a - cur\<close> show ?thesis by (auto simp: ok_def sum_update list_all_update)
next
  case (rejected i ts h n cur a a')
  then have "0 \<le> h" using assms(1) ok_thread(1) [of a ts i] by simp
  with rejected iter_other [OF rejected(5)] assms(1) show ?thesis by (auto simp: ok_def sum_update list_all_update)
next
  case (retry i ts h n cur a a')
  then have "0 \<le> h" "0 < n" using assms(1) ok_thread [of a ts i] by simp_all
  with retry iter_other [OF retry(5)] assms(1) show ?thesis by (auto simp: ok_def sum_update list_all_update)
next
  case (release i ts h n a)
  have "h \<le> counter a" using held_le_sum [of ts i] assms(1) release by (auto simp: ok_def)
  moreover have "counter a < 2 ^ 63" "0 < limit a" using assms(1) release by (auto simp: ok_def)
  ultimately show ?thesis
    using release release_counter [of a n] goInt_id [of "counter a - n"] assms(1)
    by (auto simp: ok_def sum_update list_all_update)
qed

lemma ok_reachable: "budget_reachable counter iter release s0 s \<Longrightarrow> ok s0 \<Longrightarrow> ok s \<and> limit (fst s) = limit (fst s0)"
  by (induction rule: budget_reachable.induct) (auto dest: ok_step)

end

interpretation request_budget: budget bufferedRequestBytes MaxBufferedRequestBytes reserveBody_iter releaseBufferedBody
  by unfold_locales (auto simp: reserveBody_iter_def releaseBufferedBody_def split: if_splits)

interpretation response_budget: budget bufferedResponseBytes MaxBufferedResponseBytes reserveResponse_iter releaseBufferedResponse
  by unfold_locales (auto simp: reserveResponse_iter_def releaseBufferedResponse_def split: if_splits)

section \<open>Properties\<close>

text \<open>
  C9: However the goroutines are interleaved, between the load and the swap of a reservation too, the
  bytes accounted for never exceed the configured limit, are never negative, and are exactly what
  the goroutines hold: no reservation is lost or counted twice.
\<close>

theorem request_budget_never_exceeded:
  assumes "budget_reachable bufferedRequestBytes reserveBody_iter releaseBufferedBody (a0, replicate k (Idle 0)) (a, ts)"
    and "0 < MaxBufferedRequestBytes a0" and "MaxBufferedRequestBytes a0 < 2 ^ 63" and "bufferedRequestBytes a0 = 0"
  shows "0 \<le> bufferedRequestBytes a \<and> bufferedRequestBytes a \<le> MaxBufferedRequestBytes a0 \<and>
    bufferedRequestBytes a = sum_list (map held ts) \<and> list_all (\<lambda>t. 0 \<le> held t) ts"
proof -
  have "request_budget.ok (a0, replicate k (Idle 0))"
    using assms(2-4) by (simp add: request_budget.ok_def sum_list_replicate list_all_length map_replicate)
  with request_budget.ok_reachable [OF assms(1)] show ?thesis by (simp add: request_budget.ok_def)
qed

definition sampleApp :: App where
  "sampleApp = \<lparr>MaxBufferedRequestBytes = 10, MaxBufferedResponseBytes = 10, bufferedRequestBytes = 0,
     bufferedResponseBytes = 0, bodyBudgetRejections = 0\<rparr>"

theorem request_budget_never_exceeded_witness:
  "\<exists>a ts. budget_reachable bufferedRequestBytes reserveBody_iter releaseBufferedBody (sampleApp, replicate 2 (Idle 0)) (a, ts) \<and>
     bufferedRequestBytes a = 7 \<and> bufferedRequestBytes a \<le> 10 \<and> sum_list (map held ts) = 7"
proof -
  let ?reach = "budget_reachable bufferedRequestBytes reserveBody_iter releaseBufferedBody (sampleApp, replicate 2 (Idle 0))"
  let ?step = "budget_step bufferedRequestBytes reserveBody_iter releaseBufferedBody"
  let ?a = "sampleApp\<lparr>bufferedRequestBytes := 7\<rparr>"
  have "?step (sampleApp, replicate 2 (Idle 0)) (sampleApp, [Trying 0 7 0, Idle 0])"
    using budget_step.load [of 0 "replicate 2 (Idle 0)" 0 7 bufferedRequestBytes reserveBody_iter releaseBufferedBody sampleApp]
    by (simp add: sampleApp_def numeral_2_eq_2)
  moreover have "?step (sampleApp, [Trying 0 7 0, Idle 0]) (?a, [Idle 7, Idle 0])"
    using budget_step.granted [of 0 "[Trying 0 7 0, Idle 0]" 0 7 0 reserveBody_iter sampleApp ?a bufferedRequestBytes releaseBufferedBody]
    by (simp add: sampleApp_def reserveBody_iter_def goInt_def)
  ultimately have r: "?reach (?a, [Idle 7, Idle 0])" by (blast intro: budget_reachable.intros)
  from request_budget_never_exceeded [OF r] have "bufferedRequestBytes ?a \<le> 10 \<and> bufferedRequestBytes ?a = sum_list (map held [Idle 7, Idle 0])"
    by (simp add: sampleApp_def)
  with r show ?thesis by (intro exI [of _ ?a] exI [of _ "[Idle 7, Idle 0]"]) simp
qed

text \<open>
  C32: The response of a request reserves only what it grows by and gives back all of it: while the
  budget admits the reservations, the server's count exceeds what it was before the request by
  exactly the largest size asked for, and after the release it is what it was.
\<close>

theorem response_reservation_released:
  assumes "0 < MaxBufferedResponseBytes a" and "MaxBufferedResponseBytes a < 2 ^ 63" and "0 \<le> bufferedResponseBytes a"
    and "bufferedResponseBytes a \<le> MaxBufferedResponseBytes a" and "0 \<le> n" and "n \<le> m"
    and "reserveResponseBody (Some a) 0 n = (s1, r1, True)" and "reserveResponseBody s1 r1 m = (s2, r2, True)"
  shows "r2 = m \<and> (\<exists>b. s2 = Some b \<and> bufferedResponseBytes b = bufferedResponseBytes a + m \<and>
      bufferedResponseBytes b \<le> MaxBufferedResponseBytes a \<and>
      (\<exists>c. releaseResponseBody s2 r2 = (Some c, 0) \<and> bufferedResponseBytes c = bufferedResponseBytes a))"
  using assms
  by (auto simp: reserveResponseBody_def releaseResponseBody_def reserveBufferedResponse_def reserveResponse_iter_def
      releaseBufferedResponse_def goInt_id not_less split: if_splits prod.splits)

theorem response_reservation_released_witness:
  "case reserveResponseBody (Some sampleApp) 0 3 of (s1, r1, ok1) \<Rightarrow> ok1 \<and>
    (case reserveResponseBody s1 r1 8 of (s2, r2, ok2) \<Rightarrow> ok2 \<and> r2 = 8 \<and>
      (case releaseResponseBody s2 r2 of (s3, r3) \<Rightarrow> s3 = Some sampleApp \<and> r3 = 0))"
proof -
  have 1: "reserveResponseBody (Some sampleApp) 0 3 = (Some (sampleApp\<lparr>bufferedResponseBytes := 3\<rparr>), 3, True)"
      "reserveResponseBody (Some (sampleApp\<lparr>bufferedResponseBytes := 3\<rparr>)) 3 8 = (Some (sampleApp\<lparr>bufferedResponseBytes := 8\<rparr>), 8, True)"
      "releaseResponseBody (Some (sampleApp\<lparr>bufferedResponseBytes := 8\<rparr>)) 8 = (Some sampleApp, 0)" by code_simp+
  have "bufferedResponseBytes sampleApp = 0" "MaxBufferedResponseBytes sampleApp = 10" by (simp_all add: sampleApp_def)
  with response_reservation_released [OF _ _ _ _ _ _ 1(1,2)] 1 show ?thesis by simp
qed

section \<open>Streaming a chunked body against the budget\<close>

text \<open>The callback of the connection loop: it counts what the request holds in \<open>reservedBodyBytes\<close>.\<close>

definition reserveChunk :: "App \<times> int \<Rightarrow> int \<Rightarrow> (App \<times> int) \<times> bool" where
  "reserveChunk s n =
     (case reserveBufferedBody (fst s) n of
        (a, ok) \<Rightarrow> if \<not> ok then ((a, snd s), False) else ((a, snd s + n), True))"

text \<open>
  C31: A chunked body that is buffered is paid for: when it has been read, the request holds exactly
  its length, the application's count has grown by exactly this, and it is still within the limit.
\<close>

theorem chunked_body_paid:
  assumes "readChunkedBodyWithReserve c initial maxBody timeout (Some reserveChunk) (a, 0) =
      Some ((a', paid), Inr (body, leftover, trailers, rs))"
    and "0 < MaxBufferedRequestBytes a" and "MaxBufferedRequestBytes a < 2 ^ 63"
    and "0 \<le> bufferedRequestBytes a" and "bufferedRequestBytes a \<le> MaxBufferedRequestBytes a"
  shows "paid = int (length body) \<and> bufferedRequestBytes a' = bufferedRequestBytes a + int (length body) \<and>
    bufferedRequestBytes a' \<le> MaxBufferedRequestBytes a"
proof -
  from assms(1) obtain b1 rs1 where l: "chunks_loop maxBody (Some reserveChunk) (a, 0) initial (reads c) [] = Some ((a', paid), Inr (body, b1, rs1))"
    by (auto simp: readChunkedBodyWithReserve_def split: if_splits option.splits sum.splits)
  define I where "I s \<longleftrightarrow> MaxBufferedRequestBytes (fst s) = MaxBufferedRequestBytes a \<and> 0 \<le> bufferedRequestBytes (fst s) \<and>
      bufferedRequestBytes (fst s) \<le> MaxBufferedRequestBytes a" for s :: "App \<times> int"
  have law: "bufferedRequestBytes (fst s') = bufferedRequestBytes (fst s) + n" "snd s' = snd s + n" "I s'"
    if "I s" "0 < n" "reserveChunk s n = (s', True)" for s n s'
    using that assms(2,3) unfolding I_def
    by (auto simp: reserveChunk_def reserveBufferedBody_def reserveBody_iter_def goInt_id not_less split: if_splits prod.splits)
  have I: "I (a, 0)" using assms(4,5) by (simp add: I_def)
  have "snd (a', paid) = snd (a, 0 :: int) + (int (length body) - int (length ([] :: bytes)))"
    by (rule chunks_loop_reserved [of I reserveChunk snd, OF _ l I]) (use law in blast)
  moreover have "bufferedRequestBytes (fst (a', paid)) = bufferedRequestBytes (fst (a, 0 :: int)) + (int (length body) - int (length ([] :: bytes)))"
    by (rule chunks_loop_reserved [of I reserveChunk "\<lambda>s. bufferedRequestBytes (fst s)", OF _ l I]) (use law in blast)
  moreover have "I (a', paid)" by (rule chunks_loop_inv [of I reserveChunk, OF _ l I]) (use law in blast)
  ultimately show ?thesis by (simp add: I_def)
qed

theorem chunked_body_paid_witness:
  "case readChunkedBodyWithReserve \<lparr>deadlineErr = (None :: unit option), reads = []\<rparr> (s2b ''3'' @ [13, 10, 1, 2, 3, 13, 10] @ s2b ''0'' @ [13, 10, 13, 10]) 10 0
      (Some reserveChunk) (sampleApp, 0) of
     Some ((a', paid), Inr (body, _)) \<Rightarrow> body = [1, 2, 3] \<and> paid = 3 \<and> bufferedRequestBytes a' = 3 | _ \<Rightarrow> False"
proof -
  have "readChunkedBodyWithReserve \<lparr>deadlineErr = (None :: unit option), reads = []\<rparr> (s2b ''3'' @ [13, 10, 1, 2, 3, 13, 10] @ s2b ''0'' @ [13, 10, 13, 10]) 10 0
      (Some reserveChunk) (sampleApp, 0) = Some ((sampleApp\<lparr>bufferedRequestBytes := 3\<rparr>, 3), Inr ([1, 2, 3], [], [], []))" by code_simp
  from chunked_body_paid [OF this] this show ?thesis by (simp add: sampleApp_def)
qed

end
