(* ===== verification/Http_Body_Limit.thy ===== *)
theory Http_Body_Limit
  imports Http_Request
begin

text \<open>
  Limits on request bodies at the level of a handler's context (\<open>src/request_limit.go\<close>,
  \<open>src/request_body.go\<close>) and the Priority field (\<open>src/priority.go\<close>). The reader behind the limits is a
  parameter: a function from its state and the length of the buffer to the bytes it puts there
  and an error. What the code relies on is the contract of \<open>io.Reader\<close>, that it never returns more
  bytes than the buffer has room for.
\<close>

section \<open>Bounded readers\<close>

datatype 'e read_error = PayloadTooLarge | ReaderError 'e

text \<open>A reader: the underlying one, or a \<open>boundedRequestReader\<close> (reader, left, err) around a reader.\<close>

datatype ('s, 'e) reader = Base 's | Bounded "('s, 'e) reader" int "'e read_error option"

fun reader_Read :: "('s \<Rightarrow> nat \<Rightarrow> 's \<times> bytes \<times> 'e option) \<Rightarrow> ('s, 'e) reader \<Rightarrow> nat \<Rightarrow>
    ('s, 'e) reader \<times> bytes \<times> 'e read_error option" where
  "reader_Read rd (Base s) k = (case rd s k of (s', bs, e) \<Rightarrow> (Base s', bs, map_option ReaderError e))"
| "reader_Read rd (Bounded r left err) k =
     (if err \<noteq> None then (Bounded r left err, [], err)
      else if k = 0 then (Bounded r left err, [], None)
      else if left = 0 then
        (case reader_Read rd r 1 of
           (r', bs, e) \<Rightarrow>
             if length bs > 0 then (Bounded r' left (Some PayloadTooLarge), [], Some PayloadTooLarge)
             else (Bounded r' left err, [], e))
      else let k' = (if int k > left then nat left else k)
           in case reader_Read rd r k' of
             (r', bs, e) \<Rightarrow> (Bounded r' (left - int (length bs)) err, bs, e))"

text \<open>The walk of \<open>RequestBodyLimitError\<close> over the nested readers.\<close>

fun chainError :: "('s, 'e) reader \<Rightarrow> 'e read_error option" where
  "chainError (Base s) = None"
| "chainError (Bounded r left err) = (if err \<noteq> None then err else chainError r)"

section \<open>The context\<close>

record ('s, 'e) BodyCtx =
  cHeader :: RequestHeader
  cbody :: bytes
  requestBodyOverride :: "('s, 'e) reader option"
  requestBodyStream :: "('s, 'e) reader option"
  requestBodyReader :: "('s, 'e) reader option"
  requestBodyLimit :: "('s, 'e) reader option"
  bodyParserMapPtr :: nat
  bodyParserRawJSON :: bytes
  maxRequestBodySize :: "int option"

definition ctx_limitRequestBody :: "('s, 'e) BodyCtx \<Rightarrow> int \<Rightarrow> ('s, 'e) BodyCtx \<times> 'e read_error option" where
  "ctx_limitRequestBody c limit =
     (if HasContentLength (cHeader c) \<and> ContentLength (cHeader c) > limit then (c, Some PayloadTooLarge)
      else if requestBodyOverride c = None \<and> requestBodyStream c = None \<and> requestBodyReader c = None then
        (if int (length (cbody c)) > limit then (c, Some PayloadTooLarge) else (c, None))
      else
        let r = (case requestBodyLimit c of
                   Some r \<Rightarrow> r
                 | None \<Rightarrow> case requestBodyOverride c of
                     Some r \<Rightarrow> r
                   | None \<Rightarrow> case requestBodyStream c of Some r \<Rightarrow> r | None \<Rightarrow> the (requestBodyReader c))
        in (c\<lparr>requestBodyLimit := Some (Bounded r limit None)\<rparr>, None))"

text \<open>A context is the framework's own or one that only has a body.\<close>

datatype ('s, 'e) AnyCtx = DefaultCtx "('s, 'e) BodyCtx" | CustomCtx bytes

definition LimitRequestBody :: "('s, 'e) AnyCtx \<Rightarrow> int \<Rightarrow> ('s, 'e) AnyCtx \<times> 'e read_error option" where
  "LimitRequestBody c limit =
     (if limit \<le> 0 then (c, None)
      else case c of
        DefaultCtx dc \<Rightarrow> (case ctx_limitRequestBody dc limit of (dc', e) \<Rightarrow> (DefaultCtx dc', e))
      | CustomCtx body \<Rightarrow> if int (length body) > limit then (c, Some PayloadTooLarge) else (c, None))"

definition RequestBodyLimitError :: "('s, 'e) AnyCtx \<Rightarrow> 'e read_error option" where
  "RequestBodyLimitError c =
     (case c of
        CustomCtx _ \<Rightarrow> None
      | DefaultCtx dc \<Rightarrow> (case requestBodyLimit dc of None \<Rightarrow> None | Some r \<Rightarrow> chainError r))"

definition SetRequestBodyReader :: "('s, 'e) BodyCtx \<Rightarrow> ('s, 'e) reader \<Rightarrow> ('s, 'e) BodyCtx" where
  "SetRequestBodyReader c r =
     c\<lparr>requestBodyOverride := Some r, requestBodyLimit := None, cbody := [], bodyParserMapPtr := 0, bodyParserRawJSON := []\<rparr>"

text \<open>\<open>bytesReader\<close> is \<open>bytes.NewReader\<close>.\<close>

definition TrySetRequestBody :: "(bytes \<Rightarrow> 's) \<Rightarrow> ('s, 'e) BodyCtx \<Rightarrow> bytes \<Rightarrow> ('s, 'e) BodyCtx \<times> bool" where
  "TrySetRequestBody bytesReader c body =
     (if (case maxRequestBodySize c of Some m \<Rightarrow> m > 0 \<and> int (length body) > m | None \<Rightarrow> False) then (c, False)
      else (c\<lparr>cbody := body, requestBodyOverride := Some (Base (bytesReader body)), requestBodyLimit := None,
              cHeader := (cHeader c)\<lparr>ContentLength := int (length body), HasContentLength := True\<rparr>,
              bodyParserMapPtr := 0, bodyParserRawJSON := []\<rparr>, True))"

definition SetRequestBody :: "(bytes \<Rightarrow> 's) \<Rightarrow> ('s, 'e) BodyCtx \<Rightarrow> bytes \<Rightarrow> ('s, 'e) BodyCtx" where
  "SetRequestBody bytesReader c body = fst (TrySetRequestBody bytesReader c body)"

section \<open>Priority\<close>

record HTTPPriority =
  Urgency :: byte
  Incremental :: bool

text \<open>\<open>strconv.ParseUint(s, 10, 8)\<close>\<close>

definition ParseUint8 :: "bytes \<Rightarrow> int option" where
  "ParseUint8 s =
     (if s = [] then None
      else case decValue s 0 of None \<Rightarrow> None | Some n \<Rightarrow> if n > 255 then None else Some n)"

definition priorityItem :: "HTTPPriority \<Rightarrow> bytes \<Rightarrow> HTTPPriority" where
  "priorityItem p item =
     (if length item \<ge> 2 \<and> (item ! 0 = ch CHR ''u'' \<or> item ! 0 = ch CHR ''U'') \<and> item ! 1 = ch CHR ''='' then
        (case ParseUint8 (drop 2 item) of
           Some urgency \<Rightarrow> if urgency \<le> 7 then p\<lparr>Urgency := word_of_int urgency\<rparr> else p
         | None \<Rightarrow> p)
      else if length item = 1 \<and> (item ! 0 = ch CHR ''i'' \<or> item ! 0 = ch CHR ''I'') then p\<lparr>Incremental := True\<rparr>
      else p)"

function RequestPriority_loop :: "HTTPPriority \<Rightarrow> bytes \<Rightarrow> HTTPPriority" where
  "RequestPriority_loop p v =
     (let v' = dropWhile (\<lambda>c. c = ch CHR '' '' \<or> c = 9 \<or> c = ch CHR '','') v
      in if v' = [] then p
         else let item = takeWhile (\<lambda>c. c \<noteq> ch CHR '','') v';
                  p = priorityItem p item
              in if length item = length v' then p
                 else RequestPriority_loop p (drop (length item + 1) v'))"
  by pat_completeness auto
termination
proof (relation "measure (\<lambda>(p, v). length v)")
  fix v v' item :: bytes and p p' :: HTTPPriority
  assume "v' = dropWhile (\<lambda>c. c = ch CHR '' '' \<or> c = 9 \<or> c = ch CHR '','') v" "v' \<noteq> []"
  then have "length v' \<le> length v" "0 < length v'" using length_dropWhile_le by auto
  then have "length v' - Suc (length item) < length v" by linarith
  then show "((p', drop (length item + 1) v'), p, v) \<in> measure (\<lambda>(p, v). length v)" by simp
qed simp

declare RequestPriority_loop.simps [simp del]

definition RequestPriority :: "RequestHeader \<Rightarrow> HTTPPriority" where
  "RequestPriority h = RequestPriority_loop \<lparr>Urgency = 3, Incremental = False\<rparr> (Peek h (s2b ''Priority''))"

text \<open>\<open>strconv.Itoa\<close> on the numbers that occur.\<close>

fun Itoa :: "nat \<Rightarrow> bytes" where
  "Itoa n = (if n < 10 then [word_of_nat (48 + n)] else Itoa (n div 10) @ [word_of_nat (48 + n mod 10)])"

declare Itoa.simps [simp del]

text \<open>The value that \<open>SetResponsePriority\<close> sets the Priority field to.\<close>

definition SetResponsePriority :: "HTTPPriority \<Rightarrow> bytes" where
  "SetResponsePriority p =
     (let p = (if Urgency p > 7 then p\<lparr>Urgency := 7\<rparr> else p);
          v = s2b ''u='' @ Itoa (unat (Urgency p))
      in if Incremental p then v @ s2b '', i'' else v)"

section \<open>Properties\<close>

text \<open>The contract of \<open>io.Reader\<close>.\<close>

definition reader_contract :: "('s \<Rightarrow> nat \<Rightarrow> 's \<times> bytes \<times> 'e option) \<Rightarrow> bool" where
  "reader_contract rd \<longleftrightarrow> (\<forall>s k. length (fst (snd (rd s k))) \<le> k)"

fun reader_run :: "('s \<Rightarrow> nat \<Rightarrow> 's \<times> bytes \<times> 'e option) \<Rightarrow> ('s, 'e) reader \<Rightarrow> nat list \<Rightarrow>
    ('s, 'e) reader \<times> bytes \<times> 'e read_error list" where
  "reader_run rd r [] = (r, [], [])"
| "reader_run rd r (k # ks) =
     (case reader_Read rd r k of (r, bs, e) \<Rightarrow>
        case reader_run rd r ks of (r, bs', es) \<Rightarrow> (r, bs @ bs', (case e of Some e \<Rightarrow> [e] | None \<Rightarrow> []) @ es))"

lemma reader_Read_len:
  assumes "reader_contract rd"
  shows "reader_Read rd r k = (r', bs, e) \<Longrightarrow> length bs \<le> k"
  using assms
proof (induction rd r k arbitrary: r' bs e rule: reader_Read.induct)
  case (1 rd s k)
  then show ?case by (auto simp: reader_contract_def split: prod.splits) (metis fst_conv snd_conv)
next
  case (2 rd r left err k)
  show ?case
  proof (cases "err \<noteq> None \<or> k = 0 \<or> left = 0")
    case True
    with 2(3) show ?thesis by (auto split: if_splits prod.splits)
  next
    case False
    let ?k = "if int k > left then nat left else k"
    obtain r1 bs1 e1 where r1: "reader_Read rd r ?k = (r1, bs1, e1)" by (cases "reader_Read rd r ?k") auto
    with False 2(3) have "bs = bs1" by (auto simp: Let_def)
    moreover have "length bs1 \<le> ?k" using 2(2) r1 2(4) False by blast
    ultimately show ?thesis by (auto split: if_splits)
  qed
qed

lemma reader_Read_sticky: "chainError r \<noteq> None \<Longrightarrow> chainError (fst (reader_Read rd r k)) \<noteq> None"
  by (induction rd r k rule: reader_Read.induct) (auto simp: Let_def split: prod.splits if_splits)

lemma reader_Read_reported: "reader_Read rd r k = (r', bs, Some PayloadTooLarge) \<Longrightarrow> chainError r' \<noteq> None"
proof (induction rd r k arbitrary: r' bs rule: reader_Read.induct)
  case (1 rd s k)
  then show ?case by (auto split: prod.splits option.splits)
next
  case (2 rd r left err k)
  then show ?case by (auto simp: Let_def split: prod.splits if_splits)
qed

lemma reader_run_sticky: "chainError r \<noteq> None \<Longrightarrow> chainError (fst (reader_run rd r ks)) \<noteq> None"
proof (induction ks arbitrary: r)
  case (Cons k ks)
  obtain r1 bs e where r1: "reader_Read rd r k = (r1, bs, e)" by (metis prod_cases3)
  then have "chainError r1 \<noteq> None" using reader_Read_sticky [OF Cons.prems, of rd k] by simp
  from Cons.IH [OF this] r1 show ?case by (simp add: case_prod_beta)
qed simp

lemma reader_run_bound:
  assumes "reader_contract rd" and "0 \<le> left"
  shows "int (length (fst (snd (reader_run rd (Bounded r left err) ks)))) \<le> left"
  using assms(2)
proof (induction ks arbitrary: r left err)
  case (Cons k ks)
  obtain r1 bs e where r1: "reader_Read rd (Bounded r left err) k = (r1, bs, e)" by (metis prod_cases3)
  have "\<exists>r' err'. r1 = Bounded r' (left - int (length bs)) err' \<and> int (length bs) \<le> left"
  proof (cases "err \<noteq> None \<or> k = 0 \<or> left = 0")
    case True
    with r1 Cons.prems show ?thesis by (auto split: if_splits prod.splits)
  next
    case False
    let ?k = "if int k > left then nat left else k"
    obtain r2 bs2 e2 where r2: "reader_Read rd r ?k = (r2, bs2, e2)" by (cases "reader_Read rd r ?k") auto
    with False r1 have "bs = bs2" "r1 = Bounded r2 (left - int (length bs2)) err" by (auto simp: Let_def)
    moreover have "int (length bs2) \<le> left" using reader_Read_len [OF assms(1) r2] Cons.prems by (auto split: if_splits)
    ultimately show ?thesis by blast
  qed
  then obtain r' err' where "r1 = Bounded r' (left - int (length bs)) err'" "int (length bs) \<le> left" by blast
  with Cons.IH [of "left - int (length bs)" r' err'] r1 show ?case by (simp add: case_prod_beta)
qed simp

text \<open>
  C12: A limited body never gives the handler more bytes than its limit, however it reads, and a
  violation is never lost: once a read has failed because the body is too large, at this or at an
  inner limit, \<open>RequestBodyLimitError\<close> reports an error after the handler, even if the handler
  ignored it and read on.
\<close>

theorem body_limit_enforced:
  assumes "reader_contract rd" and "0 \<le> limit" and "reader_run rd (Bounded r limit None) ks = (r', out, es)"
    and "requestBodyLimit dc = Some r'"
  shows "int (length out) \<le> limit \<and> (PayloadTooLarge \<in> set es \<longrightarrow> RequestBodyLimitError (DefaultCtx dc) \<noteq> None)"
proof -
  have "chainError r2 \<noteq> None" if "reader_run rd r1 ks = (r2, out, es)" "PayloadTooLarge \<in> set es" for r1 r2 out es
    using that
  proof (induction ks arbitrary: r1 out es)
    case (Cons k ks)
    obtain r3 bs e where r3: "reader_Read rd r1 k = (r3, bs, e)" by (metis prod_cases3)
    obtain bs' es' where r4: "reader_run rd r3 ks = (r2, bs', es')" "es = (case e of Some e \<Rightarrow> [e] | None \<Rightarrow> []) @ es'"
      using Cons.prems(1) r3 by (auto split: prod.splits)
    show ?case
    proof (cases "PayloadTooLarge \<in> set es'")
      case False
      then have "e = Some PayloadTooLarge" using Cons.prems(2) r4(2) by (auto split: option.splits)
      then have "chainError r3 \<noteq> None" using reader_Read_reported r3 by blast
      from reader_run_sticky [OF this, of rd ks] r4(1) show ?thesis by simp
    qed (use Cons.IH r4(1) in blast)
  qed simp
  then show ?thesis
    using reader_run_bound [OF assms(1,2), of r None ks] assms(3,4) by (auto simp: RequestBodyLimitError_def)
qed

text \<open>A reader over a string, which shows that the contract can be met.\<close>

definition stringReader :: "bytes \<Rightarrow> nat \<Rightarrow> bytes \<times> bytes \<times> unit option" where
  "stringReader s k = (drop k s, take k s, if s = [] then Some () else None)"

definition sampleBodyCtx :: "(bytes, unit) BodyCtx" where
  "sampleBodyCtx = \<lparr>cHeader = zeroHeader, cbody = [], requestBodyOverride = None, requestBodyStream = None, requestBodyReader = Some (Base [1, 2, 3, 4]),
     requestBodyLimit = None, bodyParserMapPtr = 0, bodyParserRawJSON = [], maxRequestBodySize = None\<rparr>"

theorem body_limit_enforced_witness:
  "case reader_run stringReader (Bounded (Base [1, 2, 3, 4]) 3 None) [2, 2, 2, 2] of
     (r', out, es) \<Rightarrow> out = [1, 2, 3] \<and> RequestBodyLimitError (DefaultCtx (sampleBodyCtx\<lparr>requestBodyLimit := Some r'\<rparr>)) \<noteq> None"
proof -
  let ?r = "reader_run stringReader (Bounded (Base [1, 2, 3, 4]) 3 None) [2, 2, 2, 2]"
  have e: "fst (snd ?r) = [1, 2, 3]" "snd (snd ?r) = [PayloadTooLarge, PayloadTooLarge]" by code_simp+
  have c: "reader_contract stringReader" by (simp add: reader_contract_def stringReader_def)
  define r' where "r' = fst ?r"
  have r: "?r = (r', [1, 2, 3], [PayloadTooLarge, PayloadTooLarge])" using e unfolding r'_def by (metis prod.collapse)
  from body_limit_enforced [OF c _ r, of "sampleBodyCtx\<lparr>requestBodyLimit := Some r'\<rparr>"]
  show ?thesis unfolding r by simp
qed

lemma priorityItem_urgency: "Urgency p \<le> 7 \<Longrightarrow> Urgency (priorityItem p item) \<le> 7"
proof -
  have "word_of_int n \<le> (7 :: byte)" if "n \<le> 7" "0 \<le> n" for n :: int
  proof -
    have "uint (word_of_int n :: byte) = n" using that by (simp add: uint_word_of_int_eq take_bit_int_eq_self)
    then show ?thesis using that by (simp add: word_le_def)
  qed
  moreover have "0 \<le> n" if "decValue s m = Some n" "0 \<le> m" for s m n
    using that
  proof (induction s arbitrary: m)
    case (Cons c s)
    then obtain d where d: "decDigit c = Some d" "decValue s (m * 10 + d) = Some n" by (auto split: option.splits)
    then show ?case using Cons.IH [OF d(2)] Cons.prems(2) decDigit_range [OF d(1)] by simp
  qed simp
  ultimately show "Urgency p \<le> 7 \<Longrightarrow> Urgency (priorityItem p item) \<le> 7"
    by (auto simp: priorityItem_def ParseUint8_def split: option.splits if_splits)
qed

lemma RequestPriority_loop_urgency: "Urgency p \<le> 7 \<Longrightarrow> Urgency (RequestPriority_loop p v) \<le> 7"
proof (induction p v rule: RequestPriority_loop.induct)
  case (1 p v)
  then show ?case
    by (subst RequestPriority_loop.simps) (simp add: Let_def priorityItem_urgency)
qed

lemma urgency_cases: "(u :: byte) \<le> 7 \<Longrightarrow> u \<in> {0, 1, 2, 3, 4, 5, 6, 7}"
proof -
  assume "u \<le> 7"
  then have "unat u \<le> 7" by (simp add: word_le_nat_alt)
  then have "unat u \<in> {0, 1, 2, 3, 4, 5, 6, 7}" by auto
  then show ?thesis by (auto simp: word_unat_eq_iff)
qed

text \<open>
  C40: The Priority field round-trips: what \<open>SetResponsePriority\<close> writes for a priority is read back by
  \<open>RequestPriority\<close> as this priority with the urgency capped at 7; and whatever the field contains, the
  urgency that is read is at most 7.
\<close>

theorem priority_roundtrip:
  "RequestPriority_loop \<lparr>Urgency = 3, Incremental = False\<rparr> (SetResponsePriority p) =
     p\<lparr>Urgency := (if Urgency p > 7 then 7 else Urgency p)\<rparr> \<and>
   Urgency (RequestPriority h) \<le> 7"
proof -
  have eight: "\<forall>u \<in> set [0, 1, 2, 3, 4, 5, 6, 7]. \<forall>i \<in> set [True, False].
      RequestPriority_loop \<lparr>Urgency = 3, Incremental = False\<rparr> (SetResponsePriority \<lparr>Urgency = u, Incremental = i\<rparr>) = \<lparr>Urgency = u, Incremental = i\<rparr>"
    by code_simp
  obtain u i where p: "p = \<lparr>Urgency = u, Incremental = i\<rparr>" by (cases p) simp
  define w where "w = (if u > 7 then 7 else u)"
  have "w \<le> 7" by (auto simp: w_def)
  then have "w \<in> set [0, 1, 2, 3, 4, 5, 6, 7]" using urgency_cases [of w] by simp
  moreover have "i \<in> set [True, False]" by simp
  ultimately have "RequestPriority_loop \<lparr>Urgency = 3, Incremental = False\<rparr> (SetResponsePriority \<lparr>Urgency = w, Incremental = i\<rparr>) = \<lparr>Urgency = w, Incremental = i\<rparr>"
    using eight by blast
  moreover have "SetResponsePriority \<lparr>Urgency = w, Incremental = i\<rparr> = SetResponsePriority p"
    by (auto simp: SetResponsePriority_def p w_def Let_def)
  ultimately show ?thesis
    using RequestPriority_loop_urgency by (simp add: p w_def RequestPriority_def)
qed

end
