(* ===== verification/Router_Path.thy ===== *)
theory Router_Path
  imports Http_Lexical
begin

text \<open>
  The lexical part of the router (\<open>src/router.go\<close>): the functions of Go's \<open>strings\<close> and
  \<open>strconv\<close> packages it calls, parameter constraints, the splitting of route patterns and of
  request paths, and the validators used at registration. What Go reads from the Unicode tables
  for strings outside ASCII, and the regular-expression engine, are the fields of the parameter
  \<open>golib\<close>; every other library function is written out.
\<close>

section \<open>Library functions\<close>

text \<open>
  \<open>uniUpper\<close> and \<open>uniLower\<close> stand for \<open>strings.Map(unicode.ToUpper, s)\<close> and its lower-case
  counterpart on a string that is not pure ASCII. \<open>rxMatch p\<close> is \<open>regexp.Compile(p)\<close>: the
  matcher \<open>MatchString\<close> of the compiled expression, \<^term>\<open>None\<close> for a compile error.
\<close>

record golib =
  uniUpper :: "bytes \<Rightarrow> bytes"
  uniLower :: "bytes \<Rightarrow> bytes"
  rxMatch :: "bytes \<Rightarrow> (bytes \<Rightarrow> bool) option"

definition upperByte :: "byte \<Rightarrow> byte" where
  "upperByte c = (if ch CHR ''a'' \<le> c \<and> c \<le> ch CHR ''z'' then c - 32 else c)"

definition lowerByte :: "byte \<Rightarrow> byte" where
  "lowerByte c = (if ch CHR ''A'' \<le> c \<and> c \<le> ch CHR ''Z'' then c + 32 else c)"

definition isASCII :: "bytes \<Rightarrow> bool" where
  "isASCII s \<longleftrightarrow> list_all (\<lambda>c. c < 0x80) s"

definition ToUpper :: "golib \<Rightarrow> bytes \<Rightarrow> bytes" where
  "ToUpper G s = (if isASCII s then map upperByte s else uniUpper G s)"

definition ToLower :: "golib \<Rightarrow> bytes \<Rightarrow> bytes" where
  "ToLower G s = (if isASCII s then map lowerByte s else uniLower G s)"

text \<open>The UTF-8 encodings of the characters with \<open>unicode.IsSpace\<close>.\<close>

definition spaceEncodings :: "bytes list" where
  "spaceEncodings =
     [[9], [10], [11], [12], [13], [32], [0xC2, 0x85], [0xC2, 0xA0], [0xE1, 0x9A, 0x80],
      [0xE2, 0x80, 0x80], [0xE2, 0x80, 0x81], [0xE2, 0x80, 0x82], [0xE2, 0x80, 0x83],
      [0xE2, 0x80, 0x84], [0xE2, 0x80, 0x85], [0xE2, 0x80, 0x86], [0xE2, 0x80, 0x87],
      [0xE2, 0x80, 0x88], [0xE2, 0x80, 0x89], [0xE2, 0x80, 0x8A], [0xE2, 0x80, 0xA8],
      [0xE2, 0x80, 0xA9], [0xE2, 0x80, 0xAF], [0xE2, 0x81, 0x9F], [0xE3, 0x80, 0x80]]"

fun startsWith :: "bytes \<Rightarrow> bytes \<Rightarrow> bool" where
  "startsWith s [] = True"
| "startsWith [] (p # ps) = False"
| "startsWith (x # xs) (p # ps) = (x = p \<and> startsWith xs ps)"

text \<open>Removing leading occurrences of the given non-empty encodings.\<close>

function trimLeading :: "bytes list \<Rightarrow> bytes \<Rightarrow> bytes" where
  "trimLeading es s =
     (case find (\<lambda>e. e \<noteq> [] \<and> startsWith s e) es of
        None \<Rightarrow> s
      | Some e \<Rightarrow> trimLeading es (drop (length e) s))"
  by pat_completeness auto

lemma startsWith_iff: "startsWith s p \<longleftrightarrow> (\<exists>t. s = p @ t)"
  by (induction s p rule: startsWith.induct) auto

termination trimLeading
proof (relation "measure (length \<circ> snd)", goal_cases)
  case (2 es s e)
  then obtain t where "s = e @ t" "e \<noteq> []" by (auto simp: find_Some_iff startsWith_iff)
  then show ?case by simp
qed simp

declare trimLeading.simps [simp del]

definition TrimSpace :: "bytes \<Rightarrow> bytes" where
  "TrimSpace s = rev (trimLeading (map rev spaceEncodings) (rev (trimLeading spaceEncodings s)))"

text \<open>\<open>strings.LastIndexByte\<close>\<close>

definition lastIndexByte :: "bytes \<Rightarrow> byte \<Rightarrow> nat option" where
  "lastIndexByte s c = last_index (\<lambda>x. x = c) s"

text \<open>
  \<open>strconv.ParseUint(s, 10, 64)\<close> and \<open>strconv.Atoi\<close> as far as their error result goes: digits
  only, an optional sign for \<open>Atoi\<close>, and the value in range.
\<close>

definition isDigit :: "byte \<Rightarrow> bool" where
  "isDigit c \<longleftrightarrow> ch CHR ''0'' \<le> c \<and> c \<le> ch CHR ''9''"

definition decValue :: "bytes \<Rightarrow> int option" where
  "decValue s = (if s \<noteq> [] \<and> list_all isDigit s
     then Some (foldl (\<lambda>a c. a * 10 + (uint c - 48)) 0 s) else None)"

definition ParseUint :: "bytes \<Rightarrow> int option" where
  "ParseUint s = (case decValue s of None \<Rightarrow> None | Some v \<Rightarrow> if v \<le> 2 ^ 64 - 1 then Some v else None)"

definition Atoi :: "bytes \<Rightarrow> int option" where
  "Atoi s =
     (case s of [] \<Rightarrow> None
      | c # t \<Rightarrow>
        if c = ch CHR ''-'' then
          (case decValue t of None \<Rightarrow> None | Some v \<Rightarrow> if v \<le> 2 ^ 63 then Some (- v) else None)
        else (case decValue (if c = ch CHR ''+'' then t else s) of
            None \<Rightarrow> None | Some v \<Rightarrow> if v \<le> 2 ^ 63 - 1 then Some v else None))"

section \<open>Parameter constraints\<close>

datatype constraintKind = constraintNone | constraintInt | constraintUint | constraintAlpha
  | constraintAlphanumeric | constraintUUID | constraintRegex

text \<open>A compiled expression is represented by the pattern it was compiled from.\<close>

record paramConstraint =
  kind :: constraintKind
  regex :: "bytes option"
  raw :: bytes

definition noConstraint :: paramConstraint where
  "noConstraint = \<lparr>kind = constraintNone, regex = None, raw = []\<rparr>"

definition constraintOf :: "golib \<Rightarrow> bytes \<Rightarrow> paramConstraint" where
  "constraintOf G cStr =
     (let l = ToLower G cStr;
          mk = (\<lambda>k. \<lparr>kind = k, regex = None, raw = cStr\<rparr>) in
      if l = s2b ''int'' then mk constraintInt
      else if l = s2b ''uint'' then mk constraintUint
      else if l = s2b ''alpha'' then mk constraintAlpha
      else if l = s2b ''alphanumeric'' then mk constraintAlphanumeric
      else if l = s2b ''uuid'' \<or> l = s2b ''guid'' then mk constraintUUID
      else (let p = ch CHR ''^'' # cStr @ [ch CHR ''$''] in
        case rxMatch G p of
          Some _ \<Rightarrow> \<lparr>kind = constraintRegex, regex = Some p, raw = cStr\<rparr>
        | None \<Rightarrow> noConstraint))"

definition parseParamConstraint :: "golib \<Rightarrow> bytes \<Rightarrow> bytes \<times> paramConstraint \<times> bool" where
  "parseParamConstraint G name =
     (let isOptional = (name \<noteq> [] \<and> last name = ch CHR ''?'');
          cleanName = (if isOptional then butlast name else name) in
      case (indexByte cleanName (ch CHR ''<''), lastIndexByte cleanName (ch CHR ''>'')) of
        (Some start, Some end') \<Rightarrow>
          if start > 0 \<and> end' > start
          then (take start cleanName, constraintOf G (drop (Suc start) (take end' cleanName)), isOptional)
          else (cleanName, noConstraint, isOptional)
      | _ \<Rightarrow> (cleanName, noConstraint, isOptional))"

definition alphaByte :: "byte \<Rightarrow> bool" where
  "alphaByte c \<longleftrightarrow> (ch CHR ''a'' \<le> c \<and> c \<le> ch CHR ''z'') \<or> (ch CHR ''A'' \<le> c \<and> c \<le> ch CHR ''Z'')"

definition hexByte :: "byte \<Rightarrow> bool" where
  "hexByte c \<longleftrightarrow> isDigit c \<or> (ch CHR ''a'' \<le> c \<and> c \<le> ch CHR ''f'') \<or> (ch CHR ''A'' \<le> c \<and> c \<le> ch CHR ''F'')"

fun uuid_loop :: "nat \<Rightarrow> bytes \<Rightarrow> bool" where
  "uuid_loop i [] = True"
| "uuid_loop i (c # s) =
     (if i = 8 \<or> i = 13 \<or> i = 18 \<or> i = 23
      then (if c \<noteq> ch CHR ''-'' then False else uuid_loop (Suc i) s)
      else (if \<not> hexByte c then False else uuid_loop (Suc i) s))"

definition constraint_Match :: "golib \<Rightarrow> paramConstraint \<Rightarrow> bytes \<Rightarrow> bool" where
  "constraint_Match G pc v =
     (case kind pc of
        constraintNone \<Rightarrow> True
      | constraintInt \<Rightarrow> Atoi v \<noteq> None
      | constraintUint \<Rightarrow> ParseUint v \<noteq> None
      | constraintAlpha \<Rightarrow> if length v = 0 then False else list_all alphaByte v
      | constraintAlphanumeric \<Rightarrow> if length v = 0 then False else list_all (\<lambda>c. alphaByte c \<or> isDigit c) v
      | constraintUUID \<Rightarrow> if length v \<noteq> 36 then False else uuid_loop 0 v
      | constraintRegex \<Rightarrow>
          (case regex pc of
             None \<Rightarrow> True
           | Some p \<Rightarrow> (case rxMatch G p of None \<Rightarrow> True | Some f \<Rightarrow> f v)))"

section \<open>Route patterns and request paths\<close>

text \<open>The panics of route registration, one constructor per message.\<close>

datatype route_panic = InvalidMethod | NilHandler | PathWithoutSlash | DuplicateSlashes
  | ControlCharacter | RouterFrozen | DuplicateRoute | EmptySegment | WildcardNotFinal
  | ConflictingWildcard | StaticSegmentChars | EmptyParam | InvalidParam
  | EmptyRouteName | UnregisteredRoute | DuplicateName

fun hasDoubleSlash :: "bytes \<Rightarrow> bool" where
  "hasDoubleSlash (a # b # s) = (a = ch CHR ''/'' \<and> b = ch CHR ''/'' \<or> hasDoubleSlash (b # s))"
| "hasDoubleSlash _ = False"

definition normalizeRoutePath :: "bytes \<Rightarrow> bytes \<Rightarrow> route_panic + bytes" where
  "normalizeRoutePath method path0 =
     (let path1 = TrimSpace path0;
          path = (if path1 = [] then s2b ''/'' else path1) in
      if method = s2b ''OPTIONS'' \<and> path = s2b ''*'' then Inr (s2b ''*'')
      else if hd path \<noteq> ch CHR ''/'' then Inl PathWithoutSlash
      else if length path > 1 \<and> hasDoubleSlash path then Inl DuplicateSlashes
      else Inr path)"

definition splitRouteSegments :: "bytes \<Rightarrow> bytes list" where
  "splitRouteSegments path =
     (if path = [] \<or> path = s2b ''/'' then []
      else if path = s2b ''*'' then [s2b ''*'']
      else split_on (ch CHR ''/'') (if hd path = ch CHR ''/'' then tl path else path))"

definition cleanLookupPath :: "bytes \<Rightarrow> bytes" where
  "cleanLookupPath path0 =
     (let path = dropWhile (\<lambda>c. c = ch CHR ''/'') path0 in
      if length path > 0 \<and> hd path = ch CHR ''?'' then [] else path)"

definition routeLookupPath :: "bytes \<Rightarrow> bytes" where
  "routeLookupPath path = (case indexByte path (ch CHR ''?'') of Some i \<Rightarrow> take i path | None \<Rightarrow> path)"

definition segByte :: "byte \<Rightarrow> bool" where
  "segByte c \<longleftrightarrow> c \<noteq> ch CHR ''?'' \<and> c \<noteq> ch CHR ''/''"

definition nextSegment :: "bytes \<Rightarrow> bytes \<times> bytes" where
  "nextSegment path =
     (case dropWhile segByte path of
        [] \<Rightarrow> (path, [])
      | c # r \<Rightarrow>
        if c = ch CHR ''?'' then (takeWhile segByte path, [])
        else (takeWhile segByte path, dropWhile (\<lambda>c. c = ch CHR ''/'') r))"

definition validateStaticSegment :: "bytes \<Rightarrow> route_panic option" where
  "validateStaticSegment seg =
     (if seg = [] then Some EmptySegment
      else if hd seg = ch CHR '':'' \<or> hd seg = ch CHR ''*'' then None
      else if list_ex (\<lambda>c. c = ch CHR '':'' \<or> c = ch CHR ''*'') seg then Some StaticSegmentChars
      else None)"

definition nameByte :: "byte \<Rightarrow> bool" where
  "nameByte c \<longleftrightarrow> alphaByte c \<or> isDigit c \<or> c = ch CHR ''_''"

definition validateParamName :: "bytes \<Rightarrow> route_panic option" where
  "validateParamName name =
     (if name = [] then Some EmptyParam
      else if list_all nameByte name then None else Some InvalidParam)"

definition validTokenString :: "bytes \<Rightarrow> bool" where
  "validTokenString s \<longleftrightarrow> s \<noteq> [] \<and>
     list_all (\<lambda>c. c \<in> set (s2b ''!#$%&*+-.^_`|~'') \<or> c = 39 \<or> isDigit c \<or> alphaByte c) s"

definition paramValue :: "bytes \<Rightarrow> bool \<Rightarrow> bytes" where
  "paramValue b unsafeMode = b"

lemmas route_evals = ToUpper_def ToLower_def isASCII_def TrimSpace_def normalizeRoutePath_def
  splitRouteSegments_def cleanLookupPath_def routeLookupPath_def nextSegment_def

section \<open>Facts about segments\<close>

lemma nextSegment_Nil [simp]: "nextSegment [] = ([], [])"
  by (simp add: nextSegment_def)

lemma nextSegment_shorter [len_simps]:
  assumes "path \<noteq> []"
  shows "length (snd (nextSegment path)) < length path"
proof (cases "dropWhile segByte path")
  case Nil
  with assms show ?thesis by (simp add: nextSegment_def del: dropWhile_eq_Nil_conv)
next
  case (Cons c r)
  have "length (dropWhile segByte path) \<le> length path" by (rule length_dropWhile_le)
  with Cons have "length r < length path" by simp
  moreover have "length (dropWhile (\<lambda>c. c = ch CHR ''/'') r) \<le> length r" by (rule length_dropWhile_le)
  ultimately show ?thesis using Cons assms by (simp add: nextSegment_def)
qed

lemma fst_nextSegment: "fst (nextSegment path) = takeWhile segByte path"
proof (cases "dropWhile segByte path")
  case Nil
  then have "takeWhile segByte path = path" by (simp add: takeWhile_eq_all_conv dropWhile_eq_Nil_conv)
  with Nil show ?thesis unfolding nextSegment_def by (simp only: list.case fst_conv)
qed (simp add: nextSegment_def)

text \<open>A segment followed by nothing, by a query or by further segments.\<close>

lemma nextSegment_last: "list_all segByte s \<Longrightarrow> nextSegment s = (s, [])"
  by (simp add: nextSegment_def list_all_iff dropWhile_eq_Nil_conv [THEN iffD2])

lemma nextSegment_slash:
  assumes "list_all segByte s"
  shows "nextSegment (s @ ch CHR ''/'' # r) = (s, dropWhile (\<lambda>c. c = ch CHR ''/'') r)"
proof -
  have "dropWhile segByte (s @ ch CHR ''/'' # r) = ch CHR ''/'' # r"
    using assms by (simp add: list_all_iff dropWhile_append2 segByte_def)
  moreover have "takeWhile segByte (s @ ch CHR ''/'' # r) = s"
    using assms by (simp add: list_all_iff takeWhile_append2 segByte_def)
  ultimately show ?thesis by (simp add: nextSegment_def)
qed

lemma routeLookupPath_Nil [simp]: "routeLookupPath [] = []"
  by (simp add: routeLookupPath_def)

lemma routeLookupPath_id: "ch CHR ''?'' \<notin> set p \<Longrightarrow> routeLookupPath p = p"
  by (simp add: routeLookupPath_def indexByte_None_iff [THEN iffD2])

lemma routeLookupPath_eq: "routeLookupPath p = takeWhile (\<lambda>c. c \<noteq> ch CHR ''?'') p"
proof (cases "indexByte p (ch CHR ''?'')")
  case None
  then have "ch CHR ''?'' \<notin> set p" by (simp add: indexByte_None_iff)
  then have "takeWhile (\<lambda>c. c \<noteq> ch CHR ''?'') p = p" by (auto simp: takeWhile_eq_all_conv)
  with None show ?thesis unfolding routeLookupPath_def by (simp only: option.case)
next
  case (Some i)
  then have "p = take i p @ ch CHR ''?'' # drop (Suc i) p" "ch CHR ''?'' \<notin> set (take i p)"
    using indexByte_split indexByte_SomeD by blast+
  moreover have "takeWhile (\<lambda>c. c \<noteq> ch CHR ''?'') (take i p @ ch CHR ''?'' # drop (Suc i) p) = take i p"
    using calculation(2) by (subst takeWhile_append2) auto
  ultimately have "takeWhile (\<lambda>c. c \<noteq> ch CHR ''?'') p = take i p" by (simp only:)
  with Some show ?thesis by (simp add: routeLookupPath_def)
qed

lemma paramValue_eq [simp]: "paramValue b u = b"
  by (simp add: paramValue_def)

end
