(* ===== verification/Router_Trie.thy ===== *)
theory Router_Trie
  imports Router_Path "HOL-Library.AList"
begin

text \<open>
  The route trie of \<open>src/router.go\<close>: nodes and endpoints, insertion, and the three traversals
  \<open>match\<close>, \<open>matchesPath\<close> and \<open>matchPattern\<close>. A trie is specified by the endpoints
  its label paths lead to; insertion adds the endpoints of one pattern and keeps the others, and a
  traversal returns the accepting label path of highest precedence: static before constrained
  before unconstrained before wildcard, segment by segment.
\<close>

section \<open>Data\<close>

record Param =
  Key :: bytes
  Value :: bytes

record 'h routeEndpoint =
  fn :: 'h
  paramKeys :: "bytes list"
  pattern :: bytes

text \<open>
  The children of a node are the entries of \<open>static\<close>, the constrained children in the order of
  their registration, and at most one unconstrained and one wildcard child.
\<close>

datatype 'h node = Node
  (static: "(bytes \<times> 'h node) list")
  (param: "'h node option")
  (paramConstraints: "'h node list")
  (constraint: paramConstraint)
  (wild: "'h node option")
  (wildName: bytes)
  (handler: "'h routeEndpoint option")

definition newNode :: "paramConstraint \<Rightarrow> 'h node" where
  "newNode c = Node [] None [] c None [] None"

fun set_static :: "bytes \<Rightarrow> 'h node \<Rightarrow> 'h node \<Rightarrow> 'h node" where
  "set_static s m (Node st p cs c w wn h) = Node (AList.update s m st) p cs c w wn h"

fun set_param :: "'h node \<Rightarrow> 'h node \<Rightarrow> 'h node" where
  "set_param m (Node st p cs c w wn h) = Node st (Some m) cs c w wn h"

fun set_constraints :: "'h node list \<Rightarrow> 'h node \<Rightarrow> 'h node" where
  "set_constraints ms (Node st p cs c w wn h) = Node st p ms c w wn h"

fun set_wild :: "bytes \<Rightarrow> 'h node \<Rightarrow> 'h node \<Rightarrow> 'h node" where
  "set_wild name m (Node st p cs c w wn h) = Node st p cs c (Some m) name h"

fun set_handler :: "'h routeEndpoint \<Rightarrow> 'h node \<Rightarrow> 'h node" where
  "set_handler e (Node st p cs c w wn h) = Node st p cs c w wn (Some e)"

section \<open>Insertion\<close>

definition sameConstraint :: "paramConstraint \<Rightarrow> 'h node \<Rightarrow> bool" where
  "sameConstraint c child \<longleftrightarrow> kind (constraint child) = kind c \<and> raw (constraint child) = raw c"

text \<open>
  The first child with this constraint is replaced by \<open>f\<close> of it; without one, \<open>f\<close> of a fresh
  node is appended.
\<close>

fun update_constrained :: "paramConstraint \<Rightarrow> ('h node \<Rightarrow> 'h node) \<Rightarrow> 'h node list \<Rightarrow> 'h node list" where
  "update_constrained c f [] = [f (newNode c)]"
| "update_constrained c f (m # ms) =
     (if sameConstraint c m then f m # ms else m # update_constrained c f ms)"

definition constrainedTarget :: "paramConstraint \<Rightarrow> 'h node list \<Rightarrow> 'h node" where
  "constrainedTarget c ms = (case find (sameConstraint c) ms of Some m \<Rightarrow> m | None \<Rightarrow> newNode c)"

text \<open>
  \<open>insertRoute\<close> works in place; the result is the node afterwards and the panic, if any. The
  nodes created before a panic stay, as they do in the code. \<open>segs\<close> is \<open>segments[index:]\<close>.
\<close>

fun insertRoute ::
  "golib \<Rightarrow> bytes \<Rightarrow> 'h node \<Rightarrow> bytes list \<Rightarrow> 'h \<Rightarrow> bytes list \<Rightarrow> 'h node \<times> route_panic option" where
  "insertRoute G fullPath n [] h keys =
     (case handler n of
        Some _ \<Rightarrow> (n, Some DuplicateRoute)
      | None \<Rightarrow> (set_handler \<lparr>fn = h, paramKeys = keys, pattern = fullPath\<rparr> n, None))"
| "insertRoute G fullPath n (seg # segs) h keys =
     (if seg = [] then (n, Some EmptySegment)
      else if hd seg = ch CHR '':'' then
        (let (name, c, isOptional) = parseParamConstraint G (tl seg) in
         case validateParamName name of
           Some p \<Rightarrow> (n, Some p)
         | None \<Rightarrow>
           let n1 = (if isOptional \<and> segs = []
                     then set_handler \<lparr>fn = h, paramKeys = keys, pattern = fullPath\<rparr> n else n) in
           if kind c \<noteq> constraintNone then
             (let (m, p) = insertRoute G fullPath (constrainedTarget c (paramConstraints n)) segs h (keys @ [name])
              in (set_constraints (update_constrained c (\<lambda>_. m) (paramConstraints n)) n1, p))
           else
             (let (m, p) = insertRoute G fullPath
                  (case param n of Some m \<Rightarrow> m | None \<Rightarrow> newNode noConstraint) segs h (keys @ [name])
              in (set_param m n1, p)))
      else if hd seg = ch CHR ''*'' then
        (let name = (if tl seg = [] then s2b ''*'' else tl seg) in
         case (if tl seg = [] then None else validateParamName name) of
           Some p \<Rightarrow> (n, Some p)
         | None \<Rightarrow>
           if segs \<noteq> [] then (n, Some WildcardNotFinal)
           else (case wild n of
               None \<Rightarrow>
                 (let (m, p) = insertRoute G fullPath (newNode noConstraint) [] h (keys @ [name])
                  in (set_wild name m n, p))
             | Some w \<Rightarrow>
                 if wildName n \<noteq> name then (n, Some ConflictingWildcard)
                 else (let (m, p) = insertRoute G fullPath w [] h (keys @ [name])
                       in (set_wild name m n, p))))
      else
        (case validateStaticSegment seg of
           Some p \<Rightarrow> (n, Some p)
         | None \<Rightarrow>
           (let (m, p) = insertRoute G fullPath
                (case map_of (static n) seg of Some m \<Rightarrow> m | None \<Rightarrow> newNode noConstraint) segs h keys
            in (set_static seg m n, p))))"

section \<open>Lookup\<close>

definition endpointHandler :: "'h routeEndpoint option \<Rightarrow> Param list \<Rightarrow> 'h option \<times> Param list" where
  "endpointHandler endpoint params =
     (case endpoint of
        None \<Rightarrow> (None, params)
      | Some e \<Rightarrow>
        if length (paramKeys e) \<noteq> length params then (None, params)
        else (Some (fn e), map2 (\<lambda>k p. p\<lparr>Key := k\<rparr>) (paramKeys e) params))"

text \<open>
  \<open>if h := ...; h != nil { return h }; *params = (*params)[:mark]\<close> followed by the rest, and the
  sequence of two attempts.
\<close>

definition attempt :: "nat \<Rightarrow> 'h option \<times> Param list \<Rightarrow> 'h option \<times> Param list" where
  "attempt mark r = (case r of (Some h, ps) \<Rightarrow> (Some h, ps) | (None, ps) \<Rightarrow> (None, take mark ps))"

definition orElse :: "'h option \<times> Param list \<Rightarrow> (Param list \<Rightarrow> 'h option \<times> Param list) \<Rightarrow> 'h option \<times> Param list" where
  "orElse r k = (case r of (Some h, ps) \<Rightarrow> (Some h, ps) | (None, ps) \<Rightarrow> k ps)"

definition wildHandler :: "'h node option \<Rightarrow> bytes \<Rightarrow> Param list \<Rightarrow> 'h option \<times> Param list" where
  "wildHandler w v params =
     (case w of
        None \<Rightarrow> (None, params)
      | Some m \<Rightarrow> attempt (length params)
          (endpointHandler (handler m) (params @ [\<lparr>Key = [], Value = v\<rparr>])))"

function match :: "golib \<Rightarrow> 'h node \<Rightarrow> bytes \<Rightarrow> Param list \<Rightarrow> bool \<Rightarrow> 'h option \<times> Param list"
and matchConstrained :: "golib \<Rightarrow> 'h node list \<Rightarrow> bytes \<Rightarrow> bytes \<Rightarrow> Param list \<Rightarrow> bool \<Rightarrow> 'h option \<times> Param list" where
  "match G n path params u =
     (if path = [] then
        orElse (endpointHandler (handler n) params) (wildHandler (wild n) [])
      else
        (let seg = fst (nextSegment path); rest = snd (nextSegment path) in
         orElse (orElse (orElse
           (case map_of (static n) seg of
              None \<Rightarrow> (None, params)
            | Some child \<Rightarrow> attempt (length params) (match G child rest params u))
           (\<lambda>ps. if seg = [] then (None, ps) else matchConstrained G (paramConstraints n) seg rest ps u))
           (\<lambda>ps. case param n of
              None \<Rightarrow> (None, ps)
            | Some child \<Rightarrow>
              if seg = [] then (None, ps)
              else attempt (length ps) (match G child rest (ps @ [\<lparr>Key = [], Value = paramValue seg u\<rparr>]) u)))
           (wildHandler (wild n) (paramValue (routeLookupPath path) u))))"
| "matchConstrained G [] seg rest params u = (None, params)"
| "matchConstrained G (child # cs) seg rest params u =
     orElse
       (if constraint_Match G (constraint child) seg
        then attempt (length params) (match G child rest (params @ [\<lparr>Key = [], Value = paramValue seg u\<rparr>]) u)
        else (None, params))
       (\<lambda>ps. matchConstrained G cs seg rest ps u)"
  by pat_completeness auto

termination
  by (relation "inv_image (less_than <*lex*> less_than)
        (\<lambda>x. case x of Inl (G, n, path, ps, u) \<Rightarrow> (length path, 0::nat)
                      | Inr (G, cs, seg, rest, ps, u) \<Rightarrow> (length rest, Suc (length cs)))")
     (auto simp: nextSegment_shorter case_prod_unfold)

declare match.simps [simp del]

function matchesPath :: "golib \<Rightarrow> 'h node \<Rightarrow> bytes \<Rightarrow> bool"
and matchesConstrained :: "golib \<Rightarrow> 'h node list \<Rightarrow> bytes \<Rightarrow> bytes \<Rightarrow> bool" where
  "matchesPath G n path =
     (let wildEnd = (case wild n of None \<Rightarrow> False | Some w \<Rightarrow> handler w \<noteq> None) in
      if path = [] then handler n \<noteq> None \<or> wildEnd
      else
        (let seg = fst (nextSegment path); rest = snd (nextSegment path) in
         (case map_of (static n) seg of None \<Rightarrow> False | Some child \<Rightarrow> matchesPath G child rest)
         \<or> (seg \<noteq> [] \<and> matchesConstrained G (paramConstraints n) seg rest)
         \<or> (case param n of None \<Rightarrow> False | Some child \<Rightarrow> seg \<noteq> [] \<and> matchesPath G child rest)
         \<or> wildEnd))"
| "matchesConstrained G [] seg rest = False"
| "matchesConstrained G (child # cs) seg rest =
     (constraint_Match G (constraint child) seg \<and> matchesPath G child rest
      \<or> matchesConstrained G cs seg rest)"
  by pat_completeness auto

termination
  by (relation "inv_image (less_than <*lex*> less_than)
        (\<lambda>x. case x of Inl (G, n, path) \<Rightarrow> (length path, 0::nat)
                      | Inr (G, cs, seg, rest) \<Rightarrow> (length rest, Suc (length cs)))")
     (auto simp: nextSegment_shorter case_prod_unfold)

declare matchesPath.simps [simp del]

text \<open>\<open>if pattern := ...; pattern != "" { return pattern }\<close>\<close>

definition orPattern :: "bytes \<Rightarrow> bytes \<Rightarrow> bytes" where
  "orPattern p q = (if p \<noteq> [] then p else q)"

function matchPattern :: "golib \<Rightarrow> 'h node \<Rightarrow> bytes \<Rightarrow> bytes"
and patternConstrained :: "golib \<Rightarrow> 'h node list \<Rightarrow> bytes \<Rightarrow> bytes \<Rightarrow> bytes" where
  "matchPattern G n path =
     (let wildPattern = (case wild n of None \<Rightarrow> []
            | Some w \<Rightarrow> (case handler w of None \<Rightarrow> [] | Some e \<Rightarrow> pattern e)) in
      if path = [] then (case handler n of Some e \<Rightarrow> pattern e | None \<Rightarrow> wildPattern)
      else
        (let seg = fst (nextSegment path); rest = snd (nextSegment path) in
         orPattern (case map_of (static n) seg of None \<Rightarrow> [] | Some child \<Rightarrow> matchPattern G child rest)
           (orPattern (if seg = [] then [] else
              orPattern (patternConstrained G (paramConstraints n) seg rest)
                (case param n of None \<Rightarrow> [] | Some child \<Rightarrow> matchPattern G child rest))
           wildPattern)))"
| "patternConstrained G [] seg rest = []"
| "patternConstrained G (child # cs) seg rest =
     orPattern (if constraint_Match G (constraint child) seg then matchPattern G child rest else [])
       (patternConstrained G cs seg rest)"
  by pat_completeness auto

termination
  by (relation "inv_image (less_than <*lex*> less_than)
        (\<lambda>x. case x of Inl (G, n, path) \<Rightarrow> (length path, 0::nat)
                      | Inr (G, cs, seg, rest) \<Rightarrow> (length rest, Suc (length cs)))")
     (auto simp: nextSegment_shorter case_prod_unfold)

declare matchPattern.simps [simp del]

section \<open>Specification: labels, endpoints, acceptance\<close>

datatype label = LStatic bytes | LConstr paramConstraint | LParam | LWild

definition label_of :: "golib \<Rightarrow> bytes \<Rightarrow> label" where
  "label_of G seg =
     (if hd seg = ch CHR '':'' then
        (let c = fst (snd (parseParamConstraint G (tl seg))) in
         if kind c \<noteq> constraintNone then LConstr c else LParam)
      else if hd seg = ch CHR ''*'' then LWild else LStatic seg)"

definition keys_of :: "golib \<Rightarrow> bytes \<Rightarrow> bytes list" where
  "keys_of G seg =
     (if hd seg = ch CHR '':'' then [fst (parseParamConstraint G (tl seg))]
      else if hd seg = ch CHR ''*'' then [if tl seg = [] then s2b ''*'' else tl seg] else [])"

definition optional_seg :: "golib \<Rightarrow> bytes \<Rightarrow> bool" where
  "optional_seg G seg \<longleftrightarrow> hd seg = ch CHR '':'' \<and> snd (snd (parseParamConstraint G (tl seg)))"

text \<open>
  The label paths of a pattern with the parameter names: the pattern itself, and the pattern
  without its last segment if that is an optional parameter.
\<close>

definition variants :: "golib \<Rightarrow> bytes list \<Rightarrow> (label list \<times> bytes list) list" where
  "variants G segs =
     (map (label_of G) segs, concat (map (keys_of G) segs)) #
     (if segs \<noteq> [] \<and> optional_seg G (last segs)
      then [(map (label_of G) (butlast segs), concat (map (keys_of G) (butlast segs)))] else [])"

text \<open>The values a label path captures on a request path it accepts.\<close>

fun accepts :: "golib \<Rightarrow> label list \<Rightarrow> bytes \<Rightarrow> bytes list option" where
  "accepts G [] path = (if path = [] then Some [] else None)"
| "accepts G (l # ls) path =
     (let seg = fst (nextSegment path); rest = snd (nextSegment path) in
      case l of
        LStatic s \<Rightarrow> if path \<noteq> [] \<and> seg = s then accepts G ls rest else None
      | LConstr c \<Rightarrow> if path \<noteq> [] \<and> seg \<noteq> [] \<and> constraint_Match G c seg
                    then map_option ((#) seg) (accepts G ls rest) else None
      | LParam \<Rightarrow> if path \<noteq> [] \<and> seg \<noteq> [] then map_option ((#) seg) (accepts G ls rest) else None
      | LWild \<Rightarrow> if ls = [] then Some [routeLookupPath path] else None)"

text \<open>The endpoint at the end of a label path of a trie.\<close>

fun childAt :: "'h node \<Rightarrow> label \<Rightarrow> 'h node option" where
  "childAt n (LStatic s) = map_of (static n) s"
| "childAt n (LConstr c) = find (\<lambda>m. constraint m = c) (paramConstraints n)"
| "childAt n LParam = param n"
| "childAt n LWild = wild n"

fun endpointAt :: "'h node \<Rightarrow> label list \<Rightarrow> 'h routeEndpoint option" where
  "endpointAt n [] = handler n"
| "endpointAt n (l # ls) = (case childAt n l of None \<Rightarrow> None | Some m \<Rightarrow> endpointAt m ls)"

fun walk :: "'h node \<Rightarrow> label list \<Rightarrow> 'h node option" where
  "walk n [] = Some n"
| "walk n (l # ls) = (case childAt n l of None \<Rightarrow> None | Some m \<Rightarrow> walk m ls)"

text \<open>
  Well-formedness: at every node the constrained children carry pairwise different constraints, each
  of them one that \<open>parseParamConstraint\<close> produces.
\<close>

definition constraint_ok :: "paramConstraint \<Rightarrow> bool" where
  "constraint_ok c \<longleftrightarrow>
     regex c = (if kind c = constraintRegex then Some (ch CHR ''^'' # raw c @ [ch CHR ''$'']) else None)"

definition local_ok :: "'h node \<Rightarrow> bool" where
  "local_ok n \<longleftrightarrow> distinct (map constraint (paramConstraints n)) \<and>
     (\<forall>m \<in> set (paramConstraints n). constraint_ok (constraint m))"

definition wf_node :: "'h node \<Rightarrow> bool" where
  "wf_node n \<longleftrightarrow> (\<forall>ls m. walk n ls = Some m \<longrightarrow> local_ok m)"

lemma wf_node_unfold: "wf_node n \<longleftrightarrow> local_ok n \<and> (\<forall>l m. childAt n l = Some m \<longrightarrow> wf_node m)"
proof
  assume wf: "wf_node n"
  then have "local_ok n" unfolding wf_node_def by (metis walk.simps(1))
  moreover have "wf_node m" if "childAt n l = Some m" for l m
    unfolding wf_node_def
  proof (intro allI impI)
    fix ls k assume "walk m ls = Some k"
    with that have "walk n (l # ls) = Some k" by simp
    with wf show "local_ok k" unfolding wf_node_def by blast
  qed
  ultimately show "local_ok n \<and> (\<forall>l m. childAt n l = Some m \<longrightarrow> wf_node m)" by blast
next
  assume r: "local_ok n \<and> (\<forall>l m. childAt n l = Some m \<longrightarrow> wf_node m)"
  show "wf_node n" unfolding wf_node_def
  proof (intro allI impI)
    fix ls k assume w: "walk n ls = Some k"
    show "local_ok k"
    proof (cases ls)
      case (Cons l ls')
      with w obtain m where "childAt n l = Some m" "walk m ls' = Some k" by (auto split: option.splits)
      with r show ?thesis unfolding wf_node_def by blast
    qed (use w r in simp)
  qed
qed

section \<open>Node updates\<close>

lemma set_static_sel [simp]:
  "static (set_static s m n) = AList.update s m (static n)"
  "param (set_static s m n) = param n"
  "paramConstraints (set_static s m n) = paramConstraints n"
  "constraint (set_static s m n) = constraint n"
  "wild (set_static s m n) = wild n"
  "handler (set_static s m n) = handler n"
  by (cases n, simp_all)+

lemma set_param_sel [simp]:
  "static (set_param m n) = static n"
  "param (set_param m n) = Some m"
  "paramConstraints (set_param m n) = paramConstraints n"
  "constraint (set_param m n) = constraint n"
  "wild (set_param m n) = wild n"
  "handler (set_param m n) = handler n"
  by (cases n, simp_all)+

lemma set_constraints_sel [simp]:
  "static (set_constraints cs n) = static n"
  "param (set_constraints cs n) = param n"
  "paramConstraints (set_constraints cs n) = cs"
  "constraint (set_constraints cs n) = constraint n"
  "wild (set_constraints cs n) = wild n"
  "handler (set_constraints cs n) = handler n"
  by (cases n, simp_all)+

lemma set_wild_sel [simp]:
  "static (set_wild w m n) = static n"
  "param (set_wild w m n) = param n"
  "paramConstraints (set_wild w m n) = paramConstraints n"
  "constraint (set_wild w m n) = constraint n"
  "wild (set_wild w m n) = Some m"
  "handler (set_wild w m n) = handler n"
  by (cases n, simp_all)+

lemma set_handler_sel [simp]:
  "static (set_handler e n) = static n"
  "param (set_handler e n) = param n"
  "paramConstraints (set_handler e n) = paramConstraints n"
  "constraint (set_handler e n) = constraint n"
  "wild (set_handler e n) = wild n"
  "handler (set_handler e n) = Some e"
  by (cases n, simp_all)+

lemma newNode_simps [simp]:
  "static (newNode c) = []" "param (newNode c) = None" "paramConstraints (newNode c) = []"
  "constraint (newNode c) = c" "wild (newNode c) = None" "handler (newNode c) = None"
  by (simp_all add: newNode_def)

lemma child_newNode [simp]: "childAt (newNode c) l = None"
  by (cases l) simp_all

lemma endpointAt_newNode [simp]: "endpointAt (newNode c) ls = None"
  by (cases ls) simp_all

lemma wf_newNode [simp]: "wf_node (newNode c)"
  by (simp add: wf_node_unfold [of "newNode c"] local_ok_def)

lemma child_set_handler [simp]: "childAt (set_handler e n) l = childAt n l"
  by (cases l) simp_all

lemma constraint_ok_eq:
  "constraint_ok (c :: paramConstraint) \<Longrightarrow> constraint_ok d \<Longrightarrow> kind d = kind c \<Longrightarrow> raw d = raw c \<Longrightarrow> d = c"
  by (rule paramConstraint.equality) (simp_all add: constraint_ok_def)

lemma constraintOf_ok [simp]: "constraint_ok (constraintOf G s)"
  by (simp add: constraintOf_def noConstraint_def constraint_ok_def Let_def del: s2b_Cons split: option.split)

lemma parseParamConstraint_ok [simp]: "constraint_ok (fst (snd (parseParamConstraint G name)))"
proof -
  have "constraint_ok noConstraint" by (simp add: noConstraint_def constraint_ok_def)
  then show ?thesis by (simp add: parseParamConstraint_def Let_def split: option.split)
qed

lemma sameConstraint_iff:
  "constraint_ok c \<Longrightarrow> constraint_ok (constraint m) \<Longrightarrow> sameConstraint c m \<longleftrightarrow> constraint m = c"
  by (auto simp: sameConstraint_def intro: constraint_ok_eq)

lemma find_sameConstraint:
  "constraint_ok c \<Longrightarrow> \<forall>m \<in> set ms. constraint_ok (constraint m) \<Longrightarrow>
   find (sameConstraint c) ms = find (\<lambda>m. constraint m = c) ms"
  by (induction ms) (auto simp: sameConstraint_iff)

lemma update_constrained_find:
  assumes "constraint_ok c" "\<forall>m \<in> set ms. constraint_ok (constraint m)" "constraint k = c"
  shows "find (\<lambda>m. constraint m = d) (update_constrained c (\<lambda>_. k) ms) =
    (if d = c then Some k else find (\<lambda>m. constraint m = d) ms)"
  using assms by (induction ms) (auto simp: sameConstraint_iff)

lemma update_constrained_constraints:
  assumes "constraint_ok c" "\<forall>m \<in> set ms. constraint_ok (constraint m)" "constraint k = c"
  shows "map constraint (update_constrained c (\<lambda>_. k) ms) =
    (if c \<in> constraint ` set ms then map constraint ms else map constraint ms @ [c])"
  using assms by (induction ms) (auto simp: sameConstraint_iff)

lemma update_constrained_local_ok:
  assumes "local_ok n" "constraint_ok c" "constraint k = c"
  shows "distinct (map constraint (update_constrained c (\<lambda>_. k) (paramConstraints n)))"
    and "\<forall>m \<in> set (update_constrained c (\<lambda>_. k) (paramConstraints n)). constraint_ok (constraint m)"
proof -
  let ?cs = "paramConstraints n"
  have cs: "distinct (map constraint ?cs)" "\<forall>m \<in> set ?cs. constraint_ok (constraint m)"
    using assms by (auto simp: local_ok_def)
  note u = update_constrained_constraints [OF assms(2) cs(2) assms(3)]
  have "distinct (map constraint ?cs @ [c])" if "c \<notin> constraint ` set ?cs"
    using that cs(1) by simp
  with cs(1) show "distinct (map constraint (update_constrained c (\<lambda>_. k) ?cs))"
    unfolding u by (cases "c \<in> constraint ` set ?cs") (simp_all only: if_True if_False not_False_eq_True)
  have sub: "set (map constraint (update_constrained c (\<lambda>_. k) ?cs)) \<subseteq> insert c (set (map constraint ?cs))"
    unfolding u by (simp add: subset_insertI)
  show "\<forall>m \<in> set (update_constrained c (\<lambda>_. k) ?cs). constraint_ok (constraint m)"
  proof
    fix m assume "m \<in> set (update_constrained c (\<lambda>_. k) ?cs)"
    then have "constraint m \<in> set (map constraint (update_constrained c (\<lambda>_. k) ?cs))" by simp
    with sub have "constraint m \<in> insert c (set (map constraint ?cs))" by (rule subsetD)
    with cs(2) assms(2) show "constraint_ok (constraint m)" by auto
  qed
qed

text \<open>A node that differs from another one at its label \<open>l\<close> only.\<close>

definition put :: "label \<Rightarrow> 'h node \<Rightarrow> 'h node \<Rightarrow> 'h node \<Rightarrow> bool" where
  "put l m n n' \<longleftrightarrow> (\<forall>l'. childAt n' l' = (if l' = l then Some m else childAt n l')) \<and> local_ok n'"

lemma put_endpointAt:
  "put l m n n' \<Longrightarrow> endpointAt n' (l' # ls) = (if l' = l then endpointAt m ls else endpointAt n (l' # ls))"
  by (simp add: put_def)

lemma put_wf: "put l m n n' \<Longrightarrow> wf_node n \<Longrightarrow> wf_node m \<Longrightarrow> wf_node n'"
  by (auto simp: put_def wf_node_unfold [of n] wf_node_unfold [of n'])

lemma put_static: "local_ok n \<Longrightarrow> put (LStatic s) m n (set_static s m n)"
  unfolding put_def
  by (intro conjI allI, case_tac l') (auto simp: local_ok_def update_conv')

lemma put_param: "local_ok n \<Longrightarrow> put LParam m n (set_param m n)"
  unfolding put_def by (intro conjI allI, case_tac l') (auto simp: local_ok_def)

lemma put_wild: "local_ok n \<Longrightarrow> put LWild m n (set_wild w m n)"
  unfolding put_def by (intro conjI allI, case_tac l') (auto simp: local_ok_def)

lemma put_constrained:
  assumes "local_ok n" "constraint_ok c" "constraint m = c"
  shows "put (LConstr c) m n (set_constraints (update_constrained c (\<lambda>_. m) (paramConstraints n)) n)"
proof -
  have cs: "\<forall>m \<in> set (paramConstraints n). constraint_ok (constraint m)"
    using assms by (auto simp: local_ok_def)
  have "childAt (set_constraints (update_constrained c (\<lambda>_. m) (paramConstraints n)) n) l =
      (if l = LConstr c then Some m else childAt n l)" for l
    by (cases l) (use update_constrained_find [OF assms(2) cs assms(3)] in auto)
  moreover have "local_ok (set_constraints (update_constrained c (\<lambda>_. m) (paramConstraints n)) n)"
    using update_constrained_local_ok [OF assms] by (auto simp: local_ok_def)
  ultimately show ?thesis unfolding put_def by blast
qed

lemma put_set_handler: "put l m (set_handler e n) n' \<Longrightarrow> put l m n n'"
  by (simp add: put_def)

lemma local_ok_set_handler [simp]: "local_ok (set_handler e n) = local_ok n"
  by (simp add: local_ok_def)

end
