(* ===== verification/Router_Trie_Correct.thy ===== *)
theory Router_Trie_Correct
  imports Router_Trie "HOL-Library.List_Lexorder"
begin

text \<open>
  Correctness of the route trie: insertion adds exactly the endpoints of the pattern, and the
  traversals find the accepting endpoint of highest precedence.
\<close>

section \<open>Insertion\<close>

lemma insertRoute_constraint [simp]: "constraint (fst (insertRoute G full n segs h keys)) = constraint n"
proof (cases segs)
  case Nil
  then show ?thesis by (simp split: option.split)
next
  case (Cons seg segs')
  consider "seg = []" | "seg \<noteq> []" "hd seg = ch CHR '':''" | "seg \<noteq> []" "hd seg = ch CHR ''*''"
    | "seg \<noteq> []" "hd seg \<noteq> ch CHR '':''" "hd seg \<noteq> ch CHR ''*''" by blast
  then show ?thesis
    unfolding Cons
    by cases (simp_all add: Let_def case_prod_unfold del: s2b_Cons insertRoute.simps(1) split: option.split)
qed

lemma insertRoute_constraintD: "insertRoute G full n segs h keys = (m, p) \<Longrightarrow> constraint m = constraint n"
  using insertRoute_constraint [of G full n segs h keys] by simp

lemma constrainedTarget_constraint:
  "constraint_ok c \<Longrightarrow> local_ok n \<Longrightarrow> constraint (constrainedTarget c (paramConstraints n)) = c"
  by (auto simp: constrainedTarget_def local_ok_def find_sameConstraint find_Some_iff split: option.split)

lemma insertRoute_Cons_param:
  assumes ins: "insertRoute G full n (seg # segs) h keys = (n', None)" and ok: "local_ok n"
    and colon: "seg \<noteq> []" "hd seg = ch CHR '':''"
  shows "\<exists>t m. (childAt n (label_of G seg) = None \<and> (\<exists>c. t = newNode c) \<or> childAt n (label_of G seg) = Some t)
    \<and> insertRoute G full t segs h (keys @ keys_of G seg) = (m, None)
    \<and> put (label_of G seg) m n n'
    \<and> handler n' = (if optional_seg G seg \<and> segs = []
        then Some \<lparr>fn = h, paramKeys = keys, pattern = full\<rparr> else handler n)"
proof -
  obtain name c opt where pc: "parseParamConstraint G (tl seg) = (name, c, opt)" by (cases "parseParamConstraint G (tl seg)") auto
  have cok: "constraint_ok c" using parseParamConstraint_ok [of G "tl seg"] pc by simp
  define n1 where "n1 = (if opt \<and> segs = []
    then set_handler \<lparr>fn = h, paramKeys = keys, pattern = full\<rparr> n else n)"
  have n1: "local_ok n1" "paramConstraints n1 = paramConstraints n" "\<And>l. childAt n1 l = childAt n l"
    "handler n1 = (if optional_seg G seg \<and> segs = []
        then Some \<lparr>fn = h, paramKeys = keys, pattern = full\<rparr> else handler n)"
    using ok pc colon by (auto simp: n1_def optional_seg_def)
  have keys: "keys_of G seg = [name]" using pc colon by (simp add: keys_of_def)
  have valid: "validateParamName name = None"
    using ins pc colon by (auto split: option.splits)
  show ?thesis
  proof (cases "kind c \<noteq> constraintNone")
    case True
    let ?t = "constrainedTarget c (paramConstraints n)"
    obtain m p where m: "insertRoute G full ?t segs h (keys @ [name]) = (m, p)" by fastforce
    have r: "n' = set_constraints (update_constrained c (\<lambda>_. m) (paramConstraints n)) n1" "p = None"
      using ins pc colon valid True m by (auto simp: n1_def Let_def)
    have lab: "label_of G seg = LConstr c" using pc colon True by (simp add: label_of_def)
    have "constraint m = c" using insertRoute_constraintD [OF m] constrainedTarget_constraint [OF cok ok] by simp
    from put_constrained [OF n1(1) cok this] have "put (LConstr c) m n n'"
      using n1 by (simp add: r put_def)
    moreover have "childAt n (LConstr c) = None \<and> (\<exists>c. ?t = newNode c) \<or> childAt n (LConstr c) = Some ?t"
      using ok cok by (auto simp: constrainedTarget_def local_ok_def find_sameConstraint split: option.split)
    moreover have "handler n' = handler n1" by (simp add: r)
    ultimately show ?thesis using m r(2) unfolding lab keys n1(4) by blast
  next
    case False
    let ?t = "case param n of Some m \<Rightarrow> m | None \<Rightarrow> newNode noConstraint"
    obtain m p where m: "insertRoute G full ?t segs h (keys @ [name]) = (m, p)" by fastforce
    have r: "n' = set_param m n1" "p = None"
      using ins pc colon valid False m by (auto simp: n1_def Let_def)
    have lab: "label_of G seg = LParam" using pc colon False by (simp add: label_of_def)
    have "put LParam m n n'" using put_param [OF n1(1), of m] n1 by (simp add: r put_def)
    moreover have "childAt n LParam = None \<and> (\<exists>c. ?t = newNode c) \<or> childAt n LParam = Some ?t"
      by (auto split: option.split)
    moreover have "handler n' = handler n1" by (simp add: r)
    ultimately show ?thesis using m r(2) unfolding lab keys n1(4) by blast
  qed
qed

lemma insertRoute_Cons_wild:
  assumes ins: "insertRoute G full n (seg # segs) h keys = (n', None)" and ok: "local_ok n"
    and star: "seg \<noteq> []" "hd seg = ch CHR ''*''"
  shows "segs = [] \<and> (\<exists>t m. (childAt n LWild = None \<and> (\<exists>c. t = newNode c) \<or> childAt n LWild = Some t)
    \<and> insertRoute G full t segs h (keys @ keys_of G seg) = (m, None)
    \<and> put LWild m n n' \<and> handler n' = handler n)"
proof -
  define name where "name = (if tl seg = [] then s2b ''*'' else tl seg)"
  have keys: "keys_of G seg = [name]" using star by (simp add: keys_of_def name_def del: s2b_Cons)
  have nc: "hd seg \<noteq> ch CHR '':''" using star by simp
  have valid: "(if tl seg = [] then None else validateParamName name) = None" and nil: "segs = []"
    using ins star nc by (auto simp: Let_def name_def simp del: s2b_Cons insertRoute.simps(1) split: option.splits if_splits)
  let ?t = "case wild n of Some w \<Rightarrow> w | None \<Rightarrow> newNode noConstraint"
  obtain m p where m: "insertRoute G full ?t [] h (keys @ [name]) = (m, p)" by fastforce
  have r: "n' = set_wild name m n \<and> p = None"
    using ins nc star valid nil m unfolding insertRoute.simps(2) Let_def name_def [symmetric]
    by (cases "wild n") (auto simp del: s2b_Cons insertRoute.simps split: if_splits)
  have "put LWild m n n'" using put_wild [OF ok] r by blast
  moreover have "childAt n LWild = None \<and> (\<exists>c. ?t = newNode c) \<or> childAt n LWild = Some ?t"
    by (auto split: option.split)
  ultimately show ?thesis using m r nil keys by (auto simp del: insertRoute.simps)
qed

lemma insertRoute_Cons_static:
  assumes ins: "insertRoute G full n (seg # segs) h keys = (n', None)" and ok: "local_ok n"
    and stat: "seg \<noteq> []" "hd seg \<noteq> ch CHR '':''" "hd seg \<noteq> ch CHR ''*''"
  shows "\<exists>t m. (childAt n (LStatic seg) = None \<and> (\<exists>c. t = newNode c) \<or> childAt n (LStatic seg) = Some t)
    \<and> insertRoute G full t segs h keys = (m, None)
    \<and> put (LStatic seg) m n n' \<and> handler n' = handler n"
proof -
  have valid: "validateStaticSegment seg = None"
    using ins stat by (auto simp del: insertRoute.simps(1) split: option.splits)
  let ?t = "case map_of (static n) seg of Some w \<Rightarrow> w | None \<Rightarrow> newNode noConstraint"
  obtain m p where m: "insertRoute G full ?t segs h keys = (m, p)" by fastforce
  have r: "n' = set_static seg m n \<and> p = None"
    using ins stat valid m by auto
  have "put (LStatic seg) m n n'" using put_static [OF ok] r by blast
  moreover have "childAt n (LStatic seg) = None \<and> (\<exists>c. ?t = newNode c) \<or> childAt n (LStatic seg) = Some ?t"
    by (auto split: option.split)
  ultimately show ?thesis using m r by (auto simp del: insertRoute.simps)
qed

lemma insertRoute_Cons:
  assumes ins: "insertRoute G full n (seg # segs) h keys = (n', None)" and ok: "local_ok n"
  shows "\<exists>t m. (childAt n (label_of G seg) = None \<and> (\<exists>c. t = newNode c) \<or> childAt n (label_of G seg) = Some t)
    \<and> insertRoute G full t segs h (keys @ keys_of G seg) = (m, None)
    \<and> put (label_of G seg) m n n'
    \<and> handler n' = (if optional_seg G seg \<and> segs = []
        then Some \<lparr>fn = h, paramKeys = keys, pattern = full\<rparr> else handler n)"
proof -
  have ne: "seg \<noteq> []" using ins by (auto simp del: insertRoute.simps(1))
  consider "hd seg = ch CHR '':''" | "hd seg = ch CHR ''*''"
    | "hd seg \<noteq> ch CHR '':''" "hd seg \<noteq> ch CHR ''*''" by blast
  then show ?thesis
  proof cases
    case 1
    from insertRoute_Cons_param [OF ins ok ne this] show ?thesis .
  next
    case 2
    then have l: "label_of G seg = LWild" "\<not> optional_seg G seg" by (simp_all add: label_of_def optional_seg_def)
    show ?thesis using conjunct2 [OF insertRoute_Cons_wild [OF ins ok ne 2]]
      by (simp only: l simp_thms if_False)
  next
    case 3
    then have "label_of G seg = LStatic seg" "keys_of G seg = []" "\<not> optional_seg G seg"
      by (simp_all add: label_of_def keys_of_def optional_seg_def)
    with insertRoute_Cons_static [OF ins ok ne 3] show ?thesis by (simp del: insertRoute.simps)
  qed
qed

text \<open>
  A successful insertion keeps the trie well-formed, and changes the endpoints at the label paths of
  the pattern only.
\<close>

definition endpointsOf :: "golib \<Rightarrow> bytes \<Rightarrow> bytes list \<Rightarrow> 'h \<Rightarrow> bytes list \<Rightarrow> label list \<Rightarrow> 'h routeEndpoint option" where
  "endpointsOf G full segs h keys ls =
     map_option (\<lambda>ks. \<lparr>fn = h, paramKeys = keys @ ks, pattern = full\<rparr>) (map_of (variants G segs) ls)"

lemma variants_Nil [simp]: "variants G [] = [([], [])]"
  by (simp add: variants_def)

lemma variants_Cons:
  "map_of (variants G (seg # segs)) (l # ls) =
     (if l = label_of G seg then map_option ((@) (keys_of G seg)) (map_of (variants G segs) ls) else None)"
  by (cases segs rule: rev_cases) (auto simp: variants_def)

lemma variants_Cons_Nil:
  "map_of (variants G (seg # segs)) [] = (if optional_seg G seg \<and> segs = [] then Some [] else None)"
  by (cases segs rule: rev_cases) (auto simp: variants_def)

lemma insertRoute_endpoints:
  assumes "insertRoute G full n segs h keys = (n', None)" "wf_node n"
  shows "wf_node n' \<and> endpointAt n (map (label_of G) segs) = None
    \<and> (\<forall>ls. endpointAt n' ls = (case endpointsOf G full segs h keys ls of Some e \<Rightarrow> Some e | None \<Rightarrow> endpointAt n ls))"
  using assms
proof (induction segs arbitrary: n n' keys)
  case Nil
  then have h: "handler n = None" and n': "n' = set_handler \<lparr>fn = h, paramKeys = keys, pattern = full\<rparr> n"
    by (auto split: option.splits)
  have "wf_node n'" using Nil.prems(2) by (simp add: n' wf_node_unfold [of n] wf_node_unfold [of "set_handler _ n"])
  moreover have "endpointAt n' ls = (case endpointsOf G full [] h keys ls of Some e \<Rightarrow> Some e | None \<Rightarrow> endpointAt n ls)" for ls
    by (cases ls) (simp_all add: endpointsOf_def n')
  ultimately show ?case using h by simp
next
  case (Cons seg segs)
  have ok: "local_ok n" using Cons.prems(2) wf_node_unfold by blast
  let ?l = "label_of G seg"
  obtain t m where t: "childAt n ?l = None \<and> (\<exists>c. t = newNode c) \<or> childAt n ?l = Some t"
    and m: "insertRoute G full t segs h (keys @ keys_of G seg) = (m, None)" and put: "put ?l m n n'"
    and hd: "handler n' = (if optional_seg G seg \<and> segs = []
        then Some \<lparr>fn = h, paramKeys = keys, pattern = full\<rparr> else handler n)"
    using insertRoute_Cons [OF Cons.prems(1) ok] by blast
  have "wf_node t" using t Cons.prems(2) wf_node_unfold wf_newNode by metis
  note IH = Cons.IH [OF m this]
  have at: "endpointAt t ls = endpointAt n (?l # ls)" for ls using t by auto
  have "wf_node n'" using put_wf [OF put Cons.prems(2)] IH by blast
  moreover have "endpointAt n (map (label_of G) (seg # segs)) = None" using IH at by simp
  moreover have "endpointAt n' ls = (case endpointsOf G full (seg # segs) h keys ls of Some e \<Rightarrow> Some e | None \<Rightarrow> endpointAt n ls)" for ls
  proof (cases ls)
    case Nil
    then show ?thesis using hd by (simp add: endpointsOf_def variants_Cons_Nil)
  next
    case c: (Cons l ls')
    show ?thesis
    proof (cases "l = ?l")
      case True
      have "endpointAt n' ls = endpointAt m ls'" using put_endpointAt [OF put] c True by simp
      also have "\<dots> = (case endpointsOf G full segs h (keys @ keys_of G seg) ls' of Some e \<Rightarrow> Some e | None \<Rightarrow> endpointAt t ls')"
        using IH by blast
      also have "\<dots> = (case endpointsOf G full (seg # segs) h keys ls of Some e \<Rightarrow> Some e | None \<Rightarrow> endpointAt n ls)"
        using True c at [of ls'] by (simp add: endpointsOf_def variants_Cons option.map_comp o_def split: option.split)
      finally show ?thesis .
    next
      case False
      then show ?thesis using put_endpointAt [OF put, of l ls'] c
        by (simp add: endpointsOf_def variants_Cons del: endpointAt.simps)
    qed
  qed
  ultimately show ?case by blast
qed

lemma insertRoute_duplicate:
  "endpointAt n (map (label_of G) segs) \<noteq> None \<Longrightarrow> wf_node n \<Longrightarrow> snd (insertRoute G full n segs h keys) \<noteq> None"
  using insertRoute_endpoints [of G full n segs h keys "fst (insertRoute G full n segs h keys)"]
  by (metis prod.collapse)

section \<open>The search\<close>

text \<open>
  All accepting label paths of a trie with the captured values and the endpoint, in the order in
  which the code tries them.
\<close>

type_synonym 'h candidate = "label list \<times> bytes list \<times> 'h routeEndpoint"

definition endOf :: "label list \<Rightarrow> bytes list \<Rightarrow> 'h node option \<Rightarrow> 'h candidate list" where
  "endOf ls vs n = (case n of None \<Rightarrow> []
     | Some m \<Rightarrow> (case handler m of None \<Rightarrow> [] | Some e \<Rightarrow> [(ls, vs, e)]))"

definition beneath :: "label \<Rightarrow> bytes list \<Rightarrow> 'h candidate list \<Rightarrow> 'h candidate list" where
  "beneath l vs cands = map (\<lambda>(ls, ws, e). (l # ls, vs @ ws, e)) cands"

function search :: "golib \<Rightarrow> 'h node \<Rightarrow> bytes \<Rightarrow> 'h candidate list" where
  "search G n path =
     (if path = [] then endOf [] [] (Some n) @ endOf [LWild] [[]] (wild n)
      else
        (let seg = fst (nextSegment path); rest = snd (nextSegment path) in
         (case map_of (static n) seg of None \<Rightarrow> [] | Some m \<Rightarrow> beneath (LStatic seg) [] (search G m rest))
         @ (if seg = [] then [] else
              concat (map (\<lambda>m. if constraint_Match G (constraint m) seg
                               then beneath (LConstr (constraint m)) [seg] (search G m rest) else [])
                        (paramConstraints n)))
         @ (if seg = [] then [] else
              (case param n of None \<Rightarrow> [] | Some m \<Rightarrow> beneath LParam [seg] (search G m rest)))
         @ endOf [LWild] [routeLookupPath path] (wild n)))"
  by pat_completeness auto

termination
  by (relation "measure (\<lambda>(G, n, path). length path)") (auto simp: nextSegment_shorter)

declare search.simps [simp del]

lemmas search_Nil = search.simps [of _ _ "[]", simplified]

subsection \<open>The traversals are the search\<close>

text \<open>The first candidate whose endpoint has as many names as values were captured.\<close>

definition pick :: "Param list \<Rightarrow> 'h candidate list \<Rightarrow> 'h option \<times> Param list" where
  "pick ps cands =
     (case find (\<lambda>(ls, vs, e). length (paramKeys e) = length ps + length vs) cands of
        None \<Rightarrow> (None, ps)
      | Some (ls, vs, e) \<Rightarrow>
          (Some (fn e), map2 (\<lambda>k v. \<lparr>Key = k, Value = v\<rparr>) (paramKeys e) (map Value ps @ vs)))"

lemma orElse_simps [simp]:
  "orElse (Some h, ps) k = (Some h, ps)" "orElse (None, ps) k = k ps"
  by (simp_all add: orElse_def)

lemma attempt_simps [simp]:
  "attempt m (Some h, ps) = (Some h, ps)" "attempt m (None, ps) = (None, take m ps)"
  by (simp_all add: attempt_def)

lemma orElse_assoc: "orElse (orElse r k) k' = orElse r (\<lambda>ps. orElse (k ps) k')"
  by (auto simp: orElse_def split: prod.split option.split)

lemma pick_Nil [simp]: "pick ps [] = (None, ps)"
  by (simp add: pick_def)

lemma find_append: "find P (xs @ ys) = (case find P xs of None \<Rightarrow> find P ys | Some x \<Rightarrow> Some x)"
  by (induction xs) auto

lemma pick_append: "pick ps (xs @ ys) = orElse (pick ps xs) (\<lambda>qs. pick qs ys)"
  by (auto simp: pick_def find_append split: option.split)

lemma find_map: "find P (map f xs) = map_option f (find (P \<circ> f) xs)"
  by (induction xs) auto

lemma pick_beneath: "attempt (length ps) (pick (ps @ [\<lparr>Key = [], Value = v\<rparr>]) cands) = pick ps (beneath l [v] cands)"
  by (auto simp: pick_def beneath_def find_map o_def case_prod_unfold split: option.split)

lemma pick_beneath_static: "attempt (length ps) (pick ps cands) = pick ps (beneath l [] cands)"
  by (auto simp: pick_def beneath_def find_map o_def case_prod_unfold split: option.split)

lemma map2_Key: "map2 (\<lambda>k p. p\<lparr>Key := k\<rparr>) ks ps = map2 (\<lambda>k v. \<lparr>Key = k, Value = v\<rparr>) ks (map Value ps)"
  by (induction ks ps rule: list_induct2') auto

lemma endpointHandler_pick: "endpointHandler (handler n) ps = pick ps (endOf [] [] (Some n))"
  by (auto simp: endpointHandler_def pick_def endOf_def map2_Key split: option.split)

lemma wildHandler_pick: "wildHandler w v = (\<lambda>ps. pick ps (endOf [LWild] [v] w))"
  by (rule ext) (auto simp: wildHandler_def endpointHandler_def pick_def endOf_def map2_Key split: option.split)

lemma matchConstrained_search:
  fixes cs :: "'h node list"
  assumes "\<And>(m :: 'h node) qs. match G m rest qs u = pick qs (search G m rest)"
  shows "matchConstrained G cs seg rest ps u =
    pick ps (concat (map (\<lambda>m. if constraint_Match G (constraint m) seg
               then beneath (LConstr (constraint m)) [seg] (search G m rest) else []) cs))"
proof (induction cs arbitrary: ps)
  case (Cons m cs)
  then show ?case
    by (simp add: pick_append assms pick_beneath [where l = "LConstr (constraint m)"])
qed simp

lemma match_search:
  fixes n :: "'h node"
  shows "match G n path ps u = pick ps (search G n path)"
proof (induction path arbitrary: n ps rule: measure_induct_rule [of length])
  case (less path)
  show ?case
  proof (cases "path = []")
    case True
    then show ?thesis
      by (simp add: match.simps search.simps pick_append endpointHandler_pick wildHandler_pick)
  next
    case False
    let ?rest = "snd (nextSegment path)" and ?seg = "fst (nextSegment path)"
    have IH: "match G m ?rest qs u = pick qs (search G m ?rest)" for m :: "'h node" and qs
      by (rule less.IH) (rule nextSegment_shorter [OF False])
    have 1: "(case map_of (static n) ?seg of None \<Rightarrow> (None, ps)
         | Some m \<Rightarrow> attempt (length ps) (match G m ?rest ps u)) =
       pick ps (case map_of (static n) ?seg of None \<Rightarrow> [] | Some m \<Rightarrow> beneath (LStatic ?seg) [] (search G m ?rest))"
      by (simp add: IH pick_beneath_static [where l = "LStatic ?seg"] split: option.split)
    have 2: "(case param n of None \<Rightarrow> (None, qs) | Some m \<Rightarrow>
         if ?seg = [] then (None, qs)
         else attempt (length qs) (match G m ?rest (qs @ [\<lparr>Key = [], Value = ?seg\<rparr>]) u)) =
       pick qs (if ?seg = [] then [] else
              (case param n of None \<Rightarrow> [] | Some m \<Rightarrow> beneath LParam [?seg] (search G m ?rest)))" for qs
      by (simp add: IH pick_beneath [where l = LParam] split: option.split)
    have 3: "(if ?seg = [] then (None, qs) else matchConstrained G (paramConstraints n) ?seg ?rest qs u) =
       pick qs (if ?seg = [] then [] else
              concat (map (\<lambda>m. if constraint_Match G (constraint m) ?seg
                               then beneath (LConstr (constraint m)) [?seg] (search G m ?rest) else [])
                        (paramConstraints n)))" for qs
      by (simp add: matchConstrained_search [OF IH])
    have m: "match G n path ps u = orElse (orElse (orElse
           (case map_of (static n) ?seg of None \<Rightarrow> (None, ps)
              | Some m \<Rightarrow> attempt (length ps) (match G m ?rest ps u))
           (\<lambda>qs. if ?seg = [] then (None, qs) else matchConstrained G (paramConstraints n) ?seg ?rest qs u))
           (\<lambda>qs. case param n of None \<Rightarrow> (None, qs) | Some m \<Rightarrow> if ?seg = [] then (None, qs)
              else attempt (length qs) (match G m ?rest (qs @ [\<lparr>Key = [], Value = paramValue ?seg u\<rparr>]) u)))
           (wildHandler (wild n) (paramValue (routeLookupPath path) u))"
      using False by (subst match.simps) (simp only: Let_def if_False)
    show ?thesis
      unfolding m paramValue_eq unfolding 1 2 3 wildHandler_pick orElse_assoc
      using False by (subst search.simps [of G n path]) (simp only: Let_def if_False pick_append)
  qed
qed

lemma matchesConstrained_search:
  fixes cs :: "'h node list"
  assumes "\<And>m :: 'h node. matchesPath G m rest \<longleftrightarrow> search G m rest \<noteq> []"
  shows "matchesConstrained G cs seg rest \<longleftrightarrow>
    concat (map (\<lambda>m. if constraint_Match G (constraint m) seg
               then beneath (LConstr (constraint m)) [seg] (search G m rest) else []) cs) \<noteq> []"
  using assms by (induction cs) (auto simp: beneath_def)

lemma endOf_nonempty: "endOf ls vs (Some n) \<noteq> [] \<longleftrightarrow> handler n \<noteq> None"
  "endOf ls vs w \<noteq> [] \<longleftrightarrow> (case w of None \<Rightarrow> False | Some m \<Rightarrow> handler m \<noteq> None)"
  by (auto simp: endOf_def split: option.split)

lemma beneath_Nil_iff [simp]: "beneath l vs xs = [] \<longleftrightarrow> xs = []"
  by (simp add: beneath_def)

lemma matchesPath_search:
  fixes n :: "'h node"
  shows "matchesPath G n path \<longleftrightarrow> search G n path \<noteq> []"
proof (induction path arbitrary: n rule: measure_induct_rule [of length])
  case (less path)
  show ?case
  proof (cases "path = []")
    case True
    then show ?thesis
      unfolding matchesPath.simps [of G n path] search.simps [of G n path] append_is_Nil_conv de_Morgan_conj
      by (simp add: endOf_nonempty Let_def)
  next
    case False
    let ?rest = "snd (nextSegment path)" and ?seg = "fst (nextSegment path)"
    have IH: "matchesPath G m ?rest \<longleftrightarrow> search G m ?rest \<noteq> []" for m :: "'h node"
      by (rule less.IH) (rule nextSegment_shorter [OF False])
    show ?thesis
      unfolding matchesPath.simps [of G n path] search.simps [of G n path] Let_def
        matchesConstrained_search [OF IH] IH
      using False by (simp add: endOf_def del: concat_eq_Nil_conv split: option.split) blast
  qed
qed

text \<open>The pattern of the first candidate.\<close>

definition patternOf :: "'h candidate list \<Rightarrow> bytes" where
  "patternOf cands = (case cands of [] \<Rightarrow> [] | (ls, vs, e) # _ \<Rightarrow> pattern e)"

definition patterned :: "'h candidate list \<Rightarrow> bool" where
  "patterned cands \<longleftrightarrow> list_all (\<lambda>(ls, vs, e). pattern e \<noteq> []) cands"

lemma orPattern_Nil: "orPattern [] q = q"
  by (simp add: orPattern_def)

lemma patternOf_append: "patterned xs \<Longrightarrow> patternOf (xs @ ys) = orPattern (patternOf xs) (patternOf ys)"
  by (cases xs) (auto simp: patternOf_def orPattern_def patterned_def)

lemma patternOf_simps [simp]:
  "patternOf [] = []" "patternOf (beneath l vs cands) = patternOf cands"
  "patterned (xs @ ys) \<longleftrightarrow> patterned xs \<and> patterned ys" "patterned []"
  "patterned (beneath l vs cands) \<longleftrightarrow> patterned cands"
  by (simp_all add: patternOf_def patterned_def beneath_def list.pred_map o_def case_prod_unfold split: list.split)

lemma patternConstrained_search:
  fixes cs :: "'h node list"
  assumes "\<And>m :: 'h node. patterned (search G m rest) \<Longrightarrow> matchPattern G m rest = patternOf (search G m rest)"
    and "patterned (concat (map (\<lambda>m. if constraint_Match G (constraint m) seg
               then beneath (LConstr (constraint m)) [seg] (search G m rest) else []) cs))"
  shows "patternConstrained G cs seg rest =
    patternOf (concat (map (\<lambda>m. if constraint_Match G (constraint m) seg
               then beneath (LConstr (constraint m)) [seg] (search G m rest) else []) cs))"
  using assms(2) by (induction cs) (simp_all add: patternOf_append assms(1) split: if_splits)

lemma matchPattern_search:
  fixes n :: "'h node"
  assumes "patterned (search G n path)"
  shows "matchPattern G n path = patternOf (search G n path)"
  using assms
proof (induction path arbitrary: n rule: measure_induct_rule [of length])
  case (less path)
  have w: "(case w of None \<Rightarrow> [] | Some w \<Rightarrow> (case handler w of None \<Rightarrow> [] | Some e \<Rightarrow> pattern e)) =
      patternOf (endOf ls vs w)" for w :: "'h node option" and ls vs
    by (simp add: endOf_def patternOf_def split: option.split)
  show ?case
  proof (cases "path = []")
    case True
    have "matchPattern G n [] = (case handler n of Some e \<Rightarrow> pattern e | None \<Rightarrow> patternOf (endOf [LWild] [[]] (wild n)))"
      by (subst matchPattern.simps) (simp add: w [of _ "[LWild]" "[[]]"])
    also have "\<dots> = patternOf (search G n [])"
      by (simp add: search.simps [of G n "[]"] endOf_def [of "[]" "[]"] patternOf_def split: option.split)
    finally show ?thesis using True by simp
  next
    case False
    let ?rest = "snd (nextSegment path)" and ?seg = "fst (nextSegment path)"
    let ?A = "case map_of (static n) ?seg of None \<Rightarrow> [] | Some m \<Rightarrow> beneath (LStatic ?seg) [] (search G m ?rest)"
    let ?B = "if ?seg = [] then [] else
       concat (map (\<lambda>m. if constraint_Match G (constraint m) ?seg
                        then beneath (LConstr (constraint m)) [?seg] (search G m ?rest) else [])
                   (paramConstraints n))"
    let ?C = "if ?seg = [] then [] else
       (case param n of None \<Rightarrow> [] | Some m \<Rightarrow> beneath LParam [?seg] (search G m ?rest))"
    let ?D = "endOf [LWild] [routeLookupPath path] (wild n)"
    have s: "search G n path = ?A @ ?B @ ?C @ ?D"
      using False by (subst search.simps) (simp only: Let_def if_False)
    have p: "patterned ?A" "patterned ?B" "patterned ?C" using less.prems unfolding s by simp_all
    have IH: "patterned (search G m ?rest) \<Longrightarrow> matchPattern G m ?rest = patternOf (search G m ?rest)" for m :: "'h node"
      by (rule less.IH) (rule nextSegment_shorter [OF False])
    have a: "(case map_of (static n) ?seg of None \<Rightarrow> [] | Some m \<Rightarrow> matchPattern G m ?rest) = patternOf ?A"
      using p(1) by (simp add: IH split: option.splits)
    have b: "?seg \<noteq> [] \<Longrightarrow> patternConstrained G (paramConstraints n) ?seg ?rest = patternOf ?B"
      using p(2) by (simp add: patternConstrained_search [OF IH])
    have c: "?seg \<noteq> [] \<Longrightarrow> (case param n of None \<Rightarrow> [] | Some m \<Rightarrow> matchPattern G m ?rest) = patternOf ?C"
      using p(3) by (simp add: IH split: option.splits)
    have bc: "(if ?seg = [] then [] else orPattern (patternConstrained G (paramConstraints n) ?seg ?rest)
        (case param n of None \<Rightarrow> [] | Some m \<Rightarrow> matchPattern G m ?rest)) = patternOf (?B @ ?C)"
      using b c p by (simp add: patternOf_append orPattern_Nil)
    have "matchPattern G n path = orPattern (patternOf ?A) (orPattern (patternOf (?B @ ?C)) (patternOf ?D))"
      using False unfolding matchPattern.simps [of G n path] Let_def a bc w [of _ "[LWild]" "[routeLookupPath path]"]
      by (simp only: if_False)
    also have "\<dots> = patternOf (?A @ (?B @ ?C) @ ?D)"
      using p by (simp only: patternOf_append patternOf_simps simp_thms)
    finally show ?thesis unfolding s by simp
  qed
qed

end
