(* ===== verification/Router_Search.thy ===== *)
theory Router_Search
  imports Router_Trie_Correct
begin

text \<open>
  What the candidates of a search are: exactly the accepting label paths that lead to an endpoint,
  in the order of precedence. From this follow soundness, completeness and precedence of the
  traversals.
\<close>

section \<open>The candidates are the accepting paths\<close>

lemma endOf_mem [simp]:
  "(ls, vs, e) \<in> set (endOf ls' vs' w) \<longleftrightarrow> ls = ls' \<and> vs = vs' \<and> (case w of None \<Rightarrow> False | Some m \<Rightarrow> handler m = Some e)"
  by (auto simp: endOf_def split: option.split)

lemma beneath_mem [simp]:
  "(ls, vs, e) \<in> set (beneath l ws cands) \<longleftrightarrow> (\<exists>ls' vs'. ls = l # ls' \<and> vs = ws @ vs' \<and> (ls', vs', e) \<in> set cands)"
  by (force simp: beneath_def)

lemma search_Cons_mem:
  assumes "path \<noteq> []"
  defines "seg \<equiv> fst (nextSegment path)" and "rest \<equiv> snd (nextSegment path)"
  shows "(l # ls, vs, e) \<in> set (search G n path) \<longleftrightarrow>
    (case l of
       LStatic s \<Rightarrow> s = seg \<and> (\<exists>m. map_of (static n) seg = Some m \<and> (ls, vs, e) \<in> set (search G m rest))
     | LConstr c \<Rightarrow> seg \<noteq> [] \<and> constraint_Match G c seg \<and> (\<exists>m \<in> set (paramConstraints n). constraint m = c
         \<and> (\<exists>ws. vs = seg # ws \<and> (ls, ws, e) \<in> set (search G m rest)))
     | LParam \<Rightarrow> seg \<noteq> [] \<and> (\<exists>m ws. param n = Some m \<and> vs = seg # ws \<and> (ls, ws, e) \<in> set (search G m rest))
     | LWild \<Rightarrow> ls = [] \<and> vs = [routeLookupPath path] \<and> (\<exists>m. wild n = Some m \<and> handler m = Some e))"
proof -
  have s: "search G n path =
      (case map_of (static n) seg of None \<Rightarrow> [] | Some m \<Rightarrow> beneath (LStatic seg) [] (search G m rest))
      @ (if seg = [] then [] else concat (map (\<lambda>m. if constraint_Match G (constraint m) seg
            then beneath (LConstr (constraint m)) [seg] (search G m rest) else []) (paramConstraints n)))
      @ (if seg = [] then [] else (case param n of None \<Rightarrow> [] | Some m \<Rightarrow> beneath LParam [seg] (search G m rest)))
      @ endOf [LWild] [routeLookupPath path] (wild n)"
    unfolding seg_def rest_def using assms(1) by (subst search.simps) (simp only: Let_def if_False)
  show ?thesis unfolding s
    by (cases l) (auto split: option.splits if_splits dest: sym [of "Some _"])
qed

lemma search_Nil_mem: "path \<noteq> [] \<Longrightarrow> ([], vs, e) \<notin> set (search G n path)"
  by (subst search.simps) (auto simp: Let_def split: option.splits if_splits)

lemma search_empty_mem:
  "(ls, vs, e) \<in> set (search G n []) \<longleftrightarrow>
     ls = [] \<and> vs = [] \<and> handler n = Some e \<or> ls = [LWild] \<and> vs = [[]] \<and> (\<exists>m. wild n = Some m \<and> handler m = Some e)"
  by (subst search.simps) (auto split: option.splits)

lemma find_constraint:
  assumes "distinct (map constraint ms)"
  shows "find (\<lambda>m. constraint m = c) ms = Some m \<longleftrightarrow> m \<in> set ms \<and> constraint m = c"
  using assms by (induction ms) (auto simp: image_iff)

lemma search_mem:
  assumes "wf_node n"
  shows "(ls, vs, e) \<in> set (search G n path) \<longleftrightarrow> endpointAt n ls = Some e \<and> accepts G ls path = Some vs"
  using assms
proof (induction path arbitrary: n ls vs rule: measure_induct_rule [of length])
  case (less path)
  have d: "distinct (map constraint (paramConstraints n))" using less.prems wf_node_unfold local_ok_def by blast
  show ?case
  proof (cases "path = []")
    case True
    then show ?thesis
      by (cases ls) (auto simp: search_empty_mem split: label.splits option.splits if_splits)
  next
    case False
    let ?rest = "snd (nextSegment path)" and ?seg = "fst (nextSegment path)"
    have IH: "(ls, vs, e) \<in> set (search G m ?rest) \<longleftrightarrow> endpointAt m ls = Some e \<and> accepts G ls ?rest = Some vs"
      if "childAt n l = Some m" for m l ls vs
      using less.IH [OF nextSegment_shorter [OF False]] that less.prems wf_node_unfold by blast
    show ?thesis
    proof (cases ls)
      case Nil
      then show ?thesis using False by (simp add: search_Nil_mem)
    next
      case (Cons l ls')
      show ?thesis
      proof (cases l)
        case (LStatic s)
        then show ?thesis using False IH [of "LStatic s"] unfolding Cons
          by (auto simp: search_Cons_mem split: option.splits)
      next
        case (LConstr c)
        have f: "find (\<lambda>m. constraint m = c) (paramConstraints n) = Some m \<longleftrightarrow>
            m \<in> set (paramConstraints n) \<and> constraint m = c" for m by (rule find_constraint [OF d])
        have "(ls, vs, e) \<in> set (search G n path) \<longleftrightarrow> ?seg \<noteq> [] \<and> constraint_Match G c ?seg \<and>
            (\<exists>m. childAt n (LConstr c) = Some m \<and> (\<exists>ws. vs = ?seg # ws \<and> (ls', ws, e) \<in> set (search G m ?rest)))"
          unfolding Cons LConstr search_Cons_mem [OF False] childAt.simps f by auto
        also have "\<dots> \<longleftrightarrow> ?seg \<noteq> [] \<and> constraint_Match G c ?seg \<and>
            (\<exists>m. childAt n (LConstr c) = Some m \<and> endpointAt m ls' = Some e \<and>
              (\<exists>ws. vs = ?seg # ws \<and> accepts G ls' ?rest = Some ws))"
          using IH [of "LConstr c"] by blast
        also have "\<dots> \<longleftrightarrow> endpointAt n ls = Some e \<and> accepts G ls path = Some vs"
          unfolding Cons LConstr using False
          by (auto simp: Let_def simp del: childAt.simps split: option.splits)
        finally show ?thesis .
      next
        case LParam
        then show ?thesis using False IH [of LParam] unfolding Cons
          by (auto simp: search_Cons_mem Let_def split: option.splits if_splits)
      next
        case LWild
        then show ?thesis using False unfolding Cons
          by (auto simp: search_Cons_mem split: option.splits)
      qed
    qed
  qed
qed

section \<open>Precedence\<close>

fun rank :: "label \<Rightarrow> nat" where
  "rank (LStatic s) = 0"
| "rank (LConstr c) = 1"
| "rank LParam = 2"
| "rank LWild = 3"

text \<open>
  One label path takes precedence over another if it is the shorter one or, at the first difference,
  its label is of a kind that is tried no later.
\<close>

fun precedes :: "label list \<Rightarrow> label list \<Rightarrow> bool" where
  "precedes [] ks = True"
| "precedes (l # ls) [] = False"
| "precedes (l # ls) (k # ks) = (if l = k then precedes ls ks else rank l \<le> rank k)"

lemma precedes_refl [simp]: "precedes ls ls"
  by (induction ls) auto

definition ordered :: "'h candidate list \<Rightarrow> bool" where
  "ordered cands \<longleftrightarrow> sorted_wrt (\<lambda>a b. precedes (fst a) (fst b)) cands"

lemma ordered_beneath [simp]: "ordered (beneath l vs cands) \<longleftrightarrow> ordered cands"
  by (simp add: ordered_def beneath_def sorted_wrt_map case_prod_unfold)

lemma ordered_append: "ordered (xs @ ys) \<longleftrightarrow> ordered xs \<and> ordered ys \<and> (\<forall>a \<in> set xs. \<forall>b \<in> set ys. precedes (fst a) (fst b))"
  by (auto simp: ordered_def sorted_wrt_append)

lemma ordered_Nil [simp]: "ordered []"
  by (simp add: ordered_def)

lemma ordered_single [simp]: "ordered [a]"
  by (simp add: ordered_def)

lemma ordered_endOf [simp]: "ordered (endOf ls vs w)"
  by (simp add: ordered_def endOf_def split: option.split)

text \<open>All candidates of a block start with a label of the given rank.\<close>

definition ranked :: "nat \<Rightarrow> 'h candidate list \<Rightarrow> bool" where
  "ranked r cands \<longleftrightarrow> (\<forall>a \<in> set cands. \<exists>l ls. fst a = l # ls \<and> rank l = r)"

lemma ranked_simps [simp]:
  "ranked r []" "ranked r (xs @ ys) \<longleftrightarrow> ranked r xs \<and> ranked r ys"
  "rank l = r \<Longrightarrow> ranked r (beneath l vs cands)" "rank l = r \<Longrightarrow> ranked r (endOf [l] vs w)"
  by (auto simp: ranked_def beneath_def endOf_def split: option.split)

definition above :: "nat \<Rightarrow> 'h candidate list \<Rightarrow> bool" where
  "above r ys \<longleftrightarrow> (\<forall>b \<in> set ys. \<exists>l ls. fst b = l # ls \<and> r < rank l)"

lemma above_append [simp]: "above r (xs @ ys) \<longleftrightarrow> above r xs \<and> above r ys"
  by (auto simp: above_def)

lemma ranked_above: "ranked s ys \<Longrightarrow> r < s \<Longrightarrow> above r ys"
  by (force simp: above_def ranked_def)

lemma ordered_append_ranked:
  assumes "ordered xs" "ordered ys" "ranked r xs" "above r ys"
  shows "ordered (xs @ ys)"
  using assms by (force simp: ordered_append ranked_def above_def)

lemma ordered_blocks:
  assumes "ordered a \<and> ranked 0 a" "ordered b \<and> ranked 1 b" "ordered c \<and> ranked 2 c" "ordered d \<and> ranked 3 d"
  shows "ordered (a @ b @ c @ d)"
  using assms
  by (intro ordered_append_ranked [of a _ 0] ordered_append_ranked [of b _ 1] ordered_append_ranked [of c _ 2])
     (auto intro: ranked_above)

lemma constrained_block:
  assumes "distinct (map constraint cs)" "\<And>m. m \<in> set cs \<Longrightarrow> ordered (f m)"
  shows "ordered (concat (map (\<lambda>m. if P m then beneath (LConstr (constraint m)) vs (f m) else []) cs))
    \<and> ranked 1 (concat (map (\<lambda>m. if P m then beneath (LConstr (constraint m)) vs (f m) else []) cs))"
  using assms
proof (induction cs)
  case (Cons m cs)
  let ?f = "\<lambda>m. if P m then beneath (LConstr (constraint m)) vs (f m) else []"
  have "precedes (fst a) (fst b)" if ab: "a \<in> set (?f m)" "b \<in> set (concat (map ?f cs))" for a b
  proof -
    obtain ls where a: "fst a = LConstr (constraint m) # ls"
      using ab(1) by (auto simp: beneath_def split: if_splits)
    obtain k ks where b: "fst b = LConstr (constraint k) # ks" "k \<in> set cs"
      using ab(2) by (auto simp: beneath_def split: if_splits)
    have "constraint m \<noteq> constraint k" using Cons.prems b(2) by auto
    then show ?thesis by (simp add: a b)
  qed
  then show ?case using Cons by (simp add: ordered_append)
qed simp

lemma search_ordered:
  fixes n :: "'h node"
  assumes "wf_node n"
  shows "ordered (search G n path)"
  using assms
proof (induction path arbitrary: n rule: measure_induct_rule [of length])
  case (less path)
  show ?case
  proof (cases "path = []")
    case True
    then show ?thesis
      by (subst search.simps) (auto simp: ordered_append endOf_def split: option.split)
  next
    case False
    let ?rest = "snd (nextSegment path)" and ?seg = "fst (nextSegment path)"
    let ?A = "case map_of (static n) ?seg of None \<Rightarrow> [] | Some m \<Rightarrow> beneath (LStatic ?seg) [] (search G m ?rest)"
    let ?B = "if ?seg = [] then [] else
       concat (map (\<lambda>m. if constraint_Match G (constraint m) ?seg
                        then beneath (LConstr (constraint m)) [?seg] (search G m ?rest) else [])
                   (paramConstraints n))"
    let ?C = "if ?seg = [] then [] else
       (case param n of None \<Rightarrow> [] | Some m \<Rightarrow> beneath LParam [?seg] (search G m ?rest))"
    let ?D = "endOf [LWild] [routeLookupPath path] (wild n)"
    have d: "distinct (map constraint (paramConstraints n))" using less.prems wf_node_unfold local_ok_def by blast
    have IH: "ordered (search G m ?rest)" if "wf_node m" for m :: "'h node"
      using less.IH [OF nextSegment_shorter [OF False] that] .
    have wf: "wf_node m" if "childAt n l = Some m" for l m using less.prems that wf_node_unfold by blast
    have o: "ordered (search G m ?rest)" if "m \<in> set (paramConstraints n)" for m
      using IH [OF wf [of "LConstr (constraint m)"]] find_constraint [OF d] that by simp
    have "ordered ?B \<and> ranked 1 ?B"
      using constrained_block [OF d o, where P = "\<lambda>m. constraint_Match G (constraint m) ?seg" and vs = "[?seg]"] by simp
    moreover have "ordered ?A \<and> ranked 0 ?A"
      using IH [OF wf [of "LStatic ?seg"]] by (auto split: option.split)
    moreover have "ordered ?C \<and> ranked 2 ?C"
      using IH [OF wf [of LParam]] by (auto split: option.split)
    moreover have "ordered ?D \<and> ranked 3 ?D" by simp
    ultimately have "ordered (?A @ ?B @ ?C @ ?D)" by (intro ordered_blocks)
    then show ?thesis
      using False by (subst search.simps) (simp only: Let_def if_False)
  qed
qed

section \<open>The result of a traversal\<close>

text \<open>Every endpoint names as many parameters as its label path captures, and has a pattern.\<close>

definition captures :: "label list \<Rightarrow> nat" where
  "captures ls = length (filter (\<lambda>l. rank l \<noteq> 0) ls)"

definition keyed :: "'h node \<Rightarrow> bool" where
  "keyed n \<longleftrightarrow> (\<forall>ls e. endpointAt n ls = Some e \<longrightarrow> length (paramKeys e) = captures ls \<and> pattern e \<noteq> [])"

lemma accepts_captures: "accepts G ls path = Some vs \<Longrightarrow> length vs = captures ls"
  by (induction ls arbitrary: path vs)
     (auto simp: captures_def Let_def split: label.splits if_splits)

lemma match_result:
  assumes "wf_node n" "keyed n"
  shows "match G n path [] u =
    (case search G n path of [] \<Rightarrow> (None, [])
     | (ls, vs, e) # _ \<Rightarrow> (Some (fn e), map2 (\<lambda>k v. \<lparr>Key = k, Value = v\<rparr>) (paramKeys e) vs))"
proof (cases "search G n path")
  case Nil
  then show ?thesis by (simp add: match_search)
next
  case (Cons c cs)
  obtain ls vs e where c: "c = (ls, vs, e)" by (cases c)
  have "(ls, vs, e) \<in> set (search G n path)" using Cons c by simp
  then have "endpointAt n ls = Some e" "accepts G ls path = Some vs" using search_mem [OF assms(1)] by blast+
  then have "length (paramKeys e) = length vs" using assms(2) accepts_captures unfolding keyed_def by fastforce
  then show ?thesis using Cons c by (simp add: match_search pick_def)
qed

text \<open>
  A traversal that starts without parameters returns the endpoint of an accepting label path that
  takes precedence over every other one; it fails only if no label path accepts.
\<close>

lemma match_sound:
  assumes "wf_node n" "keyed n" "match G n path [] u = (Some h, ps)"
  shows "\<exists>ls e vs. endpointAt n ls = Some e \<and> accepts G ls path = Some vs \<and> fn e = h
    \<and> ps = map2 (\<lambda>k v. \<lparr>Key = k, Value = v\<rparr>) (paramKeys e) vs
    \<and> matchPattern G n path = pattern e
    \<and> (\<forall>ls' e'. endpointAt n ls' = Some e' \<longrightarrow> accepts G ls' path \<noteq> None \<longrightarrow> precedes ls ls')"
proof -
  obtain ls vs e cs where s: "search G n path = (ls, vs, e) # cs" and h: "h = fn e"
    and ps: "ps = map2 (\<lambda>k v. \<lparr>Key = k, Value = v\<rparr>) (paramKeys e) vs"
    using assms(3) unfolding match_result [OF assms(1,2)] by (auto split: list.splits)
  have m: "endpointAt n ls = Some e" "accepts G ls path = Some vs"
    using search_mem [OF assms(1), of ls vs e G path] s by auto
  have "precedes ls ls'" if "endpointAt n ls' = Some e'" "accepts G ls' path = Some vs'" for ls' e' vs'
  proof -
    have "(ls', vs', e') \<in> set (search G n path)" using search_mem [OF assms(1)] that by blast
    then show ?thesis using search_ordered [OF assms(1), of G path] unfolding s ordered_def by auto
  qed
  moreover have "patterned (search G n path)"
    unfolding patterned_def list_all_iff using search_mem [OF assms(1)] assms(2) unfolding keyed_def by blast
  then have "matchPattern G n path = pattern e" using matchPattern_search s by (fastforce simp: patternOf_def)
  ultimately show ?thesis using m h ps by blast
qed

lemma match_fails:
  assumes "wf_node n" "keyed n" "match G n path [] u = (None, ps)"
  shows "ps = [] \<and> matchPattern G n path = [] \<and> (\<forall>ls e. endpointAt n ls = Some e \<longrightarrow> accepts G ls path = None)"
proof -
  have s: "search G n path = []" and ps: "ps = []"
    using assms(3) unfolding match_result [OF assms(1,2)] by (auto split: list.splits)
  have "accepts G ls path = None" if "endpointAt n ls = Some e" for ls e
    using search_mem [OF assms(1), of ls _ e G path] s that by (cases "accepts G ls path") auto
  moreover have "matchPattern G n path = []" using matchPattern_search [of G n path] s by (simp add: patterned_def patternOf_def)
  ultimately show ?thesis using ps by blast
qed

lemma matchesPath_iff:
  assumes "wf_node n"
  shows "matchesPath G n path \<longleftrightarrow> (\<exists>ls e. endpointAt n ls = Some e \<and> accepts G ls path \<noteq> None)"
proof -
  have "matchesPath G n path \<longleftrightarrow> (\<exists>ls vs e. (ls, vs, e) \<in> set (search G n path))"
    unfolding matchesPath_search by (cases "search G n path") auto
  then show ?thesis unfolding search_mem [OF assms] by blast
qed

end
