(* ===== verification/Router.thy ===== *)
theory Router
  imports Router_Search
begin

text \<open>
  The router itself (\<open>src/router.go\<close>): its tables, registration, freezing, the two lookups
  \<open>Find\<close> and \<open>FindBytes\<close>, \<open>Allowed\<close>, \<open>Methods\<close>, \<open>Pattern\<close>, prebuilt responses and
  compiled route patterns. The read-write lock only serialises the operations; each operation is
  one step on the state.
\<close>

section \<open>State\<close>

text \<open>
  The ten methods with their own fields. A family of fields such as \<open>treeGET\<close>, \<open>treePOST\<close>,
  \dots{} is a function on this type.
\<close>

datatype canon = GET | POST | PUT | DELETE | PATCH | HEAD | OPTIONS | CONNECT | TRACE | QUERY

record 'h paramShortcut =
  psPrefix :: bytes
  psKey :: bytes
  psFn :: 'h

record 'h staticShortcut =
  ssPath :: bytes
  ssFn :: 'h

record prebuiltResponse =
  prPath :: bytes
  prResp :: bytes

record namedRoute =
  nrMethod :: bytes
  nrPath :: bytes

record 'h Router =
  frozen :: bool
  UnsafeParams :: bool
  trees :: "(bytes \<times> 'h node) list"
  statics :: "(bytes \<times> (bytes \<times> 'h) list) list"
  treeOf :: "canon \<Rightarrow> 'h node option"
  staticOf :: "canon \<Rightarrow> (bytes \<times> 'h) list option"
  paramOf :: "canon \<Rightarrow> 'h paramShortcut list"
  shortcutOf :: "canon \<Rightarrow> 'h staticShortcut list"
  prebuiltOf :: "canon \<Rightarrow> prebuiltResponse list"
  hasPrebuilt :: bool
  named :: "(bytes \<times> namedRoute) list"
  routeNames :: "(bytes \<times> bytes) list"
  routes :: "bytes list"
  frozenMethodBits :: u16
  frozenCustomMethods :: "bytes list"

definition maxLinearRouteShortcuts :: nat where
  "maxLinearRouteShortcuts = 8"

definition NewRouter :: "'h Router" where
  "NewRouter = \<lparr>frozen = False, UnsafeParams = False, trees = [], statics = [],
     treeOf = (\<lambda>_. None), staticOf = (\<lambda>_. None), paramOf = (\<lambda>_. []), shortcutOf = (\<lambda>_. []),
     prebuiltOf = (\<lambda>_. []), hasPrebuilt = False, named = [], routeNames = [], routes = [],
     frozenMethodBits = 0, frozenCustomMethods = []\<rparr>"

text \<open>The \<open>switch method\<close> on the canonical names.\<close>

definition canonName :: "canon \<Rightarrow> bytes" where
  "canonName c = (case c of GET \<Rightarrow> s2b ''GET'' | POST \<Rightarrow> s2b ''POST'' | PUT \<Rightarrow> s2b ''PUT''
     | DELETE \<Rightarrow> s2b ''DELETE'' | PATCH \<Rightarrow> s2b ''PATCH'' | HEAD \<Rightarrow> s2b ''HEAD''
     | OPTIONS \<Rightarrow> s2b ''OPTIONS'' | CONNECT \<Rightarrow> s2b ''CONNECT'' | TRACE \<Rightarrow> s2b ''TRACE''
     | QUERY \<Rightarrow> s2b ''QUERY'')"

definition canonMethod :: "bytes \<Rightarrow> canon option" where
  "canonMethod m = find (\<lambda>c. canonName c = m)
     [GET, POST, PUT, DELETE, PATCH, HEAD, OPTIONS, CONNECT, TRACE, QUERY]"

section \<open>Registration\<close>

definition setCommonTree :: "bytes \<Rightarrow> 'h node \<Rightarrow> 'h Router \<Rightarrow> 'h Router" where
  "setCommonTree method root r =
     (case canonMethod method of None \<Rightarrow> r | Some c \<Rightarrow> r\<lparr>treeOf := (treeOf r)(c := Some root)\<rparr>)"

definition setCommonStatic :: "bytes \<Rightarrow> (bytes \<times> 'h) list \<Rightarrow> 'h Router \<Rightarrow> 'h Router" where
  "setCommonStatic method m r =
     (case canonMethod method of None \<Rightarrow> r | Some c \<Rightarrow> r\<lparr>staticOf := (staticOf r)(c := Some m)\<rparr>)"

definition appendStaticShortcut :: "'h staticShortcut list \<Rightarrow> 'h staticShortcut \<Rightarrow> 'h staticShortcut list" where
  "appendStaticShortcut rs route = (if length rs > maxLinearRouteShortcuts then rs else rs @ [route])"

definition addStaticShortcut :: "bytes \<Rightarrow> 'h staticShortcut \<Rightarrow> 'h Router \<Rightarrow> 'h Router" where
  "addStaticShortcut method fr r =
     (case canonMethod method of None \<Rightarrow> r
      | Some c \<Rightarrow> r\<lparr>shortcutOf := (shortcutOf r)(c := appendStaticShortcut (shortcutOf r c) fr)\<rparr>)"

definition appendParamShortcut :: "'h paramShortcut list \<Rightarrow> 'h paramShortcut \<Rightarrow> 'h paramShortcut list" where
  "appendParamShortcut rs route = (if length rs > maxLinearRouteShortcuts then rs else rs @ [route])"

definition addParamShortcut :: "bytes \<Rightarrow> 'h paramShortcut \<Rightarrow> 'h Router \<Rightarrow> 'h Router" where
  "addParamShortcut method fr r =
     (case canonMethod method of None \<Rightarrow> r
      | Some c \<Rightarrow> r\<lparr>paramOf := (paramOf r)(c := appendParamShortcut (paramOf r c) fr)\<rparr>)"

definition buildParamShortcut :: "golib \<Rightarrow> bytes list \<Rightarrow> 'h \<Rightarrow> 'h paramShortcut option" where
  "buildParamShortcut G segments h =
     (case segments of
        [s, p] \<Rightarrow>
          if s = [] \<or> hd s = ch CHR '':'' \<or> hd s = ch CHR ''*'' then None
          else if length p < 2 \<or> hd p \<noteq> ch CHR '':'' then None
          else (let (cleanName, c, isOptional) = parseParamConstraint G (tl p) in
            if kind c \<noteq> constraintNone \<or> isOptional then None
            else Some \<lparr>psPrefix = s2b ''/'' @ s @ s2b ''/'', psKey = cleanName, psFn = h\<rparr>)
      | _ \<Rightarrow> None)"

definition routeIsStatic :: "bytes list \<Rightarrow> bool" where
  "routeIsStatic segments \<longleftrightarrow>
     list_all (\<lambda>seg. \<not> (seg = [] \<or> hd seg = ch CHR '':'' \<or> hd seg = ch CHR ''*'')) segments"

text \<open>
  The state changes of \<open>Add\<close> after its checks. The common-method fields hold the pointers that the
  maps hold, so they change with them.
\<close>

definition addTree :: "bytes \<Rightarrow> 'h node \<Rightarrow> 'h Router \<Rightarrow> 'h Router" where
  "addTree method root r = setCommonTree method root (r\<lparr>trees := AList.update method root (trees r)\<rparr>)"

definition addStatic :: "bytes \<Rightarrow> bytes \<Rightarrow> 'h \<Rightarrow> 'h Router \<Rightarrow> 'h Router" where
  "addStatic method path h r =
     (let m = AList.update path h (case map_of (statics r) method of Some m \<Rightarrow> m | None \<Rightarrow> []) in
      addStaticShortcut method \<lparr>ssPath = path, ssFn = h\<rparr>
        (setCommonStatic method m (r\<lparr>statics := AList.update method m (statics r)\<rparr>)))"

definition routeKey :: "bytes \<Rightarrow> bytes \<Rightarrow> bytes" where
  "routeKey method path = method @ s2b '' '' @ path"

definition Add :: "golib \<Rightarrow> 'h Router \<Rightarrow> bytes \<Rightarrow> bytes \<Rightarrow> 'h option \<Rightarrow> 'h Router \<times> route_panic option" where
  "Add G r method0 path0 h0 =
     (let method = ToUpper G (TrimSpace method0) in
      if \<not> validTokenString method then (r, Some InvalidMethod)
      else case h0 of None \<Rightarrow> (r, Some NilHandler) | Some h \<Rightarrow>
      case normalizeRoutePath method path0 of Inl p \<Rightarrow> (r, Some p) | Inr path \<Rightarrow>
      if list_ex (\<lambda>c. c < 0x20 \<or> c = 0x7f) path then (r, Some ControlCharacter)
      else if frozen r then (r, Some RouterFrozen)
      else
        (let segments = splitRouteSegments path;
             (root, p) = insertRoute G path
                (case map_of (trees r) method of Some n \<Rightarrow> n | None \<Rightarrow> newNode noConstraint) segments h [];
             r1 = addTree method root r in
         case p of Some p \<Rightarrow> (r1, Some p) | None \<Rightarrow>
         (let r2 = (case buildParamShortcut G segments h of
                      Some fr \<Rightarrow> addParamShortcut method fr r1 | None \<Rightarrow> r1);
              r3 = (if routeIsStatic segments then addStatic method path h r2 else r2) in
          (r3\<lparr>routes := List.insert (routeKey method path) (routes r3)\<rparr>, None))))"

definition Name :: "golib \<Rightarrow> 'h Router \<Rightarrow> bytes \<Rightarrow> bytes \<Rightarrow> bytes \<Rightarrow> 'h Router \<times> route_panic option" where
  "Name G r method0 path0 name0 =
     (let method = ToUpper G (TrimSpace method0) in
      case normalizeRoutePath method path0 of Inl p \<Rightarrow> (r, Some p) | Inr path \<Rightarrow>
      let name = TrimSpace name0; key = routeKey method path in
      if name = [] then (r, Some EmptyRouteName)
      else if frozen r then (r, Some RouterFrozen)
      else if key \<notin> set (routes r) then (r, Some UnregisteredRoute)
      else if (case map_of (named r) name of None \<Rightarrow> False
               | Some old \<Rightarrow> nrMethod old \<noteq> method \<or> nrPath old \<noteq> path) then (r, Some DuplicateName)
      else
        (let named1 = (case map_of (routeNames r) key of
               Some oldName \<Rightarrow> if oldName \<noteq> name then AList.delete oldName (named r) else named r
             | None \<Rightarrow> named r) in
         (r\<lparr>named := AList.update name \<lparr>nrMethod = method, nrPath = path\<rparr> named1,
            routeNames := AList.update key name (routeNames r)\<rparr>, None)))"

definition AddNamed :: "golib \<Rightarrow> 'h Router \<Rightarrow> bytes \<Rightarrow> bytes \<Rightarrow> bytes \<Rightarrow> 'h option \<Rightarrow> 'h Router \<times> route_panic option" where
  "AddNamed G r method path name h =
     (case Add G r method path h of (r1, Some p) \<Rightarrow> (r1, Some p) | (r1, None) \<Rightarrow> Name G r1 method path name)"

section \<open>Methods\<close>

definition sortedCanonicalMethods :: "bytes list" where
  "sortedCanonicalMethods = map canonName [CONNECT, DELETE, GET, HEAD, OPTIONS, PATCH, POST, PUT, QUERY, TRACE]"

definition sortedCanonicalMethodIndex :: "bytes \<Rightarrow> nat option" where
  "sortedCanonicalMethodIndex method =
     (if method = s2b ''CONNECT'' then Some 0 else if method = s2b ''DELETE'' then Some 1
      else if method = s2b ''GET'' then Some 2 else if method = s2b ''HEAD'' then Some 3
      else if method = s2b ''OPTIONS'' then Some 4 else if method = s2b ''PATCH'' then Some 5
      else if method = s2b ''POST'' then Some 6 else if method = s2b ''PUT'' then Some 7
      else if method = s2b ''QUERY'' then Some 8 else if method = s2b ''TRACE'' then Some 9 else None)"

definition cacheMethod :: "bytes \<Rightarrow> u16 \<times> bytes list \<Rightarrow> u16 \<times> bytes list" where
  "cacheMethod method s =
     (case sortedCanonicalMethodIndex method of
        Some i \<Rightarrow> (fst s OR push_bit i 1, snd s)
      | None \<Rightarrow> (fst s, snd s @ [method]))"

definition cacheMethodsNoLock :: "'h Router \<Rightarrow> 'h Router" where
  "cacheMethodsNoLock r =
     (let (bits, custom) = fold cacheMethod (map fst (trees r)) (0, []);
          bits1 = (if bits AND push_bit 2 1 \<noteq> 0 then bits OR push_bit 3 1 else bits) in
      r\<lparr>frozenMethodBits := bits1 OR push_bit 4 1, frozenCustomMethods := sort custom\<rparr>)"

definition Freeze :: "'h Router \<Rightarrow> 'h Router" where
  "Freeze r = (cacheMethodsNoLock r)\<lparr>frozen := True\<rparr>"

function skipUnset :: "u16 \<Rightarrow> nat \<Rightarrow> nat" where
  "skipUnset bits i =
     (if i < length sortedCanonicalMethods \<and> bits AND push_bit i 1 = 0 then skipUnset bits (Suc i) else i)"
  by pat_completeness auto

termination by (relation "measure (\<lambda>(bits, i). length sortedCanonicalMethods - i)") auto

declare skipUnset.simps [simp del]

lemma skipUnset_ge [len_simps]: "i \<le> skipUnset bits i"
  by (induction bits i rule: skipUnset.induct) (subst skipUnset.simps, auto)

function mergeMethods :: "u16 \<Rightarrow> bytes list \<Rightarrow> nat \<Rightarrow> nat \<Rightarrow> bytes list \<Rightarrow> bytes list" where
  "mergeMethods bits custom ci cu methods =
     (if ci < length sortedCanonicalMethods \<or> cu < length custom then
        (let ci1 = skipUnset bits ci in
         if ci1 \<ge> length sortedCanonicalMethods then methods @ drop cu custom
         else if cu \<ge> length custom \<or> sortedCanonicalMethods ! ci1 < custom ! cu
         then mergeMethods bits custom (Suc ci1) cu (methods @ [sortedCanonicalMethods ! ci1])
         else mergeMethods bits custom ci1 (Suc cu) (methods @ [custom ! cu]))
      else methods)"
  by pat_completeness auto

termination
proof (relation "measure (\<lambda>(bits, custom, ci, cu, m). (length sortedCanonicalMethods - ci) + (length custom - cu))", goal_cases)
  case (2 bits custom ci cu methods ci1)
  then show ?case using skipUnset_ge [of ci bits] by simp
next
  case (3 bits custom ci cu methods ci1)
  then show ?case using skipUnset_ge [of ci bits] by (simp, linarith)
qed simp

declare mergeMethods.simps [simp del]

definition frozenMethodsCopy :: "'h Router \<Rightarrow> bytes list" where
  "frozenMethodsCopy r = mergeMethods (frozenMethodBits r) (frozenCustomMethods r) 0 0 []"

definition buildMethodsNoLock :: "'h Router \<Rightarrow> bytes list \<Rightarrow> bytes list" where
  "buildMethodsNoLock r dst =
     (let seen = map fst (trees r);
          methods = dst @ seen;
          addHead = (s2b ''GET'' \<in> set seen \<and> s2b ''HEAD'' \<notin> set seen);
          methods1 = (if addHead then methods @ [s2b ''HEAD''] else methods);
          methods2 = (if s2b ''OPTIONS'' \<notin> set seen then methods1 @ [s2b ''OPTIONS''] else methods1) in
      sort methods2)"

definition Methods :: "'h Router \<Rightarrow> bytes list" where
  "Methods r = (if frozen r then frozenMethodsCopy r else buildMethodsNoLock r [])"

section \<open>Lookup\<close>

text \<open>
  The parameter slice is \<^term>\<open>None\<close> for a nil pointer. \<open>*params = (*params)[:0]\<close>:
\<close>

definition resetParams :: "Param list option \<Rightarrow> Param list option" where
  "resetParams params = map_option (\<lambda>_. []) params"

definition byteStringEqual :: "bytes \<Rightarrow> bytes \<Rightarrow> bool" where
  "byteStringEqual b s = (if length b \<noteq> length s then False else list_all2 (=) b s)"

definition hasPrefixString :: "bytes \<Rightarrow> bytes \<Rightarrow> bool" where
  "hasPrefixString b p = (if length b < length p then False else list_all2 (=) (take (length p) b) p)"

fun matchStaticShortcuts :: "'h staticShortcut list \<Rightarrow> bytes \<Rightarrow> Param list option \<Rightarrow> 'h option \<times> Param list option" where
  "matchStaticShortcuts [] path params = (None, params)"
| "matchStaticShortcuts (r # rs) path params =
     (if byteStringEqual path (ssPath r) then (Some (ssFn r), resetParams params)
      else matchStaticShortcuts rs path params)"

fun matchParamShortcuts ::
  "'h paramShortcut list \<Rightarrow> bytes \<Rightarrow> Param list option \<Rightarrow> bool \<Rightarrow> 'h option \<times> Param list option" where
  "matchParamShortcuts [] path params u = (None, params)"
| "matchParamShortcuts (r # rs) path params u =
     (if \<not> hasPrefixString path (psPrefix r) \<or> length path = length (psPrefix r)
      then matchParamShortcuts rs path params u
      else
        (let v = drop (length (psPrefix r)) path in
         if indexByte v (ch CHR ''?'') \<noteq> None then (None, params)
         else if indexByte v (ch CHR ''/'') \<noteq> None then matchParamShortcuts rs path params u
         else (Some (psFn r), map_option (\<lambda>_. [\<lparr>Key = psKey r, Value = paramValue v u\<rparr>]) params)))"

text \<open>
  The trie part of a lookup: with a nil pointer the parameters go to a local slice, otherwise the
  slice is reset first; a nil root finds nothing.
\<close>

definition matchRoot :: "golib \<Rightarrow> 'h Router \<Rightarrow> 'h node option \<Rightarrow> bytes \<Rightarrow> Param list option \<Rightarrow> 'h option \<times> Param list option" where
  "matchRoot G r root path params =
     (case root of
        None \<Rightarrow> (None, resetParams params)
      | Some n \<Rightarrow>
        (let (h, ps) = match G n (cleanLookupPath path) [] (UnsafeParams r) in
         (h, map_option (\<lambda>_. ps) params)))"

definition orFind :: "'h option \<times> Param list option \<Rightarrow> (Param list option \<Rightarrow> 'h option \<times> Param list option) \<Rightarrow> 'h option \<times> Param list option" where
  "orFind x k = (case x of (Some h, ps) \<Rightarrow> (Some h, ps) | (None, ps) \<Rightarrow> k ps)"

definition lookupStatic :: "(bytes \<times> 'h) list option \<Rightarrow> bytes \<Rightarrow> Param list option \<Rightarrow> 'h option \<times> Param list option" where
  "lookupStatic tbl path params =
     (case tbl of None \<Rightarrow> (None, params)
      | Some m \<Rightarrow> (case map_of m path of None \<Rightarrow> (None, params) | Some h \<Rightarrow> (Some h, resetParams params)))"

definition findNoLockBytesCore ::
  "golib \<Rightarrow> 'h Router \<Rightarrow> 'h staticShortcut list \<Rightarrow> (bytes \<times> 'h) list option \<Rightarrow> 'h paramShortcut list
   \<Rightarrow> 'h node option \<Rightarrow> bytes \<Rightarrow> Param list option \<Rightarrow> 'h option \<times> Param list option" where
  "findNoLockBytesCore G r shortcuts tbl paramsShortcuts root path params =
     orFind (if length shortcuts \<le> maxLinearRouteShortcuts then matchStaticShortcuts shortcuts path params else (None, params))
     (\<lambda>params. orFind (lookupStatic tbl path params)
     (\<lambda>params. orFind (if length paramsShortcuts \<le> maxLinearRouteShortcuts
                 then matchParamShortcuts paramsShortcuts path params (UnsafeParams r) else (None, params))
     (\<lambda>params. matchRoot G r root path params)))"

definition findNoLockCanonical ::
  "golib \<Rightarrow> 'h Router \<Rightarrow> bytes \<Rightarrow> bytes \<Rightarrow> Param list option \<Rightarrow> 'h option \<times> Param list option" where
  "findNoLockCanonical G r method path params =
     orFind (lookupStatic (map_of (statics r) method) path params)
     (\<lambda>params. orFind (if method = s2b ''HEAD'' then lookupStatic (map_of (statics r) (s2b ''GET'')) path params else (None, params))
     (\<lambda>params. orFind (matchRoot G r (map_of (trees r) method) path params)
     (\<lambda>params. if method = s2b ''HEAD'' then matchRoot G r (map_of (trees r) (s2b ''GET'')) path params
                else (None, params))))"

definition findNoLock ::
  "golib \<Rightarrow> 'h Router \<Rightarrow> bytes \<Rightarrow> bytes \<Rightarrow> Param list option \<Rightarrow> 'h option \<times> Param list option" where
  "findNoLock G r method path params = findNoLockCanonical G r (ToUpper G method) path params"

definition Find ::
  "golib \<Rightarrow> 'h Router \<Rightarrow> bytes \<Rightarrow> bytes \<Rightarrow> Param list option \<Rightarrow> 'h option \<times> Param list option" where
  "Find G r method path params = findNoLock G r method path params"

text \<open>The \<open>switch len(method)\<close> with its byte comparisons.\<close>

definition methodSwitch :: "bytes \<Rightarrow> canon option" where
  "methodSwitch m =
     (if length m = 3 then
        (if m ! 0 = ch CHR ''G'' \<and> m ! 1 = ch CHR ''E'' \<and> m ! 2 = ch CHR ''T'' then Some GET
         else if m ! 0 = ch CHR ''P'' \<and> m ! 1 = ch CHR ''U'' \<and> m ! 2 = ch CHR ''T'' then Some PUT else None)
      else if length m = 4 then
        (if m ! 0 = ch CHR ''P'' \<and> m ! 1 = ch CHR ''O'' \<and> m ! 2 = ch CHR ''S'' \<and> m ! 3 = ch CHR ''T'' then Some POST
         else if m ! 0 = ch CHR ''H'' \<and> m ! 1 = ch CHR ''E'' \<and> m ! 2 = ch CHR ''A'' \<and> m ! 3 = ch CHR ''D'' then Some HEAD
         else None)
      else if length m = 5 then
        (if m ! 0 = ch CHR ''P'' \<and> m ! 1 = ch CHR ''A'' \<and> m ! 2 = ch CHR ''T'' \<and> m ! 3 = ch CHR ''C'' \<and> m ! 4 = ch CHR ''H''
         then Some PATCH
         else if m ! 0 = ch CHR ''T'' \<and> m ! 1 = ch CHR ''R'' \<and> m ! 2 = ch CHR ''A'' \<and> m ! 3 = ch CHR ''C'' \<and> m ! 4 = ch CHR ''E''
         then Some TRACE
         else if m ! 0 = ch CHR ''Q'' \<and> m ! 1 = ch CHR ''U'' \<and> m ! 2 = ch CHR ''E'' \<and> m ! 3 = ch CHR ''R'' \<and> m ! 4 = ch CHR ''Y''
         then Some QUERY else None)
      else if length m = 6 then
        (if m ! 0 = ch CHR ''D'' \<and> m ! 1 = ch CHR ''E'' \<and> m ! 2 = ch CHR ''L'' \<and> m ! 3 = ch CHR ''E'' \<and> m ! 4 = ch CHR ''T''
            \<and> m ! 5 = ch CHR ''E'' then Some DELETE else None)
      else if length m = 7 then
        (if m ! 0 = ch CHR ''O'' \<and> m ! 1 = ch CHR ''P'' \<and> m ! 2 = ch CHR ''T'' \<and> m ! 3 = ch CHR ''I'' \<and> m ! 4 = ch CHR ''O''
            \<and> m ! 5 = ch CHR ''N'' \<and> m ! 6 = ch CHR ''S'' then Some OPTIONS
         else if m ! 0 = ch CHR ''C'' \<and> m ! 1 = ch CHR ''O'' \<and> m ! 2 = ch CHR ''N'' \<and> m ! 3 = ch CHR ''N'' \<and> m ! 4 = ch CHR ''E''
            \<and> m ! 5 = ch CHR ''C'' \<and> m ! 6 = ch CHR ''T'' then Some CONNECT else None)
      else None)"

definition findCore :: "golib \<Rightarrow> 'h Router \<Rightarrow> canon \<Rightarrow> bytes \<Rightarrow> Param list option \<Rightarrow> 'h option \<times> Param list option" where
  "findCore G r c path params =
     findNoLockBytesCore G r (shortcutOf r c) (staticOf r c) (paramOf r c) (treeOf r c) path params"

definition findBytesCanonical ::
  "golib \<Rightarrow> 'h Router \<Rightarrow> bytes \<Rightarrow> bytes \<Rightarrow> Param list option \<Rightarrow> 'h option \<times> Param list option" where
  "findBytesCanonical G r method path params =
     (case methodSwitch method of
        Some HEAD \<Rightarrow> orFind (findCore G r HEAD path params) (\<lambda>params. findCore G r GET path params)
      | Some c \<Rightarrow> findCore G r c path params
      | None \<Rightarrow> findNoLockCanonical G r method path params)"

definition FindBytes ::
  "golib \<Rightarrow> 'h Router \<Rightarrow> bytes \<Rightarrow> bytes \<Rightarrow> Param list option \<Rightarrow> 'h option \<times> Param list option" where
  "FindBytes G r method path params = findBytesCanonical G r method path params"

definition Pattern :: "golib \<Rightarrow> 'h Router \<Rightarrow> bytes \<Rightarrow> bytes \<Rightarrow> bytes" where
  "Pattern G r method0 path =
     (let method = ToUpper G method0;
          lookup = cleanLookupPath (routeLookupPath path);
          first = (case map_of (trees r) method of None \<Rightarrow> [] | Some root \<Rightarrow> matchPattern G root lookup) in
      if first \<noteq> [] then first
      else if method = s2b ''HEAD'' then
        (case map_of (trees r) (s2b ''GET'') of None \<Rightarrow> [] | Some root \<Rightarrow> matchPattern G root lookup)
      else [])"

section \<open>Allowed methods\<close>

definition allowedCanonical :: "bytes list" where
  "allowedCanonical = map canonName [GET, HEAD, POST, PUT, PATCH, DELETE, CONNECT, OPTIONS, TRACE, QUERY]"

definition canonicalRouteMethod :: "bytes \<Rightarrow> bool" where
  "canonicalRouteMethod method \<longleftrightarrow> method \<in> set allowedCanonical"

definition allowedAdd ::
  "golib \<Rightarrow> bytes \<Rightarrow> 'h Router \<Rightarrow> nat \<times> bytes \<Rightarrow> u16 \<times> bytes list \<Rightarrow> u16 \<times> bytes list" where
  "allowedAdd G lookupPath r im s =
     (case map_of (trees r) (snd im) of
        None \<Rightarrow> s
      | Some root \<Rightarrow>
        if matchesPath G root lookupPath \<and> fst s AND push_bit (fst im) 1 = 0
        then (fst s OR push_bit (fst im) 1, snd s @ [snd im]) else s)"

definition allowedNoLock :: "golib \<Rightarrow> 'h Router \<Rightarrow> bytes \<Rightarrow> bytes list" where
  "allowedNoLock G r path =
     (let lookupPath = cleanLookupPath (routeLookupPath path);
          (seen, allowed) = fold (allowedAdd G lookupPath r) (enumerate 0 allowedCanonical) (0, []);
          addHead = (seen AND 1 \<noteq> 0 \<and> seen AND push_bit 1 1 = 0);
          seen1 = (if addHead then seen OR push_bit 1 1 else seen);
          allowed1 = (if addHead then allowed @ [s2b ''HEAD''] else allowed);
          extra = sort (map fst (filter (\<lambda>(m, root). \<not> canonicalRouteMethod m \<and> matchesPath G root lookupPath) (trees r)));
          allowed2 = allowed1 @ extra in
      if length allowed2 > 0 \<and> seen1 AND push_bit 7 1 = 0 then allowed2 @ [s2b ''OPTIONS''] else allowed2)"

definition Allowed :: "golib \<Rightarrow> 'h Router \<Rightarrow> bytes \<Rightarrow> bytes list" where
  "Allowed G r path = allowedNoLock G r path"

section \<open>Prebuilt responses\<close>

definition addPrebuiltResponse :: "bytes \<Rightarrow> bytes \<Rightarrow> bytes \<Rightarrow> 'h Router \<Rightarrow> 'h Router" where
  "addPrebuiltResponse method path resp r =
     (let r1 = r\<lparr>hasPrebuilt := True\<rparr> in
      case canonMethod method of None \<Rightarrow> r1
      | Some c \<Rightarrow> r1\<lparr>prebuiltOf := (prebuiltOf r1)(c := prebuiltOf r1 c @ [\<lparr>prPath = path, prResp = resp\<rparr>])\<rparr>)"

definition registerPrebuiltResponse :: "golib \<Rightarrow> 'h Router \<Rightarrow> bytes \<Rightarrow> bytes \<Rightarrow> bytes \<Rightarrow> 'h Router \<times> route_panic option" where
  "registerPrebuiltResponse G r method0 path0 resp =
     (let method = ToUpper G (TrimSpace method0) in
      case normalizeRoutePath method path0 of Inl p \<Rightarrow> (r, Some p) | Inr path \<Rightarrow>
      if frozen r then (r, Some RouterFrozen) else (addPrebuiltResponse method path resp r, None))"

text \<open>The nil slice is the empty list; storing an empty response stores nil as well.\<close>

fun matchPrebuiltResponse :: "prebuiltResponse list \<Rightarrow> bytes \<Rightarrow> bytes" where
  "matchPrebuiltResponse [] path = []"
| "matchPrebuiltResponse (r # rs) path =
     (if byteStringEqual path (prPath r) then prResp r else matchPrebuiltResponse rs path)"

definition FindPrebuiltResponseBytes :: "'h Router \<Rightarrow> bytes \<Rightarrow> bytes \<Rightarrow> bytes" where
  "FindPrebuiltResponseBytes r method path =
     (case methodSwitch method of None \<Rightarrow> [] | Some c \<Rightarrow> matchPrebuiltResponse (prebuiltOf r c) path)"

section \<open>Compiled patterns\<close>

definition CompileRoutePattern :: "golib \<Rightarrow> bytes \<Rightarrow> route_panic + unit node" where
  "CompileRoutePattern G pattern0 =
     (case normalizeRoutePath (s2b ''MATCH'') pattern0 of Inl p \<Rightarrow> Inl p | Inr pat \<Rightarrow>
      case insertRoute G pat (newNode noConstraint) (splitRouteSegments pat) () [] of
        (root, Some p) \<Rightarrow> Inl p | (root, None) \<Rightarrow> Inr root)"

definition RoutePattern_Match :: "golib \<Rightarrow> unit node option \<Rightarrow> bytes \<Rightarrow> Param list option \<Rightarrow> bool \<times> Param list option" where
  "RoutePattern_Match G root path0 params =
     (case root of None \<Rightarrow> (False, params)
      | Some n \<Rightarrow>
        (let path = (case indexByte path0 (ch CHR ''?'') of Some i \<Rightarrow> take i path0 | None \<Rightarrow> path0);
             (h, ps) = match G n (cleanLookupPath path) [] True in
         (h \<noteq> None, map_option (\<lambda>_. ps) params)))"

end
