(* ===== verification/Router_Correct.thy ===== *)
theory Router_Correct
  imports Router
begin

text \<open>
  Correctness of the router. A router built by registrations that did not panic is related to the
  list of its routes; every lookup is specified by that list alone.
\<close>

section \<open>Specification\<close>

type_synonym 'h routeEntry = "bytes \<times> bytes \<times> 'h"

text \<open>A pattern matches a path with these parameters.\<close>

definition bindParams :: "bytes list \<Rightarrow> bytes list \<Rightarrow> Param list" where
  "bindParams ks vs = map2 (\<lambda>k v. \<lparr>Key = k, Value = v\<rparr>) ks vs"

definition routeMatches :: "golib \<Rightarrow> bytes \<Rightarrow> bytes \<Rightarrow> Param list \<Rightarrow> bool" where
  "routeMatches G pat path ps \<longleftrightarrow>
     list_ex (\<lambda>(ls, ks). case accepts G ls (cleanLookupPath path) of
         None \<Rightarrow> False | Some vs \<Rightarrow> ps = bindParams ks vs)
       (variants G (splitRouteSegments pat))"

text \<open>The methods whose routes answer a request.\<close>

definition answers :: "bytes \<Rightarrow> bytes \<Rightarrow> bool" where
  "answers method m \<longleftrightarrow> m = method \<or> method = canonName HEAD \<and> m = canonName GET"

text \<open>The routers that registration builds, with their routes in the order of registration.\<close>

inductive registered :: "golib \<Rightarrow> 'h Router \<Rightarrow> 'h routeEntry list \<Rightarrow> bool" for G where
  new: "registered G NewRouter []"
| unsafe: "registered G r rs \<Longrightarrow> registered G (r\<lparr>UnsafeParams := b\<rparr>) rs"
| add: "registered G r rs \<Longrightarrow> Add G r m p (Some h) = (r', None) \<Longrightarrow>
    normalizeRoutePath (ToUpper G (TrimSpace m)) p = Inr path \<Longrightarrow>
    registered G r' (rs @ [(ToUpper G (TrimSpace m), path, h)])"
| name: "registered G r rs \<Longrightarrow> Name G r m p n = (r', None) \<Longrightarrow> registered G r' rs"
| prebuilt: "registered G r rs \<Longrightarrow> registerPrebuiltResponse G r m p b = (r', None) \<Longrightarrow> registered G r' rs"
| freeze: "registered G r rs \<Longrightarrow> registered G (Freeze r) rs"

section \<open>Methods with their own fields\<close>

lemma canonName_inj [simp]: "canonName c = canonName d \<longleftrightarrow> c = d"
  by (cases c; cases d) (simp_all add: canonName_def)

lemma canonMethod_name [simp]: "canonMethod (canonName c) = Some c"
  by (cases c) (simp_all add: canonMethod_def)

lemma canonMethod_Some: "canonMethod m = Some c \<longleftrightarrow> m = canonName c"
proof
  assume "canonMethod m = Some c"
  then show "m = canonName c" unfolding canonMethod_def find_Some_iff by auto
qed simp

lemma canonMethod_None: "canonMethod m = None \<Longrightarrow> m \<noteq> canonName c"
  by auto

lemma length_cases:
  "length m = 3 \<longleftrightarrow> (\<exists>a b c. m = [a, b, c])"
  "length m = 4 \<longleftrightarrow> (\<exists>a b c d. m = [a, b, c, d])"
  "length m = 5 \<longleftrightarrow> (\<exists>a b c d e. m = [a, b, c, d, e])"
  "length m = 6 \<longleftrightarrow> (\<exists>a b c d e f. m = [a, b, c, d, e, f])"
  "length m = 7 \<longleftrightarrow> (\<exists>a b c d e f g. m = [a, b, c, d, e, f, g])"
  by (auto simp: numeral_eq_Suc length_Suc_conv)

lemma methodSwitch_name: "methodSwitch (canonName c) = Some c"
  by (cases c) (simp_all add: methodSwitch_def canonName_def)

lemma methodSwitch_Some: "methodSwitch m = Some c \<longleftrightarrow> m = canonName c"
proof
  assume a: "methodSwitch m = Some c"
  show "m = canonName c"
    using a unfolding methodSwitch_def length_cases
    by (auto simp: canonName_def split: if_splits)
qed (simp add: methodSwitch_name)

section \<open>The state changes of a registration\<close>

lemma setCommonTree_fields [simp]:
  "treeOf (setCommonTree m n r) c = (if m = canonName c then Some n else treeOf r c)"
  "trees (setCommonTree m n r) = trees r" "statics (setCommonTree m n r) = statics r"
  "staticOf (setCommonTree m n r) = staticOf r" "paramOf (setCommonTree m n r) = paramOf r"
  "shortcutOf (setCommonTree m n r) = shortcutOf r" "frozen (setCommonTree m n r) = frozen r"
  by (auto simp: setCommonTree_def canonMethod_Some split: option.split dest: canonMethod_None)

lemma setCommonStatic_fields [simp]:
  "staticOf (setCommonStatic m t r) c = (if m = canonName c then Some t else staticOf r c)"
  "trees (setCommonStatic m t r) = trees r" "statics (setCommonStatic m t r) = statics r"
  "treeOf (setCommonStatic m t r) = treeOf r" "paramOf (setCommonStatic m t r) = paramOf r"
  "shortcutOf (setCommonStatic m t r) = shortcutOf r" "frozen (setCommonStatic m t r) = frozen r"
  by (auto simp: setCommonStatic_def canonMethod_Some split: option.split dest: canonMethod_None)

lemma addStaticShortcut_fields [simp]:
  "trees (addStaticShortcut m f r) = trees r" "statics (addStaticShortcut m f r) = statics r"
  "treeOf (addStaticShortcut m f r) = treeOf r" "paramOf (addStaticShortcut m f r) = paramOf r"
  "staticOf (addStaticShortcut m f r) = staticOf r" "frozen (addStaticShortcut m f r) = frozen r"
  by (simp_all add: addStaticShortcut_def split: option.split)

lemma addParamShortcut_fields [simp]:
  "trees (addParamShortcut m f r) = trees r" "statics (addParamShortcut m f r) = statics r"
  "treeOf (addParamShortcut m f r) = treeOf r" "shortcutOf (addParamShortcut m f r) = shortcutOf r"
  "staticOf (addParamShortcut m f r) = staticOf r" "frozen (addParamShortcut m f r) = frozen r"
  by (simp_all add: addParamShortcut_def split: option.split)

lemma addStaticShortcut_mem:
  "x \<in> set (shortcutOf (addStaticShortcut m f r) c) \<Longrightarrow> x \<in> set (shortcutOf r c) \<or> m = canonName c \<and> x = f"
  by (auto simp: addStaticShortcut_def appendStaticShortcut_def canonMethod_Some split: option.splits if_splits)

lemma addParamShortcut_mem:
  "x \<in> set (paramOf (addParamShortcut m f r) c) \<Longrightarrow> x \<in> set (paramOf r c) \<or> m = canonName c \<and> x = f"
  by (auto simp: addParamShortcut_def appendParamShortcut_def canonMethod_Some split: option.splits if_splits)

lemma addTree_fields [simp]:
  "treeOf (addTree m n r) c = (if m = canonName c then Some n else treeOf r c)"
  "trees (addTree m n r) = AList.update m n (trees r)" "statics (addTree m n r) = statics r"
  "staticOf (addTree m n r) = staticOf r" "paramOf (addTree m n r) = paramOf r"
  "shortcutOf (addTree m n r) = shortcutOf r" "frozen (addTree m n r) = frozen r"
  by (simp_all add: addTree_def)

definition staticTable :: "bytes \<Rightarrow> 'h Router \<Rightarrow> (bytes \<times> 'h) list" where
  "staticTable m r = (case map_of (statics r) m of Some t \<Rightarrow> t | None \<Rightarrow> [])"

lemma addStatic_fields [simp]:
  "trees (addStatic m p h r) = trees r" "treeOf (addStatic m p h r) = treeOf r"
  "paramOf (addStatic m p h r) = paramOf r" "frozen (addStatic m p h r) = frozen r"
  "statics (addStatic m p h r) = AList.update m (AList.update p h (staticTable m r)) (statics r)"
  "staticOf (addStatic m p h r) c = (if m = canonName c then Some (AList.update p h (staticTable m r)) else staticOf r c)"
  by (simp_all add: addStatic_def staticTable_def Let_def)

lemma addStatic_mem:
  "x \<in> set (shortcutOf (addStatic m p h r) c) \<Longrightarrow>
     x \<in> set (shortcutOf r c) \<or> m = canonName c \<and> x = \<lparr>ssPath = p, ssFn = h\<rparr>"
  unfolding addStatic_def Let_def by (drule addStaticShortcut_mem) simp

text \<open>The part of \<open>Add\<close> after the insertion into the trie.\<close>

definition addTables :: "golib \<Rightarrow> bytes \<Rightarrow> bytes \<Rightarrow> 'h \<Rightarrow> 'h Router \<Rightarrow> 'h Router" where
  "addTables G method path h r1 =
     (let r2 = (case buildParamShortcut G (splitRouteSegments path) h of
                  Some fr \<Rightarrow> addParamShortcut method fr r1 | None \<Rightarrow> r1);
          r3 = (if routeIsStatic (splitRouteSegments path) then addStatic method path h r2 else r2) in
      r3\<lparr>routes := List.insert (routeKey method path) (routes r3)\<rparr>)"

definition rootOf :: "'h Router \<Rightarrow> bytes \<Rightarrow> 'h node" where
  "rootOf r m = (case map_of (trees r) m of Some n \<Rightarrow> n | None \<Rightarrow> newNode noConstraint)"

lemma Add_success:
  assumes "Add G r m p h0 = (r', None)"
  obtains h path root where "h0 = Some h" "normalizeRoutePath (ToUpper G (TrimSpace m)) p = Inr path"
    "\<not> frozen r"
    "insertRoute G path (rootOf r (ToUpper G (TrimSpace m))) (splitRouteSegments path) h [] = (root, None)"
    "r' = addTables G (ToUpper G (TrimSpace m)) path h (addTree (ToUpper G (TrimSpace m)) root r)"
proof -
  let ?m = "ToUpper G (TrimSpace m)"
  obtain h where h: "h0 = Some h" using assms by (cases h0) (auto simp: Add_def Let_def split: if_splits)
  obtain path where path: "normalizeRoutePath ?m p = Inr path"
    using assms h by (cases "normalizeRoutePath ?m p") (auto simp: Add_def Let_def split: if_splits)
  obtain root q where root: "insertRoute G path (rootOf r ?m) (splitRouteSegments path) h [] = (root, q)"
    by fastforce
  have nf: "\<not> frozen r" using assms h path by (auto simp: Add_def Let_def split: if_splits)
  have q: "q = None" and r': "r' = addTables G ?m path h (addTree ?m root r)"
    using assms h path root [unfolded rootOf_def]
    by (auto simp: Add_def Let_def addTables_def split: if_splits option.splits)
  show ?thesis using that h path nf root q r' by blast
qed

lemma addTables_fields [simp]:
  "trees (addTables G m p h r) = trees r" "treeOf (addTables G m p h r) = treeOf r"
  "frozen (addTables G m p h r) = frozen r"
  by (simp_all add: addTables_def Let_def split: option.split)

lemma addTables_statics:
  "map_of (statics (addTables G m p h r)) m' =
     (if routeIsStatic (splitRouteSegments p) \<and> m' = m then Some (AList.update p h (staticTable m r)) else map_of (statics r) m')"
  "staticOf (addTables G m p h r) c =
     (if routeIsStatic (splitRouteSegments p) \<and> m = canonName c then Some (AList.update p h (staticTable m r)) else staticOf r c)"
  by (auto simp: addTables_def Let_def update_conv' staticTable_def split: option.split)

lemma addTables_shortcut:
  "x \<in> set (shortcutOf (addTables G m p h r) c) \<Longrightarrow>
     x \<in> set (shortcutOf r c) \<or> m = canonName c \<and> routeIsStatic (splitRouteSegments p) \<and> x = \<lparr>ssPath = p, ssFn = h\<rparr>"
  by (auto simp: addTables_def Let_def split: option.splits if_splits dest!: addStatic_mem)

lemma addTables_param:
  "x \<in> set (paramOf (addTables G m p h r) c) \<Longrightarrow>
     x \<in> set (paramOf r c) \<or> m = canonName c \<and> buildParamShortcut G (splitRouteSegments p) h = Some x"
  by (auto simp: addTables_def Let_def split: option.splits if_splits dest!: addParamShortcut_mem)

section \<open>The invariant\<close>

definition tree_ok :: "golib \<Rightarrow> 'h routeEntry list \<Rightarrow> bytes \<Rightarrow> 'h node \<Rightarrow> bool" where
  "tree_ok G rs m n \<longleftrightarrow> wf_node n
     \<and> (\<forall>ls e. endpointAt n ls = Some e \<longrightarrow> (\<exists>pat h ks. (m, pat, h) \<in> set rs \<and> pat \<noteq> []
          \<and> (ls, ks) \<in> set (variants G (splitRouteSegments pat)) \<and> e = \<lparr>fn = h, paramKeys = ks, pattern = pat\<rparr>))
     \<and> (\<forall>pat h ls ks. (m, pat, h) \<in> set rs \<longrightarrow> (ls, ks) \<in> set (variants G (splitRouteSegments pat)) \<longrightarrow> endpointAt n ls \<noteq> None)"

definition static_route :: "bytes \<Rightarrow> bool" where
  "static_route p \<longleftrightarrow> p \<noteq> [] \<and> hd p = ch CHR ''/'' \<and> routeIsStatic (splitRouteSegments p)"

definition trees_ok :: "golib \<Rightarrow> 'h Router \<Rightarrow> 'h routeEntry list \<Rightarrow> bool" where
  "trees_ok G r rs \<longleftrightarrow> distinct (map fst (trees r))
     \<and> (\<forall>m n. map_of (trees r) m = Some n \<longrightarrow> tree_ok G rs m n)
     \<and> (\<forall>m pat h. (m, pat, h) \<in> set rs \<longrightarrow> map_of (trees r) m \<noteq> None)
     \<and> (\<forall>c. treeOf r c = map_of (trees r) (canonName c))"

definition tables_ok :: "golib \<Rightarrow> 'h Router \<Rightarrow> 'h routeEntry list \<Rightarrow> bool" where
  "tables_ok G r rs \<longleftrightarrow> (\<forall>c. staticOf r c = map_of (statics r) (canonName c))
     \<and> (\<forall>m t p h. map_of (statics r) m = Some t \<longrightarrow> map_of t p = Some h \<longrightarrow> (m, p, h) \<in> set rs \<and> static_route p)
     \<and> (\<forall>c. \<forall>x \<in> set (shortcutOf r c). (canonName c, ssPath x, ssFn x) \<in> set rs \<and> static_route (ssPath x))
     \<and> (\<forall>c. \<forall>x \<in> set (paramOf r c). \<exists>pat. (canonName c, pat, psFn x) \<in> set rs
          \<and> buildParamShortcut G (splitRouteSegments pat) (psFn x) = Some x)"

lemma normalized:
  assumes "normalizeRoutePath m p = Inr path"
  shows "path \<noteq> []" "hd path = ch CHR ''/'' \<or> path = s2b ''*''"
  using assms by (auto simp: normalizeRoutePath_def Let_def split: if_splits)

lemma static_routeI:
  "normalizeRoutePath m p = Inr path \<Longrightarrow> routeIsStatic (splitRouteSegments path) \<Longrightarrow> static_route path"
  using normalized [of m p path] by (auto simp: static_route_def splitRouteSegments_def routeIsStatic_def split: if_splits)

lemma keys_captures: "length (keys_of G seg) = captures [label_of G seg]"
  by (simp add: keys_of_def label_of_def captures_def Let_def)

lemma concat_keys_captures: "length (concat (map (keys_of G) segs)) = captures (map (label_of G) segs)"
  using keys_captures by (induction segs) (auto simp: captures_def)

lemma variants_captures: "(ls, ks) \<in> set (variants G segs) \<Longrightarrow> length ks = captures ls"
  by (auto simp: variants_def concat_keys_captures split: if_splits)

lemma tree_ok_keyed: "tree_ok G rs m n \<Longrightarrow> keyed n"
  unfolding tree_ok_def keyed_def by (metis routeEndpoint.select_convs(2,3) variants_captures)

lemma tree_ok_wf: "tree_ok G rs m n \<Longrightarrow> wf_node n"
  by (simp add: tree_ok_def)

lemma tree_ok_insert:
  assumes ok: "tree_ok G rs m n" and ins: "insertRoute G pat n (splitRouteSegments pat) h [] = (n', None)" and ne: "pat \<noteq> []"
  shows "tree_ok G (rs @ [(m, pat, h)]) m n'"
proof -
  let ?V = "variants G (splitRouteSegments pat)"
  note e = insertRoute_endpoints [OF ins tree_ok_wf [OF ok]]
  have at: "endpointAt n' ls = (case map_of ?V ls of Some ks \<Rightarrow> Some \<lparr>fn = h, paramKeys = ks, pattern = pat\<rparr> | None \<Rightarrow> endpointAt n ls)" for ls
    using e by (simp add: endpointsOf_def split: option.split)
  have 1: "\<exists>pat' h' ks. (m, pat', h') \<in> set (rs @ [(m, pat, h)]) \<and> pat' \<noteq> []
      \<and> (ls, ks) \<in> set (variants G (splitRouteSegments pat')) \<and> x = \<lparr>fn = h', paramKeys = ks, pattern = pat'\<rparr>"
    if "endpointAt n' ls = Some x" for ls x
  proof (cases "map_of ?V ls")
    case None
    then have "endpointAt n ls = Some x" using that at by simp
    then show ?thesis using ok unfolding tree_ok_def by (metis UnI1 set_append)
  next
    case (Some ks)
    then have "x = \<lparr>fn = h, paramKeys = ks, pattern = pat\<rparr>" using that at by simp
    moreover have "(ls, ks) \<in> set ?V" using Some by (rule map_of_SomeD)
    ultimately show ?thesis using ne by auto
  qed
  have 2: "endpointAt n' ls \<noteq> None"
    if "(m, pat', h') \<in> set (rs @ [(m, pat, h)])" "(ls, ks) \<in> set (variants G (splitRouteSegments pat'))" for pat' h' ls ks
  proof (cases "map_of ?V ls")
    case None
    then have "pat' \<noteq> pat" using that(2) by (auto simp: map_of_eq_None_iff rev_image_eqI)
    with that(1) have "(m, pat', h') \<in> set rs" by simp
    with that(2) have "endpointAt n ls \<noteq> None" using ok unfolding tree_ok_def by blast
    then show ?thesis using at None by simp
  qed (simp add: at)
  show ?thesis using e 1 2 unfolding tree_ok_def by blast
qed

lemma tree_ok_other: "tree_ok G rs m n \<Longrightarrow> m' \<noteq> m \<Longrightarrow> tree_ok G (rs @ [(m', pat, h)]) m n"
  unfolding tree_ok_def by fastforce

lemma tree_ok_new: "\<forall>pat h. (m, pat, h) \<notin> set rs \<Longrightarrow> tree_ok G rs m (newNode c)"
  by (simp add: tree_ok_def)

lemma trees_ok_add:
  assumes ok: "trees_ok G r rs" and ne: "pat \<noteq> []"
    and ins: "insertRoute G pat (rootOf r m) (splitRouteSegments pat) h [] = (root, None)"
  shows "trees_ok G (addTables G m pat h (addTree m root r)) (rs @ [(m, pat, h)])"
proof -
  have root: "tree_ok G rs m (rootOf r m)"
  proof (cases "map_of (trees r) m")
    case None
    then have "\<forall>pat h. (m, pat, h) \<notin> set rs" using ok unfolding trees_ok_def by blast
    then show ?thesis using None by (simp add: rootOf_def tree_ok_new)
  next
    case (Some n)
    then show ?thesis using ok unfolding trees_ok_def rootOf_def by simp
  qed
  have "tree_ok G (rs @ [(m, pat, h)]) m root" by (rule tree_ok_insert [OF root ins ne])
  moreover have "tree_ok G (rs @ [(m, pat, h)]) m' n" if "map_of (trees r) m' = Some n" "m' \<noteq> m" for m' n
    using ok that by (intro tree_ok_other) (auto simp: trees_ok_def)
  ultimately show ?thesis using ok unfolding trees_ok_def
    by (auto simp: update_conv' distinct_update) blast
qed

lemma tables_ok_add:
  assumes ok: "tables_ok G r rs" and norm: "normalizeRoutePath m p0 = Inr pat"
  shows "tables_ok G (addTables G m pat h (addTree m root r)) (rs @ [(m, pat, h)])"
proof -
  let ?r = "addTables G m pat h (addTree m root r)" and ?rs = "rs @ [(m, pat, h)]"
  have st: "staticTable m' (addTree m root r) = staticTable m' r" for m' by (simp add: staticTable_def)
  have "staticOf ?r c = map_of (statics ?r) (canonName c)" for c
    using ok by (auto simp: tables_ok_def addTables_statics)
  moreover have "(m', p, k) \<in> set ?rs \<and> static_route p"
    if "map_of (statics ?r) m' = Some t" "map_of t p = Some k" for m' t p k
  proof (cases "routeIsStatic (splitRouteSegments pat) \<and> m' = m")
    case True
    then have "t = AList.update pat h (staticTable m r)" using that(1) by (simp add: addTables_statics st)
    then have "p = pat \<and> k = h \<or> map_of (staticTable m r) p = Some k" using that(2) by (auto simp: update_conv' split: if_splits)
    moreover have "(m, p, k) \<in> set rs \<and> static_route p" if "map_of (staticTable m r) p = Some k"
      using ok that unfolding tables_ok_def staticTable_def by (auto split: option.splits)
    ultimately show ?thesis using True static_routeI [OF norm] by auto
  next
    case False
    then have "map_of (statics r) m' = Some t" using that(1) by (auto simp: addTables_statics)
    then show ?thesis using ok that(2) unfolding tables_ok_def by auto
  qed
  moreover have "(canonName c, ssPath x, ssFn x) \<in> set ?rs \<and> static_route (ssPath x)" if "x \<in> set (shortcutOf ?r c)" for c x
    using addTables_shortcut [OF that] ok static_routeI [OF norm] unfolding tables_ok_def by auto
  moreover have "\<exists>q. (canonName c, q, psFn x) \<in> set ?rs \<and> buildParamShortcut G (splitRouteSegments q) (psFn x) = Some x"
    if x: "x \<in> set (paramOf ?r c)" for c x
  proof -
    consider "x \<in> set (paramOf r c)" | "m = canonName c" "buildParamShortcut G (splitRouteSegments pat) h = Some x"
      using addTables_param [OF x] by auto
    then show ?thesis
    proof cases
      case 1
      then show ?thesis using ok unfolding tables_ok_def by (metis UnI1 set_append)
    next
      case 2
      then have "psFn x = h" by (auto simp: buildParamShortcut_def case_prod_unfold Let_def split: list.splits if_splits)
      then show ?thesis using 2 by auto
    qed
  qed
  ultimately show ?thesis unfolding tables_ok_def by blast
qed

lemma Name_fields:
  assumes "Name G r m p n = (r', q)"
  shows "trees r' = trees r" "treeOf r' = treeOf r" "statics r' = statics r" "staticOf r' = staticOf r"
    "shortcutOf r' = shortcutOf r" "paramOf r' = paramOf r" "frozen r' = frozen r"
    "frozenMethodBits r' = frozenMethodBits r" "frozenCustomMethods r' = frozenCustomMethods r"
  using assms by (auto simp: Name_def Let_def split: sum.splits if_splits)

lemma prebuilt_fields:
  assumes "registerPrebuiltResponse G r m p b = (r', q)"
  shows "trees r' = trees r" "treeOf r' = treeOf r" "statics r' = statics r" "staticOf r' = staticOf r"
    "shortcutOf r' = shortcutOf r" "paramOf r' = paramOf r" "frozen r' = frozen r"
    "frozenMethodBits r' = frozenMethodBits r" "frozenCustomMethods r' = frozenCustomMethods r"
  using assms by (auto simp: registerPrebuiltResponse_def addPrebuiltResponse_def Let_def split: sum.splits if_splits option.splits)

lemma Freeze_fields [simp]:
  "trees (Freeze r) = trees r" "treeOf (Freeze r) = treeOf r" "statics (Freeze r) = statics r"
  "staticOf (Freeze r) = staticOf r" "shortcutOf (Freeze r) = shortcutOf r" "paramOf (Freeze r) = paramOf r"
  "frozen (Freeze r)"
  by (simp_all add: Freeze_def cacheMethodsNoLock_def case_prod_unfold Let_def)

lemma ok_fields:
  assumes "trees_ok G r rs \<and> tables_ok G r rs" "trees r' = trees r" "treeOf r' = treeOf r"
    "statics r' = statics r" "staticOf r' = staticOf r" "shortcutOf r' = shortcutOf r" "paramOf r' = paramOf r"
  shows "trees_ok G r' rs \<and> tables_ok G r' rs"
  using assms(1) unfolding trees_ok_def tables_ok_def assms(2-) .

lemma registered_ok:
  assumes "registered G r rs"
  shows "trees_ok G r rs \<and> tables_ok G r rs"
  using assms
proof induction
  case new
  show ?case by (simp add: NewRouter_def trees_ok_def tables_ok_def)
next
  case (unsafe r rs b)
  show ?case by (rule ok_fields [OF unsafe.IH]) simp_all
next
  case (add r rs m p h r' path)
  obtain root where "insertRoute G path (rootOf r (ToUpper G (TrimSpace m))) (splitRouteSegments path) h [] = (root, None)"
    "r' = addTables G (ToUpper G (TrimSpace m)) path h (addTree (ToUpper G (TrimSpace m)) root r)"
    using Add_success [OF add.hyps(2)] add.hyps(3) by (metis Inr_inject option.inject)
  then show ?case
    using trees_ok_add [OF conjunct1 [OF add.IH] normalized(1) [OF add.hyps(3)]]
      tables_ok_add [OF conjunct2 [OF add.IH] add.hyps(3)] by blast
next
  case (name r rs m p n r')
  show ?case by (rule ok_fields [OF name.IH]) (simp_all add: Name_fields [OF name.hyps(2)])
next
  case (prebuilt r rs m p b r')
  show ?case by (rule ok_fields [OF prebuilt.IH]) (simp_all add: prebuilt_fields [OF prebuilt.hyps(2)])
next
  case (freeze r rs)
  show ?case by (rule ok_fields [OF freeze.IH]) simp_all
qed

end
