(* ===== verification/Router_Dispatch.thy ===== *)
theory Router_Dispatch
  imports Router_Correct
begin

text \<open>
  What the lookups return, in terms of the registered routes: the shortcut tables and the trie agree
  with the patterns, a lookup finds a handler exactly if a pattern matches, and \<open>Find\<close> returns the
  route of highest precedence.
\<close>

section \<open>Static patterns and shortcuts match their paths\<close>

fun joinSegs :: "bytes list \<Rightarrow> bytes" where
  "joinSegs [] = []"
| "joinSegs [s] = s"
| "joinSegs (s # t) = s @ ch CHR ''/'' # joinSegs t"

lemma joinSegs_Cons: "t \<noteq> [] \<Longrightarrow> joinSegs (s # t) = s @ ch CHR ''/'' # joinSegs t"
  by (cases t) simp_all

lemma joinSegs_split: "joinSegs (split_on (ch CHR ''/'') q) = q"
proof (induction q)
  case (Cons x q)
  show ?case
  proof (cases "x = ch CHR ''/''")
    case True
    then show ?thesis using Cons by (simp add: joinSegs_Cons)
  next
    case False
    obtain s t where st: "split_on (ch CHR ''/'') q = s # t" by (cases "split_on (ch CHR ''/'') q") auto
    then show ?thesis using False Cons by (cases t) simp_all
  qed
qed simp

lemma split_on_notin: "s \<in> set (split_on c q) \<Longrightarrow> c \<notin> set s \<and> set s \<subseteq> set q"
proof (induction q arbitrary: s)
  case (Cons x q)
  have h: "c \<notin> set (hd (split_on c q))" "set (hd (split_on c q)) \<subseteq> set q"
    using Cons.IH [of "hd (split_on c q)"] by auto
  consider "s = []" | "s \<in> set (split_on c q)" | "x \<noteq> c" "s = x # hd (split_on c q)"
    using Cons.prems list.set_sel(2) [OF split_on_nonempty] by (auto split: if_splits)
  then show ?case
  proof cases
    case 2
    then show ?thesis using Cons.IH by auto
  next
    case 3
    then show ?thesis using h by auto
  qed simp
qed simp

lemma segByte_all: "ch CHR ''/'' \<notin> set s \<Longrightarrow> ch CHR ''?'' \<notin> set s \<Longrightarrow> list_all segByte s"
  by (auto simp: list_all_iff segByte_def)

lemma dropWhile_hd: "s \<noteq> [] \<Longrightarrow> \<not> P (hd s) \<Longrightarrow> dropWhile P (s @ t) = s @ t"
  by (cases s) auto

lemma joinSegs_hd: "segs \<noteq> [] \<Longrightarrow> hd segs \<noteq> [] \<Longrightarrow> joinSegs segs \<noteq> [] \<and> hd (joinSegs segs) = hd (hd segs)"
  by (cases segs rule: joinSegs.cases) auto

lemma accepts_static:
  "segs \<noteq> [] \<Longrightarrow> \<forall>s \<in> set segs. s \<noteq> [] \<and> list_all segByte s \<Longrightarrow>
   accepts G (map LStatic segs) (joinSegs segs) = Some []"
proof (induction segs rule: joinSegs.induct)
  case (2 s)
  then show ?case by (simp add: nextSegment_last)
next
  case (3 s t ts)
  have ne: "joinSegs (t # ts) \<noteq> [] \<and> hd (joinSegs (t # ts)) = hd t"
    using joinSegs_hd [of "t # ts"] 3 by simp
  moreover have "segByte (hd t)" using 3 by (auto simp: list_all_iff)
  ultimately have "dropWhile (\<lambda>c. c = ch CHR ''/'') (joinSegs (t # ts)) = joinSegs (t # ts)"
    using dropWhile_hd [of "joinSegs (t # ts)" _ "[]"] by (simp add: segByte_def)
  then have "nextSegment (joinSegs (s # t # ts)) = (s, joinSegs (t # ts))"
    using nextSegment_slash [of s "joinSegs (t # ts)"] 3 by (simp only: joinSegs.simps(3)) simp
  moreover have "joinSegs (s # t # ts) \<noteq> []" by simp
  ultimately show ?case using 3 by (simp del: joinSegs.simps)
qed simp

lemma cleanLookupPath_slash:
  assumes "q \<noteq> []" "hd q \<noteq> ch CHR ''/''" "hd q \<noteq> ch CHR ''?''"
  shows "cleanLookupPath (ch CHR ''/'' # q) = q"
  using dropWhile_hd [of q "\<lambda>c. c = ch CHR ''/''" "[]"] assms by (simp add: cleanLookupPath_def)

lemma splitRouteSegments_slash: "q \<noteq> [] \<Longrightarrow> splitRouteSegments (ch CHR ''/'' # q) = split_on (ch CHR ''/'') q"
  by (simp add: splitRouteSegments_def)

lemma static_labels:
  assumes "routeIsStatic segs"
  shows "map (label_of G) segs = map LStatic segs \<and> concat (map (keys_of G) segs) = []"
  using assms by (induction segs) (auto simp: routeIsStatic_def label_of_def keys_of_def)

lemma static_route_accepts:
  assumes "static_route p" "ch CHR ''?'' \<notin> set p"
  shows "accepts G (map LStatic (splitRouteSegments p)) (cleanLookupPath p) = Some []"
proof -
  obtain q where p: "p = ch CHR ''/'' # q" using assms(1) by (cases p) (auto simp: static_route_def)
  show ?thesis
  proof (cases "q = []")
    case True
    then show ?thesis by (simp add: p splitRouteSegments_def cleanLookupPath_def)
  next
    case False
    let ?segs = "split_on (ch CHR ''/'') q"
    have sp: "splitRouteSegments p = ?segs" unfolding p by (rule splitRouteSegments_slash [OF False])
    have segs: "\<forall>s \<in> set ?segs. s \<noteq> [] \<and> list_all segByte s"
    proof
      fix s assume s: "s \<in> set ?segs"
      then have "s \<noteq> []" using assms(1) unfolding static_route_def sp routeIsStatic_def list_all_iff by blast
      moreover have "list_all segByte s" using split_on_notin [OF s] assms(2) p by (intro segByte_all) auto
      ultimately show "s \<noteq> [] \<and> list_all segByte s" ..
    qed
    have "hd ?segs \<in> set ?segs" by simp
    with segs have h: "hd ?segs \<noteq> []" "list_all segByte (hd ?segs)" by blast+
    from h have h2: "segByte (hd (hd ?segs))" by (metis hd_in_set list_all_iff)
    have "hd q = hd (hd ?segs)"
      using joinSegs_hd [OF split_on_nonempty h(1)] unfolding joinSegs_split by blast
    then have "cleanLookupPath p = q" using h2 False unfolding p by (intro cleanLookupPath_slash) (auto simp: segByte_def)
    then show ?thesis using accepts_static [OF split_on_nonempty segs] unfolding sp joinSegs_split by simp
  qed
qed

lemma routeMatches_iff:
  "routeMatches G pat path ps \<longleftrightarrow>
     (\<exists>ls ks vs. (ls, ks) \<in> set (variants G (splitRouteSegments pat))
        \<and> accepts G ls (cleanLookupPath path) = Some vs \<and> ps = bindParams ks vs)"
proof
  assume "routeMatches G pat path ps"
  then show "\<exists>ls ks vs. (ls, ks) \<in> set (variants G (splitRouteSegments pat))
      \<and> accepts G ls (cleanLookupPath path) = Some vs \<and> ps = bindParams ks vs"
    by (auto simp: routeMatches_def list_ex_iff split: option.splits)
qed (force simp: routeMatches_def list_ex_iff)

lemma static_route_matches:
  assumes "static_route p" "ch CHR ''?'' \<notin> set p"
  shows "routeMatches G p p []"
proof -
  have s: "map (label_of G) (splitRouteSegments p) = map LStatic (splitRouteSegments p)"
    "concat (map (keys_of G) (splitRouteSegments p)) = []"
    using static_labels assms(1) unfolding static_route_def by blast+
  then have "(map LStatic (splitRouteSegments p), []) \<in> set (variants G (splitRouteSegments p))"
    by (simp add: variants_def)
  then show ?thesis using static_route_accepts [OF assms, of G] unfolding routeMatches_iff bindParams_def by fastforce
qed

lemma param_shortcut_matches:
  assumes b: "buildParamShortcut G (splitRouteSegments pat) h = Some x"
    and path: "path = psPrefix x @ v" and v: "v \<noteq> []" "ch CHR ''/'' \<notin> set v" "ch CHR ''?'' \<notin> set path"
  shows "routeMatches G pat path [\<lparr>Key = psKey x, Value = v\<rparr>]"
proof -
  obtain s p where sp: "splitRouteSegments pat = [s, p]"
    using b by (auto simp: buildParamShortcut_def split: list.splits)
  obtain name c opt where pc: "parseParamConstraint G (tl p) = (name, c, opt)" by (cases "parseParamConstraint G (tl p)") auto
  have s: "s \<noteq> []" "hd s \<noteq> ch CHR '':''" "hd s \<noteq> ch CHR ''*''" and p: "p \<noteq> []" "hd p = ch CHR '':''"
    and c: "kind c = constraintNone" "\<not> opt" and x: "psPrefix x = ch CHR ''/'' # s @ [ch CHR ''/'']" "psKey x = name"
    using b by (auto simp: buildParamShortcut_def sp pc split: if_splits)
  have "splitRouteSegments pat = split_on (ch CHR ''/'') (if hd pat = ch CHR ''/'' then tl pat else pat)"
    using sp by (auto simp: splitRouteSegments_def split: if_splits)
  then have "ch CHR ''/'' \<notin> set s" using split_on_notin [of s] sp by (metis list.set_intros(1))
  then have seg: "list_all segByte s" "list_all segByte v"
    using v path x by (auto intro!: segByte_all)
  have hs: "hd s \<noteq> ch CHR ''/''" "hd s \<noteq> ch CHR ''?''" using seg(1) s(1) by (cases s; simp add: segByte_def)+
  have "cleanLookupPath path = s @ ch CHR ''/'' # v"
    using cleanLookupPath_slash [of "s @ ch CHR ''/'' # v"] s(1) hs by (simp add: path x)
  moreover have "dropWhile (\<lambda>c. c = ch CHR ''/'') v = v" using v by (cases v) auto
  then have "nextSegment (s @ ch CHR ''/'' # v) = (s, v)" using nextSegment_slash [OF seg(1)] by simp
  ultimately have acc: "accepts G [LStatic s, LParam] (cleanLookupPath path) = Some [v]"
    using s(1) v(1) by (simp add: nextSegment_last [OF seg(2)])
  have "([LStatic s, LParam], [name]) \<in> set (variants G (splitRouteSegments pat))"
    using s p c by (simp add: variants_def sp label_of_def keys_of_def pc)
  then show ?thesis using acc x(2) unfolding routeMatches_iff bindParams_def by fastforce
qed

section \<open>Lookups\<close>

definition found :: "golib \<Rightarrow> 'h routeEntry list \<Rightarrow> bytes \<Rightarrow> bytes \<Rightarrow> 'h option \<times> Param list option \<Rightarrow> bool" where
  "found G rs m path x \<longleftrightarrow> (\<exists>h ps pat. x = (Some h, Some ps) \<and> (m, pat, h) \<in> set rs \<and> routeMatches G pat path ps)"

definition missed :: "golib \<Rightarrow> 'h routeEntry list \<Rightarrow> bytes \<Rightarrow> bytes \<Rightarrow> 'h option \<times> Param list option \<Rightarrow> bool" where
  "missed G rs m path x \<longleftrightarrow> x = (None, Some []) \<and> (\<forall>pat h ps. (m, pat, h) \<in> set rs \<longrightarrow> \<not> routeMatches G pat path ps)"

lemma orFind_simps [simp]: "orFind (Some h, ps) k = (Some h, ps)" "orFind (None, ps) k = k ps"
  by (simp_all add: orFind_def)

lemma found_orFind: "found G rs m path x \<Longrightarrow> orFind x k = x"
  by (auto simp: found_def)

lemma matchRoot_dispatch:
  assumes "trees_ok G r rs"
  shows "found G rs m path (matchRoot G r (map_of (trees r) m) path (Some ps0))
    \<or> missed G rs m path (matchRoot G r (map_of (trees r) m) path (Some ps0))"
proof (cases "map_of (trees r) m")
  case None
  then have "\<forall>pat h. (m, pat, h) \<notin> set rs" using assms unfolding trees_ok_def by blast
  then show ?thesis using None by (simp add: matchRoot_def missed_def resetParams_def)
next
  case (Some n)
  then have ok: "tree_ok G rs m n" using assms unfolding trees_ok_def by blast
  note wf = tree_ok_wf [OF ok] tree_ok_keyed [OF ok]
  obtain x ps where x: "match G n (cleanLookupPath path) [] (UnsafeParams r) = (x, ps)" by fastforce
  then have mr: "matchRoot G r (map_of (trees r) m) path (Some ps0) = (x, Some ps)"
    using Some by (simp add: matchRoot_def)
  show ?thesis
  proof (cases x)
    case None
    then have "ps = []" and no: "\<forall>ls e. endpointAt n ls = Some e \<longrightarrow> accepts G ls (cleanLookupPath path) = None"
      using match_fails [OF wf] x by blast+
    moreover have "\<not> routeMatches G pat path qs" if "(m, pat, h) \<in> set rs" for pat h qs
    proof
      assume "routeMatches G pat path qs"
      then obtain ls ks where "(ls, ks) \<in> set (variants G (splitRouteSegments pat))" "accepts G ls (cleanLookupPath path) \<noteq> None"
        unfolding routeMatches_iff by blast
      then show False using no ok that unfolding tree_ok_def by (metis option.exhaust)
    qed
    ultimately show ?thesis using mr None unfolding missed_def by blast
  next
    case h: (Some h)
    obtain ls e vs where e: "endpointAt n ls = Some e" "accepts G ls (cleanLookupPath path) = Some vs" "fn e = h"
      "ps = bindParams (paramKeys e) vs"
      using match_sound [OF wf] x h unfolding bindParams_def by blast
    then obtain pat ks where "(m, pat, h) \<in> set rs" "(ls, ks) \<in> set (variants G (splitRouteSegments pat))" "paramKeys e = ks"
      using ok unfolding tree_ok_def by (metis routeEndpoint.select_convs(1,2))
    then show ?thesis using e mr h unfolding found_def routeMatches_iff by blast
  qed
qed

lemma lookupStatic_dispatch:
  assumes "tables_ok G r rs" "ch CHR ''?'' \<notin> set path"
  shows "found G rs m path (lookupStatic (map_of (statics r) m) path (Some ps0))
    \<or> lookupStatic (map_of (statics r) m) path (Some ps0) = (None, Some ps0)"
proof (cases "lookupStatic (map_of (statics r) m) path (Some ps0)")
  case (Pair x q)
  show ?thesis
  proof (cases x)
    case None
    then show ?thesis using Pair by (auto simp: lookupStatic_def split: option.splits)
  next
    case (Some h)
    then obtain t where "map_of (statics r) m = Some t" "map_of t path = Some h" "q = Some []"
      using Pair by (auto simp: lookupStatic_def resetParams_def split: option.splits)
    then show ?thesis
      using assms static_route_matches [of path G] Pair Some unfolding tables_ok_def found_def by blast
  qed
qed

lemma byteStringEqual_iff [simp]: "byteStringEqual b s \<longleftrightarrow> b = s"
  by (auto simp: byteStringEqual_def list.rel_eq)

lemma staticShortcuts_dispatch:
  assumes "\<forall>x \<in> set xs. (m, ssPath x, ssFn x) \<in> set rs \<and> static_route (ssPath x)" "ch CHR ''?'' \<notin> set path"
  shows "found G rs m path (matchStaticShortcuts xs path (Some ps0)) \<or> matchStaticShortcuts xs path (Some ps0) = (None, Some ps0)"
  using assms
proof (induction xs)
  case (Cons x xs)
  show ?case
  proof (cases "path = ssPath x")
    case True
    then have "routeMatches G path path []" using Cons.prems static_route_matches by auto
    then show ?thesis using True Cons.prems by (auto simp: found_def resetParams_def)
  qed (use Cons in simp)
qed simp

lemma hasPrefixString_iff: "hasPrefixString b p \<longleftrightarrow> (\<exists>t. b = p @ t)"
proof -
  have "hasPrefixString b p \<longleftrightarrow> take (length p) b = p"
    by (auto simp: hasPrefixString_def list.rel_eq)
  also have "\<dots> \<longleftrightarrow> (\<exists>t. b = p @ t)" by (metis append_take_drop_id take_append_exact)
  finally show ?thesis .
qed

lemma paramShortcuts_dispatch:
  assumes "\<forall>x \<in> set xs. \<exists>pat. (m, pat, psFn x) \<in> set rs \<and> buildParamShortcut G (splitRouteSegments pat) (psFn x) = Some x"
    and q: "ch CHR ''?'' \<notin> set path"
  shows "found G rs m path (matchParamShortcuts xs path (Some ps0) u) \<or> matchParamShortcuts xs path (Some ps0) u = (None, Some ps0)"
  using assms(1)
proof (induction xs)
  case (Cons x xs)
  let ?v = "drop (length (psPrefix x)) path"
  show ?case
  proof (cases "hasPrefixString path (psPrefix x) \<and> length path \<noteq> length (psPrefix x) \<and> ch CHR ''/'' \<notin> set ?v")
    case True
    then have path: "path = psPrefix x @ ?v" and ne: "?v \<noteq> []" by (auto simp: hasPrefixString_iff)
    obtain pat where pat: "(m, pat, psFn x) \<in> set rs" "buildParamShortcut G (splitRouteSegments pat) (psFn x) = Some x"
      using Cons.prems by auto
    have "routeMatches G pat path [\<lparr>Key = psKey x, Value = ?v\<rparr>]"
      using param_shortcut_matches [OF pat(2) path ne] True q by blast
    moreover have "ch CHR ''?'' \<notin> set ?v" using q in_set_dropD by metis
    then have "matchParamShortcuts (x # xs) path (Some ps0) u = (Some (psFn x), Some [\<lparr>Key = psKey x, Value = ?v\<rparr>])"
      using True by (simp add: indexByte_None_iff [THEN iffD2] Let_def)
    ultimately show ?thesis using pat(1) unfolding found_def by blast
  next
    case False
    have "ch CHR ''?'' \<notin> set ?v" using q in_set_dropD by metis
    then have "indexByte ?v (ch CHR ''?'') = None" by (simp add: indexByte_None_iff)
    then have "matchParamShortcuts (x # xs) path (Some ps0) u = matchParamShortcuts xs path (Some ps0) u"
      using False by (auto simp: Let_def indexByte_None_iff)
    then show ?thesis using Cons by simp
  qed
qed simp

lemma findCore_dispatch:
  assumes ok: "trees_ok G r rs" "tables_ok G r rs" and q: "ch CHR ''?'' \<notin> set path"
  shows "found G rs (canonName c) path (findCore G r c path (Some ps0)) \<or> missed G rs (canonName c) path (findCore G r c path (Some ps0))"
proof -
  let ?m = "canonName c"
  define a where "a = (if length (shortcutOf r c) \<le> maxLinearRouteShortcuts then matchStaticShortcuts (shortcutOf r c) path (Some ps0) else (None, Some ps0))"
  define p where "p = (if length (paramOf r c) \<le> maxLinearRouteShortcuts
       then matchParamShortcuts (paramOf r c) path (Some ps0) (UnsafeParams r) else (None, Some ps0))"
  have a: "found G rs ?m path a \<or> a = (None, Some ps0)"
    using staticShortcuts_dispatch [of "shortcutOf r c" ?m rs path G ps0] ok(2) q unfolding a_def tables_ok_def by auto
  have b: "found G rs ?m path (lookupStatic (staticOf r c) path (Some ps0)) \<or> lookupStatic (staticOf r c) path (Some ps0) = (None, Some ps0)"
    using lookupStatic_dispatch [OF ok(2) q, of ?m ps0] ok(2) unfolding tables_ok_def by auto
  have p: "found G rs ?m path p \<or> p = (None, Some ps0)"
    using paramShortcuts_dispatch [of "paramOf r c" ?m rs G path ps0 "UnsafeParams r"] ok(2) q unfolding p_def tables_ok_def by auto
  have d: "found G rs ?m path (matchRoot G r (treeOf r c) path (Some ps0)) \<or> missed G rs ?m path (matchRoot G r (treeOf r c) path (Some ps0))"
    using matchRoot_dispatch [OF ok(1), of ?m path ps0] ok(1) unfolding trees_ok_def by auto
  have f: "findCore G r c path (Some ps0) = orFind a (\<lambda>ps. orFind (lookupStatic (staticOf r c) path ps)
     (\<lambda>ps. orFind (if length (paramOf r c) \<le> maxLinearRouteShortcuts
                 then matchParamShortcuts (paramOf r c) path ps (UnsafeParams r) else (None, ps))
     (\<lambda>ps. matchRoot G r (treeOf r c) path ps)))"
    unfolding findCore_def findNoLockBytesCore_def a_def ..
  show ?thesis
    using a b p d found_orFind unfolding f p_def
    by (elim disjE) (simp_all add: found_orFind)
qed

lemma findNoLockCanonical_dispatch:
  assumes ok: "trees_ok G r rs" "tables_ok G r rs" and q: "ch CHR ''?'' \<notin> set path"
    and x_def: "x = findNoLockCanonical G r m path (Some ps0)"
  shows "found G rs m path x \<or> m = canonName HEAD \<and> found G rs (canonName GET) path x
    \<or> missed G rs m path x \<and> (m = canonName HEAD \<longrightarrow> missed G rs (canonName GET) path x)"
proof -
  have n: "s2b ''HEAD'' = canonName HEAD" "s2b ''GET'' = canonName GET" by (simp_all add: canonName_def)
  have st: "found G rs k path (lookupStatic (map_of (statics r) k) path (Some ps))
      \<or> lookupStatic (map_of (statics r) k) path (Some ps) = (None, Some ps)" for k ps
    by (rule lookupStatic_dispatch [OF ok(2) q])
  have tr: "found G rs k path (matchRoot G r (map_of (trees r) k) path (Some ps))
      \<or> missed G rs k path (matchRoot G r (map_of (trees r) k) path (Some ps))" for k ps
    by (rule matchRoot_dispatch [OF ok(1)])
  show ?thesis
  proof (cases "m = canonName HEAD")
    case False
    then have x: "x = orFind (lookupStatic (map_of (statics r) m) path (Some ps0))
        (\<lambda>ps. matchRoot G r (map_of (trees r) m) path ps)"
      unfolding x_def findNoLockCanonical_def n by (auto simp: orFind_def split: prod.split option.split)
    show ?thesis using st [of m ps0] tr [of m ps0] False unfolding x by (auto simp: found_orFind)
  next
    case True
    have x: "x = orFind (lookupStatic (map_of (statics r) m) path (Some ps0))
        (\<lambda>ps. orFind (lookupStatic (map_of (statics r) (canonName GET)) path ps)
        (\<lambda>ps. orFind (matchRoot G r (map_of (trees r) m) path ps)
        (\<lambda>ps. matchRoot G r (map_of (trees r) (canonName GET)) path ps)))"
      using True unfolding x_def findNoLockCanonical_def n by simp
    have mr: "matchRoot G r (map_of (trees r) m) path (Some ps0) = (None, Some [])"
      if "missed G rs m path (matchRoot G r (map_of (trees r) m) path (Some ps0))" using that by (simp add: missed_def)
    show ?thesis
      using st [of m ps0] st [of "canonName GET" ps0] tr [of m ps0] tr [of "canonName GET" "[]"] True unfolding x
      by (elim disjE) (auto simp: found_orFind mr, auto simp: missed_def)
  qed
qed

text \<open>
  C3: Dispatch. On a path without a query, the lookup used for requests returns a registered route
  of the request's method (or, for HEAD, of GET) whose pattern matches, with the parameters that the
  pattern captures; and it returns nothing, with no parameters, only if no such route matches.
\<close>

theorem FindBytes_dispatch:
  assumes "registered G r rs" and "ch CHR ''?'' \<notin> set path"
  shows "case FindBytes G r method path (Some ps0) of
      (Some h, q) \<Rightarrow> \<exists>m pat ps. answers method m \<and> (m, pat, h) \<in> set rs \<and> routeMatches G pat path ps \<and> q = Some ps
    | (None, q) \<Rightarrow> q = Some [] \<and> (\<forall>m pat h ps. answers method m \<longrightarrow> (m, pat, h) \<in> set rs \<longrightarrow> \<not> routeMatches G pat path ps)"
proof -
  let ?x = "FindBytes G r method path (Some ps0)"
  have ok: "trees_ok G r rs" "tables_ok G r rs" using registered_ok [OF assms(1)] by blast+
  have core: "found G rs (canonName c) path (findCore G r c path (Some ps))
      \<or> missed G rs (canonName c) path (findCore G r c path (Some ps))" for c ps
    by (rule findCore_dispatch [OF ok assms(2)])
  consider (own) "found G rs method path ?x" | (get) "method = canonName HEAD" "found G rs (canonName GET) path ?x"
    | (none) "missed G rs method path ?x" "method = canonName HEAD \<longrightarrow> missed G rs (canonName GET) path ?x"
  proof (cases "methodSwitch method")
    case None
    then have "?x = findNoLockCanonical G r method path (Some ps0)" by (simp add: FindBytes_def findBytesCanonical_def)
    from findNoLockCanonical_dispatch [OF ok assms(2) this] that show ?thesis by blast
  next
    case (Some c)
    then have m: "method = canonName c" by (simp add: methodSwitch_Some)
    show ?thesis
    proof (cases "c = HEAD")
      case True
      then have x: "?x = orFind (findCore G r HEAD path (Some ps0)) (\<lambda>ps. findCore G r GET path ps)"
        using Some by (simp add: FindBytes_def findBytesCanonical_def)
      show ?thesis
      proof (cases "found G rs (canonName HEAD) path (findCore G r HEAD path (Some ps0))")
        case f: True
        then have "?x = findCore G r HEAD path (Some ps0)" unfolding x by (rule found_orFind)
        then show ?thesis using f that(1) m True by simp
      next
        case False
        then have h: "missed G rs (canonName HEAD) path (findCore G r HEAD path (Some ps0))" using core by blast
        then have "findCore G r HEAD path (Some ps0) = (None, Some [])" by (simp add: missed_def)
        then have g: "?x = findCore G r GET path (Some [])" unfolding x by simp
        show ?thesis using core [of GET "[]"] unfolding g [symmetric]
        proof
          assume "missed G rs (canonName GET) path ?x"
          moreover from this h have "missed G rs method path ?x" using m True by (simp add: missed_def)
          ultimately show ?thesis using that(3) by blast
        qed (use that(2) m True in blast)
      qed
    next
      case False
      then have "?x = findCore G r c path (Some ps0)"
        using Some by (cases c) (simp_all add: FindBytes_def findBytesCanonical_def)
      then have "found G rs method path ?x \<or> missed G rs method path ?x" using core [of c ps0] m by simp
      moreover have "method \<noteq> canonName HEAD" using m False by simp
      ultimately show ?thesis using that by blast
    qed
  qed
  then show ?thesis
    by cases (auto simp: found_def missed_def answers_def, blast+)
qed

section \<open>Precedence\<close>

lemma static_precedes:
  "accepts G (map LStatic segs) path \<noteq> None \<Longrightarrow> accepts G ls path \<noteq> None \<Longrightarrow> precedes (map LStatic segs) ls"
proof (induction segs arbitrary: path ls)
  case (Cons s segs)
  then have p: "path \<noteq> []" "fst (nextSegment path) = s" "accepts G (map LStatic segs) (snd (nextSegment path)) \<noteq> None"
    by (auto simp: Let_def split: if_splits)
  show ?case
  proof (cases ls)
    case Nil
    then show ?thesis using Cons.prems p by simp
  next
    case (Cons l ls')
    show ?thesis
    proof (cases "l = LStatic s")
      case True
      then have "accepts G ls' (snd (nextSegment path)) \<noteq> None"
        using Cons.prems(2) Cons p by (auto simp: Let_def split: if_splits)
      then show ?thesis using Cons.IH [OF p(3)] Cons True by simp
    qed (simp add: Cons)
  qed
qed simp

text \<open>
  C6: Precedence. For a method other than HEAD and a path without a query, \<open>Find\<close> returns a matching
  route whose label path takes precedence over that of every other matching route of the method: at
  the first segment where two patterns differ, static beats constrained beats plain parameter beats
  wildcard. An exact static route is therefore never shadowed.
\<close>

theorem Find_most_specific:
  assumes "registered G r rs" and "ch CHR ''?'' \<notin> set path"
    and "ToUpper G method \<noteq> canonName HEAD"
    and "Find G r method path (Some ps0) = (Some h, q)"
  shows "\<exists>pat ls ks vs. (ToUpper G method, pat, h) \<in> set rs
    \<and> (ls, ks) \<in> set (variants G (splitRouteSegments pat))
    \<and> accepts G ls (cleanLookupPath path) = Some vs \<and> q = Some (bindParams ks vs)
    \<and> (\<forall>pat' h' ls' ks'. (ToUpper G method, pat', h') \<in> set rs \<longrightarrow>
         (ls', ks') \<in> set (variants G (splitRouteSegments pat')) \<longrightarrow>
         accepts G ls' (cleanLookupPath path) \<noteq> None \<longrightarrow> precedes ls ls')"
proof -
  let ?m = "ToUpper G method"
  have ok: "trees_ok G r rs" "tables_ok G r rs" using registered_ok [OF assms(1)] by blast+
  have n: "s2b ''HEAD'' = canonName HEAD" by (simp add: canonName_def)
  have f: "orFind (lookupStatic (map_of (statics r) ?m) path (Some ps0))
      (\<lambda>ps. matchRoot G r (map_of (trees r) ?m) path ps) = (Some h, q)"
    using assms(3,4) unfolding Find_def findNoLock_def findNoLockCanonical_def n
    by (auto simp: orFind_def split: prod.splits option.splits)
  consider (static) t where "map_of (statics r) ?m = Some t" "map_of t path = Some h" "q = Some []"
    | (trie) n where "map_of (trees r) ?m = Some n" "\<exists>ps. match G n (cleanLookupPath path) [] (UnsafeParams r) = (Some h, ps) \<and> q = Some ps"
    using f by (auto simp: lookupStatic_def matchRoot_def resetParams_def split: option.splits prod.splits)
  then show ?thesis
  proof cases
    case static
    then have r: "(?m, path, h) \<in> set rs" "static_route path" using ok(2) unfolding tables_ok_def by blast+
    let ?segs = "splitRouteSegments path"
    have l: "map (label_of G) ?segs = map LStatic ?segs" "concat (map (keys_of G) ?segs) = []"
      using r(2) static_labels unfolding static_route_def by blast+
    then have "(map LStatic ?segs, []) \<in> set (variants G ?segs)" by (simp add: variants_def)
    moreover have a: "accepts G (map LStatic ?segs) (cleanLookupPath path) = Some []"
      by (rule static_route_accepts [OF r(2) assms(2)])
    moreover have "q = Some (bindParams [] [])" by (simp add: static bindParams_def)
    moreover have "precedes (map LStatic ?segs) ls'" if "accepts G ls' (cleanLookupPath path) \<noteq> None" for ls'
      using static_precedes [OF _ that] a by simp
    ultimately show ?thesis using r(1) by blast
  next
    case trie
    then obtain ps where x: "match G n (cleanLookupPath path) [] (UnsafeParams r) = (Some h, ps)" and q: "q = Some ps" by blast
    have t: "tree_ok G rs ?m n" using ok(1) trie(1) unfolding trees_ok_def by blast
    obtain ls e vs where e: "endpointAt n ls = Some e" "accepts G ls (cleanLookupPath path) = Some vs" "fn e = h"
      "ps = bindParams (paramKeys e) vs"
      and best: "\<forall>ls' e'. endpointAt n ls' = Some e' \<longrightarrow> accepts G ls' (cleanLookupPath path) \<noteq> None \<longrightarrow> precedes ls ls'"
      using match_sound [OF tree_ok_wf [OF t] tree_ok_keyed [OF t] x] unfolding bindParams_def by blast
    obtain pat ks where pat: "(?m, pat, h) \<in> set rs" "(ls, ks) \<in> set (variants G (splitRouteSegments pat))" "paramKeys e = ks"
      using e(1,3) t unfolding tree_ok_def by (metis routeEndpoint.select_convs(1,2))
    have "precedes ls ls'" if r': "(?m, pat', h') \<in> set rs" "(ls', ks') \<in> set (variants G (splitRouteSegments pat'))"
      "accepts G ls' (cleanLookupPath path) \<noteq> None" for pat' h' ls' ks'
    proof -
      obtain e' where "endpointAt n ls' = Some e'" using t r'(1,2) unfolding tree_ok_def by blast
      then show ?thesis using best r'(3) by blast
    qed
    then show ?thesis using pat e q by blast
  qed
qed

section \<open>A concrete router\<close>

text \<open>
  The library parameter with no non-ASCII case mapping and no regular expressions, and a router with
  a static, a plain and a constrained route under the same prefix.
\<close>

definition plainLib :: golib where
  "plainLib = \<lparr>uniUpper = (\<lambda>s. s), uniLower = (\<lambda>s. s), rxMatch = (\<lambda>p. None)\<rparr>"

definition demo1 :: "nat Router" where
  "demo1 = fst (Add plainLib NewRouter (s2b ''GET'') (s2b ''/a/b'') (Some 1))"

definition demo2 :: "nat Router" where
  "demo2 = fst (Add plainLib demo1 (s2b ''get'') (s2b ''/a/:id'') (Some 2))"

definition demo3 :: "nat Router" where
  "demo3 = fst (Add plainLib demo2 (s2b ''GET'') (s2b ''/a/:n<int>'') (Some 3))"

definition demoRoutes :: "nat routeEntry list" where
  "demoRoutes = [(s2b ''GET'', s2b ''/a/b'', 1), (s2b ''GET'', s2b ''/a/:id'', 2), (s2b ''GET'', s2b ''/a/:n<int>'', 3)]"

lemma registered_demo: "registered plainLib demo3 demoRoutes"
proof -
  have up: "ToUpper plainLib (TrimSpace (s2b ''GET'')) = s2b ''GET''" "ToUpper plainLib (TrimSpace (s2b ''get'')) = s2b ''GET''"
    by code_simp+
  have p: "normalizeRoutePath (s2b ''GET'') (s2b ''/a/b'') = Inr (s2b ''/a/b'')"
    "normalizeRoutePath (s2b ''GET'') (s2b ''/a/:id'') = Inr (s2b ''/a/:id'')"
    "normalizeRoutePath (s2b ''GET'') (s2b ''/a/:n<int>'') = Inr (s2b ''/a/:n<int>'')"
    by code_simp+
  have a: "snd (Add plainLib NewRouter (s2b ''GET'') (s2b ''/a/b'') (Some (1 :: nat))) = None"
    "snd (Add plainLib demo1 (s2b ''get'') (s2b ''/a/:id'') (Some 2)) = None"
    "snd (Add plainLib demo2 (s2b ''GET'') (s2b ''/a/:n<int>'') (Some 3)) = None"
    by code_simp+
  have "registered plainLib demo1 [(s2b ''GET'', s2b ''/a/b'', 1)]"
    using registered.add [OF registered.new, of plainLib "s2b ''GET''" "s2b ''/a/b''" 1 demo1 "s2b ''/a/b''"] a(1) p(1)
    unfolding up demo1_def by (simp add: prod_eq_iff del: s2b_Cons)
  from registered.add [OF this, of "s2b ''get''" "s2b ''/a/:id''" 2 demo2 "s2b ''/a/:id''"] a(2) p(2)
  have "registered plainLib demo2 [(s2b ''GET'', s2b ''/a/b'', 1), (s2b ''GET'', s2b ''/a/:id'', 2)]"
    unfolding up demo2_def by (simp add: prod_eq_iff del: s2b_Cons)
  from registered.add [OF this, of "s2b ''GET''" "s2b ''/a/:n<int>''" 3 demo3 "s2b ''/a/:n<int>''"] a(3) p(3)
  show ?thesis
    unfolding up demo3_def demoRoutes_def by (simp add: prod_eq_iff del: s2b_Cons)
qed

lemma demo_query: "ch CHR ''?'' \<notin> set (s2b ''/a/42'')" "ch CHR ''?'' \<notin> set (s2b ''/a/b'')"
  by code_simp+

lemma demo_Find:
  "Find plainLib demo3 (s2b ''GET'') (s2b ''/a/42'') (Some []) = (Some 3, Some [\<lparr>Key = s2b ''n'', Value = s2b ''42''\<rparr>])"
  by code_simp

theorem FindBytes_dispatch_witness:
  "FindBytes plainLib demo3 (s2b ''GET'') (s2b ''/a/b'') (Some []) = (Some 1, Some [])
   \<and> (\<exists>m pat. answers (s2b ''GET'') m \<and> (m, pat, 1) \<in> set demoRoutes \<and> routeMatches plainLib pat (s2b ''/a/b'') [])"
proof -
  have e: "FindBytes plainLib demo3 (s2b ''GET'') (s2b ''/a/b'') (Some []) = (Some 1, Some [])" by code_simp
  show ?thesis using FindBytes_dispatch [OF registered_demo demo_query(2), of "s2b ''GET''" "[]"] e
    by (simp del: s2b_Cons)
qed

theorem Find_most_specific_witness:
  "\<exists>pat ls ks vs. (s2b ''GET'', pat, 3) \<in> set demoRoutes
    \<and> (ls, ks) \<in> set (variants plainLib (splitRouteSegments pat))
    \<and> accepts plainLib ls (cleanLookupPath (s2b ''/a/42'')) = Some vs
    \<and> bindParams ks vs = [\<lparr>Key = s2b ''n'', Value = s2b ''42''\<rparr>]"
proof -
  have u: "ToUpper plainLib (s2b ''GET'') = s2b ''GET''" by code_simp
  have h: "s2b ''GET'' \<noteq> canonName HEAD" by code_simp
  show ?thesis
    using Find_most_specific [OF registered_demo demo_query(1) _ demo_Find] h unfolding u by (metis option.inject)
qed


end
