(* ===== verification/Router_Methods.thy ===== *)
theory Router_Methods
  imports Router_Dispatch
begin

text \<open>
  \<open>Methods\<close> and \<open>Allowed\<close>: freezing the router, which replaces the method list by a bit set merged
  with a list of custom methods, does not change \<open>Methods\<close>; and \<open>Allowed\<close> lists exactly the methods
  with a matching route, with HEAD implied by GET and OPTIONS by any.
\<close>

section \<open>Bit sets\<close>

lemma and_push_bit_0:
  assumes "i < LENGTH('a)"
  shows "(w :: 'a::len word) AND push_bit i 1 = 0 \<longleftrightarrow> \<not> bit w i"
proof
  assume "w AND push_bit i 1 = 0"
  then have "\<not> bit (w AND push_bit i 1) i" by simp
  with assms show "\<not> bit w i" by (simp add: bit_and_iff bit_exp_iff)
next
  assume "\<not> bit w i"
  then show "w AND push_bit i 1 = 0"
    by (intro bit_word_eqI) (auto simp: bit_and_iff bit_exp_iff)
qed

lemmas and_exp_0 = and_push_bit_0 [unfolded push_bit_of_1]

lemma bit_or_push: "n < LENGTH('a) \<Longrightarrow> bit ((w :: 'a::len word) OR push_bit i 1) n \<longleftrightarrow> bit w n \<or> n = i"
  by (auto simp: bit_or_iff bit_exp_iff)

lemma bit_or_u16: "n < 16 \<Longrightarrow> bit ((w :: u16) OR push_bit i 1) n \<longleftrightarrow> bit w n \<or> n = i"
  by (rule bit_or_push) simp

section \<open>Merging\<close>

fun merge2 :: "'a::linorder list \<Rightarrow> 'a list \<Rightarrow> 'a list" where
  "merge2 xs [] = xs"
| "merge2 [] ys = ys"
| "merge2 (x # xs) (y # ys) = (if x < y then x # merge2 xs (y # ys) else y # merge2 (x # xs) ys)"

lemma merge2_Nil [simp]: "merge2 [] ys = ys"
  by (cases ys) simp_all

lemma set_merge2 [simp]: "set (merge2 xs ys) = set xs \<union> set ys"
  by (induction xs ys rule: merge2.induct) auto

lemma sorted_merge2: "sorted xs \<Longrightarrow> sorted ys \<Longrightarrow> sorted (merge2 xs ys)"
  by (induction xs ys rule: merge2.induct) (auto simp: less_imp_le)

lemma distinct_merge2: "distinct xs \<Longrightarrow> distinct ys \<Longrightarrow> set xs \<inter> set ys = {} \<Longrightarrow> distinct (merge2 xs ys)"
  by (induction xs ys rule: merge2.induct) auto

text \<open>The canonical methods from an index on whose bit is set.\<close>

definition namesFrom :: "u16 \<Rightarrow> nat \<Rightarrow> bytes list" where
  "namesFrom bits i = map (\<lambda>i. sortedCanonicalMethods ! i) (filter (bit bits) [i..<length sortedCanonicalMethods])"

lemma len_names [simp]: "length sortedCanonicalMethods = 10"
  by (simp add: sortedCanonicalMethods_def)

lemma namesFrom_step: "i < 10 \<Longrightarrow> namesFrom bits i =
    (if bit bits i then sortedCanonicalMethods ! i # namesFrom bits (Suc i) else namesFrom bits (Suc i))"
  by (simp add: namesFrom_def upt_conv_Cons)

lemma namesFrom_end: "10 \<le> i \<Longrightarrow> namesFrom bits i = []"
  by (simp add: namesFrom_def)

lemma skipUnset_spec:
  "skipUnset bits i \<ge> i \<and> namesFrom bits (skipUnset bits i) = namesFrom bits i
   \<and> (skipUnset bits i < 10 \<longrightarrow> bit bits (skipUnset bits i))"
proof (induction bits i rule: skipUnset.induct)
  case (1 bits i)
  show ?case
  proof (cases "i < 10 \<and> \<not> bit bits i")
    case True
    then have z: "i < length sortedCanonicalMethods \<and> bits AND push_bit i 1 = 0" by (simp add: and_exp_0)
    then have "skipUnset bits i = skipUnset bits (Suc i)" by (subst skipUnset.simps) simp
    with z 1 True namesFrom_step [of i bits] show ?thesis by auto
  next
    case False
    then have "skipUnset bits i = i" by (subst skipUnset.simps) (auto simp: and_exp_0)
    with False show ?thesis by auto
  qed
qed

lemma mergeMethods_spec:
  "mergeMethods bits custom ci cu ms = ms @ merge2 (namesFrom bits ci) (drop cu custom)"
proof (induction bits custom ci cu ms rule: mergeMethods.induct)
  case (1 bits custom ci cu ms)
  let ?s = "skipUnset bits ci"
  note s = skipUnset_spec [of ci bits]
  show ?case
  proof (cases "ci < 10 \<or> cu < length custom")
    case False
    then show ?thesis by (subst mergeMethods.simps) (simp add: namesFrom_end)
  next
    case t: True
    show ?thesis
    proof (cases "?s \<ge> 10")
      case True
      then have "namesFrom bits ci = []" using s namesFrom_end by metis
      then show ?thesis using t True by (subst mergeMethods.simps) (simp add: Let_def)
    next
      case False
      then have n: "namesFrom bits ci = sortedCanonicalMethods ! ?s # namesFrom bits (Suc ?s)"
        using s namesFrom_step [of ?s bits] by auto
      show ?thesis
      proof (cases "cu \<ge> length custom \<or> sortedCanonicalMethods ! ?s < custom ! cu")
        case True
        have "mergeMethods bits custom ci cu ms = mergeMethods bits custom (Suc ?s) cu (ms @ [sortedCanonicalMethods ! ?s])"
          using t False True by (subst mergeMethods.simps) (auto simp: Let_def)
        also have "\<dots> = ms @ sortedCanonicalMethods ! ?s # merge2 (namesFrom bits (Suc ?s)) (drop cu custom)"
          using 1(1) [of ?s] t False True by simp
        also have "\<dots> = ms @ merge2 (namesFrom bits ci) (drop cu custom)"
          using True unfolding n by (cases "cu < length custom") (auto simp: Cons_nth_drop_Suc [symmetric])
        finally show ?thesis .
      next
        case c: False
        then have d: "drop cu custom = custom ! cu # drop (Suc cu) custom" by (simp add: Cons_nth_drop_Suc)
        have "mergeMethods bits custom ci cu ms = mergeMethods bits custom ?s (Suc cu) (ms @ [custom ! cu])"
          using t False c by (subst mergeMethods.simps) (auto simp: Let_def)
        also have "\<dots> = ms @ custom ! cu # merge2 (namesFrom bits ?s) (drop (Suc cu) custom)"
          using 1(2) [of ?s] t False c by simp
        also have "\<dots> = ms @ merge2 (namesFrom bits ci) (drop cu custom)"
          using c s unfolding n d by (simp add: n)
        finally show ?thesis .
      qed
    qed
  qed
qed

section \<open>Freezing keeps the method list\<close>

lemma names_sorted: "sorted sortedCanonicalMethods" "distinct sortedCanonicalMethods"
  by code_simp+

lemma sorted_select:
  assumes "sorted xs" "distinct xs"
  shows "sorted (map ((!) xs) (filter P [0..<length xs]))" "distinct (map ((!) xs) (filter P [0..<length xs]))"
proof -
  have "sorted_wrt (<) (filter P [0..<length xs])" by (intro sorted_wrt_filter) simp
  then have "sorted_wrt (\<lambda>i j. xs ! i \<le> xs ! j) (filter P [0..<length xs])"
    by (rule sorted_wrt_mono_rel [rotated]) (use assms(1) in \<open>auto intro: sorted_nth_mono\<close>)
  then show "sorted (map ((!) xs) (filter P [0..<length xs]))" by (simp add: sorted_wrt_map)
  show "distinct (map ((!) xs) (filter P [0..<length xs]))"
    using assms(2) by (auto simp: distinct_map inj_on_def nth_eq_iff_index_eq)
qed

lemma names_index: "i < 10 \<Longrightarrow> sortedCanonicalMethodIndex (sortedCanonicalMethods ! i) = Some i"
proof -
  have "map sortedCanonicalMethodIndex sortedCanonicalMethods = map Some [0..<10]" by code_simp
  then show "i < 10 \<Longrightarrow> ?thesis" by (metis add.left_neutral len_names length_upt nth_map nth_upt diff_zero)
qed

lemma index_names:
  assumes "sortedCanonicalMethodIndex m = Some i"
  shows "i < 10 \<and> sortedCanonicalMethods ! i = m"
  using assms
  by (auto simp: sortedCanonicalMethodIndex_def sortedCanonicalMethods_def canonName_def split: if_splits)

lemma cache_fold:
  "snd (fold cacheMethod ms (b, cs)) = cs @ filter (\<lambda>m. sortedCanonicalMethodIndex m = None) ms
   \<and> (\<forall>i < 16. bit (fst (fold cacheMethod ms (b, cs))) i \<longleftrightarrow> bit b i \<or> (\<exists>m \<in> set ms. sortedCanonicalMethodIndex m = Some i))"
proof (induction ms arbitrary: b cs)
  case (Cons m ms)
  show ?case
  proof (cases "sortedCanonicalMethodIndex m")
    case None
    then show ?thesis using Cons by (auto simp: cacheMethod_def)
  next
    case (Some k)
    have "bit (b OR push_bit k 1) i \<longleftrightarrow> bit b i \<or> i = k" if "i < 16" for i
      using bit_or_push [of i b k] that by simp
    then show ?thesis using Cons [of "b OR push_bit k 1" cs] Some by (auto simp: cacheMethod_def)
  qed
qed simp

lemma Freeze_bits:
  assumes "i < 16"
  shows "bit (frozenMethodBits (Freeze r)) i \<longleftrightarrow>
    (\<exists>m \<in> set (map fst (trees r)). sortedCanonicalMethodIndex m = Some i)
    \<or> i = 3 \<and> (\<exists>m \<in> set (map fst (trees r)). sortedCanonicalMethodIndex m = Some 2) \<or> i = 4"
proof -
  let ?c = "fold cacheMethod (map fst (trees r)) (0, [])"
  have c: "bit (fst ?c) k \<longleftrightarrow> (\<exists>m \<in> set (map fst (trees r)). sortedCanonicalMethodIndex m = Some k)" if "k < 16" for k
    using cache_fold [of "map fst (trees r)" 0 "[]"] that by simp
  have z: "fst ?c AND push_bit 2 1 \<noteq> 0 \<longleftrightarrow> bit (fst ?c) 2" by (subst and_push_bit_0) simp_all
  have "frozenMethodBits (Freeze r) =
      (if bit (fst ?c) 2 then fst ?c OR push_bit 3 1 else fst ?c) OR push_bit 4 1"
    unfolding z [symmetric] by (simp add: Freeze_def cacheMethodsNoLock_def case_prod_unfold Let_def)
  then have "bit (frozenMethodBits (Freeze r)) i \<longleftrightarrow> bit (fst ?c) i \<or> i = 3 \<and> bit (fst ?c) 2 \<or> i = 4"
    by (cases "bit (fst ?c) 2") (auto simp only: bit_or_u16 [OF assms] if_True if_False simp_thms)
  then show ?thesis using c [OF assms] c [of 2] by simp
qed

lemma Freeze_custom:
  "frozenCustomMethods (Freeze r) = sort (filter (\<lambda>m. sortedCanonicalMethodIndex m = None) (map fst (trees r)))"
  using cache_fold [of "map fst (trees r)" 0 "[]"]
  by (simp add: Freeze_def cacheMethodsNoLock_def case_prod_unfold Let_def)

lemma index_GET: "sortedCanonicalMethodIndex m = Some 2 \<longleftrightarrow> m = s2b ''GET''"
proof
  show "sortedCanonicalMethodIndex m = Some 2" if "m = s2b ''GET''" unfolding that by code_simp
qed (drule index_names, simp add: sortedCanonicalMethods_def canonName_def)

text \<open>
  C18: Freezing the router does not change its method list: the bit set and the list of custom
  methods, merged, are the sorted list computed from the route tables.
\<close>

theorem Methods_frozen:
  assumes "registered G r rs"
  shows "Methods (Freeze r) = buildMethodsNoLock r []"
proof -
  let ?K = "map fst (trees r)" and ?idx = sortedCanonicalMethodIndex
  let ?B = "frozenMethodBits (Freeze r)"
  have dk: "distinct ?K" using registered_ok [OF assms] unfolding trees_ok_def by blast
  have nf: "namesFrom ?B 0 = map ((!) sortedCanonicalMethods) (filter (bit ?B) [0..<length sortedCanonicalMethods])"
    by (simp add: namesFrom_def)
  have m: "Methods (Freeze r) = merge2 (namesFrom ?B 0) (sort (filter (\<lambda>m. ?idx m = None) ?K))"
    by (simp add: Methods_def frozenMethodsCopy_def mergeMethods_spec Freeze_custom)
  have nset: "set (namesFrom ?B 0) = {m \<in> set ?K. ?idx m \<noteq> None} \<union> (if s2b ''GET'' \<in> set ?K then {s2b ''HEAD''} else {}) \<union> {s2b ''OPTIONS''}"
    (is "_ = ?S")
  proof -
    have n34: "sortedCanonicalMethods ! 3 = s2b ''HEAD''" "sortedCanonicalMethods ! 4 = s2b ''OPTIONS''" by code_simp+
    have "x \<in> set (namesFrom ?B 0) \<longleftrightarrow> (\<exists>i < 10. bit ?B i \<and> x = sortedCanonicalMethods ! i)" for x
      unfolding namesFrom_def by auto
    also have "\<dots> x \<longleftrightarrow> x \<in> ?S" for x
    proof
      assume "\<exists>i < 10. bit ?B i \<and> x = sortedCanonicalMethods ! i"
      then obtain i where i: "i < 10" "bit ?B i" "x = sortedCanonicalMethods ! i" by blast
      then show "x \<in> ?S" using Freeze_bits [of i r] n34 index_names index_GET by fastforce
    next
      assume "x \<in> ?S"
      then consider i where "x \<in> set ?K" "?idx x = Some i" | "s2b ''GET'' \<in> set ?K" "x = s2b ''HEAD''" | "x = s2b ''OPTIONS''"
        by (auto simp del: s2b_Cons split: if_splits)
      then show "\<exists>i < 10. bit ?B i \<and> x = sortedCanonicalMethods ! i"
      proof cases
        case (1 i)
        then show ?thesis using index_names [of x i] Freeze_bits [of i r] by (intro exI [of _ i]) auto
      next
        case 2
        then show ?thesis using n34 Freeze_bits [of 3 r] index_GET by (intro exI [of _ 3]) (auto simp del: s2b_Cons)
      next
        case 3
        then show ?thesis using n34 Freeze_bits [of 4 r] by (intro exI [of _ 4]) (auto simp del: s2b_Cons)
      qed
    qed
    finally show ?thesis by blast
  qed
  have disj: "set (namesFrom ?B 0) \<inter> set (sort (filter (\<lambda>m. ?idx m = None) ?K)) = {}"
  proof -
    have "?idx (s2b ''HEAD'') \<noteq> None" "?idx (s2b ''OPTIONS'') \<noteq> None" by code_simp+
    then show ?thesis unfolding nset by (auto simp del: s2b_Cons split: if_splits)
  qed
  have sorted: "sorted (Methods (Freeze r))" "distinct (Methods (Freeze r))"
    unfolding m using sorted_select [OF names_sorted, of "bit ?B"] dk disj
    by (simp_all add: nf sorted_merge2 distinct_merge2 del: len_names)
  have set: "set (Methods (Freeze r)) = set ?K \<union> (if s2b ''GET'' \<in> set ?K then {s2b ''HEAD''} else {}) \<union> {s2b ''OPTIONS''}"
    unfolding m set_merge2 nset by (auto simp del: s2b_Cons)
  let ?L = "(if s2b ''GET'' \<in> set ?K \<and> s2b ''HEAD'' \<notin> set ?K then ?K @ [s2b ''HEAD''] else ?K)"
  let ?L2 = "if s2b ''OPTIONS'' \<notin> set ?K then ?L @ [s2b ''OPTIONS''] else ?L"
  have b: "buildMethodsNoLock r [] = sort ?L2" by (simp add: buildMethodsNoLock_def Let_def del: s2b_Cons)
  have "s2b ''HEAD'' \<noteq> s2b ''OPTIONS''" by code_simp
  then have "distinct ?L2" "set ?L2 = set (Methods (Freeze r))"
    using dk unfolding set by (auto simp del: s2b_Cons)
  then show ?thesis unfolding b using sorted by (intro sorted_distinct_set_unique) (simp_all del: s2b_Cons)
qed

theorem Methods_frozen_witness:
  "Methods (Freeze demo3) = [s2b ''GET'', s2b ''HEAD'', s2b ''OPTIONS'']"
proof -
  have "buildMethodsNoLock demo3 [] = [s2b ''GET'', s2b ''HEAD'', s2b ''OPTIONS'']" by code_simp
  then show ?thesis unfolding Methods_frozen [OF registered_demo] .
qed

section \<open>Allowed methods\<close>

definition routed :: "golib \<Rightarrow> 'h routeEntry list \<Rightarrow> bytes \<Rightarrow> bytes \<Rightarrow> bool" where
  "routed G rs path m \<longleftrightarrow> (\<exists>pat h ps. (m, pat, h) \<in> set rs \<and> routeMatches G pat path ps)"

definition treeMatches :: "golib \<Rightarrow> 'h Router \<Rightarrow> bytes \<Rightarrow> bytes \<Rightarrow> bool" where
  "treeMatches G r lookup m \<longleftrightarrow> (case map_of (trees r) m of None \<Rightarrow> False | Some n \<Rightarrow> matchesPath G n lookup)"

lemma treeMatches_routed:
  assumes "trees_ok G r rs"
  shows "treeMatches G r (cleanLookupPath path) m \<longleftrightarrow> routed G rs path m"
proof (cases "map_of (trees r) m")
  case None
  then have "\<forall>pat h. (m, pat, h) \<notin> set rs" using assms unfolding trees_ok_def by blast
  then show ?thesis using None by (simp add: treeMatches_def routed_def)
next
  case (Some n)
  then have t: "tree_ok G rs m n" using assms unfolding trees_ok_def by blast
  have "treeMatches G r (cleanLookupPath path) m \<longleftrightarrow>
      (\<exists>ls e. endpointAt n ls = Some e \<and> accepts G ls (cleanLookupPath path) \<noteq> None)"
    using Some matchesPath_iff [OF tree_ok_wf [OF t]] by (simp add: treeMatches_def)
  also have "\<dots> \<longleftrightarrow> routed G rs path m"
  proof
    assume "\<exists>ls e. endpointAt n ls = Some e \<and> accepts G ls (cleanLookupPath path) \<noteq> None"
    then obtain ls e vs where "endpointAt n ls = Some e" "accepts G ls (cleanLookupPath path) = Some vs" by blast
    moreover from this t obtain pat h ks where "(m, pat, h) \<in> set rs" "(ls, ks) \<in> set (variants G (splitRouteSegments pat))"
      unfolding tree_ok_def by blast
    ultimately show "routed G rs path m" unfolding routed_def routeMatches_iff by blast
  next
    assume "routed G rs path m"
    then obtain pat h ls ks vs where "(m, pat, h) \<in> set rs" "(ls, ks) \<in> set (variants G (splitRouteSegments pat))"
      "accepts G ls (cleanLookupPath path) = Some vs" unfolding routed_def routeMatches_iff by blast
    then show "\<exists>ls e. endpointAt n ls = Some e \<and> accepts G ls (cleanLookupPath path) \<noteq> None"
      using t unfolding tree_ok_def by blast
  qed
  finally show ?thesis .
qed

lemma allowed_fold:
  assumes "k + length ms \<le> 16" "\<forall>i < 16. k \<le> i \<longrightarrow> \<not> bit seen i"
  shows "snd (fold (allowedAdd G lookup r) (enumerate k ms) (seen, acc)) = acc @ filter (treeMatches G r lookup) ms
    \<and> (\<forall>i < 16. bit (fst (fold (allowedAdd G lookup r) (enumerate k ms) (seen, acc))) i \<longleftrightarrow>
         bit seen i \<or> k \<le> i \<and> i < k + length ms \<and> treeMatches G r lookup (ms ! (i - k)))"
  using assms
proof (induction ms arbitrary: k seen acc)
  case (Cons m ms)
  define s1 where "s1 = allowedAdd G lookup r (k, m) (seen, acc)"
  have unseen: "seen AND push_bit k 1 = 0"
    by (rule iffD2 [OF and_push_bit_0]) (use Cons.prems in simp_all)
  have s1: "s1 = (if treeMatches G r lookup m then (seen OR push_bit k 1, acc @ [m]) else (seen, acc))"
    using unseen by (auto simp: s1_def allowedAdd_def treeMatches_def simp del: push_bit_of_1 split: option.split)
  have b1: "bit (fst s1) i \<longleftrightarrow> bit seen i \<or> i = k \<and> treeMatches G r lookup m" if "i < 16" for i
    by (auto simp: s1 bit_or_u16 [OF that] simp del: push_bit_of_1)
  have "\<forall>i < 16. Suc k \<le> i \<longrightarrow> \<not> bit (fst s1) i" using Cons.prems b1 by auto
  note IH = Cons.IH [of "Suc k" "fst s1" "snd s1", OF _ this]
  have f: "fold (allowedAdd G lookup r) (enumerate k (m # ms)) (seen, acc) =
      fold (allowedAdd G lookup r) (enumerate (Suc k) ms) (fst s1, snd s1)"
    by (simp add: s1_def)
  have "bit seen i \<or> i = k \<and> treeMatches G r lookup m \<or> Suc k \<le> i \<and> i < Suc k + length ms \<and> treeMatches G r lookup (ms ! (i - Suc k)) \<longleftrightarrow>
      bit seen i \<or> k \<le> i \<and> i < k + length (m # ms) \<and> treeMatches G r lookup ((m # ms) ! (i - k))" for i
    by (cases "i = k") (auto simp: nth_Cons' Suc_diff_Suc)
  then show ?case unfolding f using IH Cons.prems b1 by (auto simp: s1 simp del: push_bit_of_1)
qed auto

lemma sort_Nil_iff: "sort xs = [] \<longleftrightarrow> xs = []"
  by (metis set_empty set_sort)

lemma extra_methods:
  assumes "trees_ok G r rs"
    and extra_def: "extra = sort (map fst (filter (\<lambda>(m, root). \<not> canonicalRouteMethod m \<and> matchesPath G root lookup) (trees r)))"
  shows "distinct extra" "set extra = {m. \<not> canonicalRouteMethod m \<and> treeMatches G r lookup m}"
proof -
  have d: "distinct (map fst (trees r))" using assms unfolding trees_ok_def by blast
  then show "distinct extra" unfolding extra_def by (simp add: distinct_map_filter)
  have "m \<in> set extra \<longleftrightarrow> (\<exists>n. map_of (trees r) m = Some n \<and> \<not> canonicalRouteMethod m \<and> matchesPath G n lookup)" for m
    using map_of_eq_Some_iff [OF d] unfolding extra_def by force
  then show "set extra = {m. \<not> canonicalRouteMethod m \<and> treeMatches G r lookup m}"
    unfolding treeMatches_def by (auto split: option.splits)
qed

text \<open>
  C17: \<open>Allowed\<close> lists, without repetition, exactly the methods that have a route matching the path
  (the query removed), HEAD if GET has one, and OPTIONS if any method has one.
\<close>

theorem Allowed_correct:
  assumes "registered G r rs"
  shows "distinct (Allowed G r path) \<and>
    (\<forall>m. m \<in> set (Allowed G r path) \<longleftrightarrow>
       routed G rs (routeLookupPath path) m
       \<or> m = canonName HEAD \<and> routed G rs (routeLookupPath path) (canonName GET)
       \<or> m = canonName OPTIONS \<and> (\<exists>m'. routed G rs (routeLookupPath path) m'))"
proof -
  let ?lookup = "cleanLookupPath (routeLookupPath path)"
  have ok: "trees_ok G r rs" using registered_ok [OF assms] by blast
  define P where "P = treeMatches G r ?lookup"
  have P: "P m \<longleftrightarrow> routed G rs (routeLookupPath path) m" for m unfolding P_def by (rule treeMatches_routed [OF ok])
  let ?f = "fold (allowedAdd G ?lookup r) (enumerate 0 allowedCanonical) (0, [])"
  have len: "length allowedCanonical = 10" by (simp add: allowedCanonical_def)
  have fld: "snd ?f = filter P allowedCanonical" "\<And>i. i < 10 \<Longrightarrow> bit (fst ?f) i \<longleftrightarrow> P (allowedCanonical ! i)"
    using allowed_fold [of 0 allowedCanonical 0 G ?lookup r "[]"] by (simp_all add: len P_def)
  have nth: "allowedCanonical ! 0 = canonName GET" "allowedCanonical ! 1 = canonName HEAD" "allowedCanonical ! 7 = canonName OPTIONS"
    by (simp_all add: allowedCanonical_def)
  have b: "fst ?f AND 1 \<noteq> 0 \<longleftrightarrow> P (canonName GET)" "fst ?f AND push_bit 1 1 = 0 \<longleftrightarrow> \<not> P (canonName HEAD)"
    using and_push_bit_0 [of 0 "fst ?f"] and_push_bit_0 [of 1 "fst ?f"] fld(2) [of 0] fld(2) [of 1] nth by simp_all
  define addHead where "addHead = (P (canonName GET) \<and> \<not> P (canonName HEAD))"
  define extra where "extra = sort (map fst (filter (\<lambda>(m, root). \<not> canonicalRouteMethod m \<and> matchesPath G root ?lookup) (trees r)))"
  define a2 where "a2 = (if addHead then filter P allowedCanonical @ [canonName HEAD] else filter P allowedCanonical) @ extra"
  have b7: "(if addHead then fst ?f OR push_bit 1 1 else fst ?f) AND push_bit 7 1 = 0 \<longleftrightarrow> \<not> P (canonName OPTIONS)"
    by (subst and_push_bit_0) (use fld(2) [of 7] nth(3) bit_or_u16 [of 7 "fst ?f" 1] in simp_all)
  have A: "Allowed G r path = (if a2 \<noteq> [] \<and> \<not> P (canonName OPTIONS) then a2 @ [canonName OPTIONS] else a2)"
    unfolding Allowed_def allowedNoLock_def Let_def case_prod_unfold b fld(1) addHead_def [symmetric] b7
    by (simp add: a2_def extra_def canonName_def case_prod_unfold sort_Nil_iff)
  have extra: "distinct extra" "set extra = {m. \<not> canonicalRouteMethod m \<and> P m}"
    unfolding P_def by (rule extra_methods [OF ok extra_def])+
  have dc: "distinct allowedCanonical" by code_simp
  have mem: "canonName c \<in> set allowedCanonical" for c by (cases c) (simp_all add: allowedCanonical_def)
  have set2: "m \<in> set a2 \<longleftrightarrow> P m \<or> m = canonName HEAD \<and> P (canonName GET)" for m
    using mem [of HEAD] unfolding a2_def by (auto simp: extra(2) addHead_def canonicalRouteMethod_def)
  have d2: "distinct a2"
    using dc extra mem [of HEAD] unfolding a2_def by (auto simp: addHead_def canonicalRouteMethod_def)
  have "a2 \<noteq> [] \<longleftrightarrow> (\<exists>m. P m)" using set2 by (metis list.set_intros(1) neq_Nil_conv empty_iff list.set(1))
  moreover have "canonName OPTIONS \<noteq> canonName HEAD" by simp
  ultimately show ?thesis
    unfolding A P [symmetric] using d2 set2 by auto
qed

theorem Allowed_correct_witness:
  "routed plainLib demoRoutes (s2b ''/a/b'') (s2b ''GET'') \<and> Allowed plainLib demo3 (s2b ''/a/b?x'') = [s2b ''GET'', s2b ''HEAD'', s2b ''OPTIONS'']"
proof -
  have a: "Allowed plainLib demo3 (s2b ''/a/b?x'') = [s2b ''GET'', s2b ''HEAD'', s2b ''OPTIONS'']" by code_simp
  have l: "routeLookupPath (s2b ''/a/b?x'') = s2b ''/a/b''" by code_simp
  have n: "s2b ''GET'' \<noteq> canonName HEAD" "s2b ''GET'' \<noteq> canonName OPTIONS" by code_simp+
  have "s2b ''GET'' \<in> set (Allowed plainLib demo3 (s2b ''/a/b?x''))" unfolding a by (simp del: s2b_Cons)
  then show ?thesis
    using Allowed_correct [OF registered_demo, of "s2b ''/a/b?x''"] a n unfolding l by blast
qed

end
