(* ===== verification/Utf8.thy ===== *)
theory Utf8
  imports Prelude
begin

text \<open>
  Go's \<open>unicode/utf8\<close> as far as the WebSocket code uses it: \<open>FullRune\<close>, \<open>DecodeRune\<close> (whether
  the sequence at the front is valid, and its width), \<open>DecodeLastRuneInString\<close> and \<open>Valid\<close>. A
  sequence that is a full rune decodes the same whatever follows it.
\<close>

section \<open>Decoding\<close>

text \<open>The table \<open>first\<close>: the width announced by a leading byte; 1 for ASCII and for invalid ones.\<close>

definition leadSize :: "byte \<Rightarrow> nat" where
  "leadSize b = (if 0xC2 \<le> b \<and> b \<le> 0xDF then 2 else if 0xE0 \<le> b \<and> b \<le> 0xEF then 3
     else if 0xF0 \<le> b \<and> b \<le> 0xF4 then 4 else 1)"

text \<open>The table \<open>acceptRanges\<close>: the range of the second byte.\<close>

definition acceptLo :: "byte \<Rightarrow> byte" where
  "acceptLo b = (if b = 0xE0 then 0xA0 else if b = 0xF0 then 0x90 else 0x80)"

definition acceptHi :: "byte \<Rightarrow> byte" where
  "acceptHi b = (if b = 0xED then 0x9F else if b = 0xF4 then 0x8F else 0xBF)"

definition okSecond :: "byte \<Rightarrow> byte \<Rightarrow> bool" where
  "okSecond b c \<longleftrightarrow> acceptLo b \<le> c \<and> c \<le> acceptHi b"

definition okCont :: "byte \<Rightarrow> bool" where
  "okCont c \<longleftrightarrow> 0x80 \<le> c \<and> c \<le> 0xBF"

definition FullRune :: "bytes \<Rightarrow> bool" where
  "FullRune p =
     (if p = [] then False
      else if length p \<ge> leadSize (p ! 0) then True
      else if length p > 1 \<and> \<not> okSecond (p ! 0) (p ! 1) then True
      else if length p > 2 \<and> \<not> okCont (p ! 2) then True
      else False)"

text \<open>The result is whether the rune is not \<open>RuneError\<close> by invalidity, and the width.\<close>

definition DecodeRune :: "bytes \<Rightarrow> bool \<times> nat" where
  "DecodeRune p =
     (if p = [] then (False, 0)
      else let p0 = p ! 0; sz = leadSize p0 in
        if sz = 1 then (p0 < 0x80, 1)
        else if length p < sz then (False, 1)
        else if \<not> okSecond p0 (p ! 1) then (False, 1)
        else if sz \<le> 2 then (True, 2)
        else if \<not> okCont (p ! 2) then (False, 1)
        else if sz \<le> 3 then (True, 3)
        else if \<not> okCont (p ! 3) then (False, 1)
        else (True, 4))"

lemma leadSize_bounds: "1 \<le> leadSize b" "leadSize b \<le> 4"
  by (simp_all add: leadSize_def)

lemma DecodeRune_width:
  assumes "p \<noteq> []"
  shows "0 < snd (DecodeRune p) \<and> snd (DecodeRune p) \<le> length p"
proof -
  have "1 \<le> length p" using assms by (cases p) auto
  then show ?thesis using leadSize_bounds [of "p ! 0"] assms
    by (auto simp: DecodeRune_def Let_def split: if_splits)
qed

function Valid :: "bytes \<Rightarrow> bool" where
  "Valid p = (if p = [] then True else fst (DecodeRune p) \<and> Valid (drop (snd (DecodeRune p)) p))"
  by pat_completeness auto

termination
  by (relation "measure length") (use DecodeRune_width in auto)

declare Valid.simps [simp del]

text \<open>
  \<open>DecodeLastRuneInString\<close>: the width of the last rune; the start of the sequence is searched at
  most three bytes back, and 1 is the width of an invalid ending.
\<close>

definition runeStart :: "byte \<Rightarrow> bool" where
  "runeStart b \<longleftrightarrow> b AND 0xC0 \<noteq> 0x80"

definition DecodeLastRuneSize :: "bytes \<Rightarrow> nat" where
  "DecodeLastRuneSize s =
     (if s = [] then 0
      else if last s < 0x80 then 1
      else (let n = length s;
                start = (case find (\<lambda>k. runeStart (s ! (n - k))) (filter (\<lambda>k. k \<le> n) [2, 3, 4]) of
                           Some k \<Rightarrow> n - k | None \<Rightarrow> n - 5);
                (ok, size) = DecodeRune (drop start s) in
            if start + size \<noteq> n then 1 else size))"

section \<open>Facts\<close>

lemma DecodeRune_Nil [simp]: "DecodeRune [] = (False, 0)"
  by (simp add: DecodeRune_def)

lemma nth_append_left: "i < length p \<Longrightarrow> (p @ q) ! i = p ! i"
  by (simp add: nth_append)

lemma FullRune_decode:
  assumes "FullRune p"
  shows "DecodeRune (p @ q) = DecodeRune p"
proof -
  have ne: "p \<noteq> []" using assms by (auto simp: FullRune_def)
  then have p0: "(p @ q) ! 0 = p ! 0" by (simp add: nth_append_left)
  consider (full) "length p \<ge> leadSize (p ! 0)"
    | (second) "length p < leadSize (p ! 0)" "length p > 1" "\<not> okSecond (p ! 0) (p ! 1)"
    | (third) "length p < leadSize (p ! 0)" "length p > 2" "\<not> okCont (p ! 2)"
    using assms by (auto simp: FullRune_def split: if_splits)
  then show ?thesis
  proof cases
    case full
    then show ?thesis using ne leadSize_bounds [of "p ! 0"]
      by (auto simp: DecodeRune_def Let_def p0 nth_append)
  next
    case second
    then show ?thesis using ne by (auto simp: DecodeRune_def Let_def p0 nth_append)
  next
    case third
    then show ?thesis using ne by (auto simp: DecodeRune_def Let_def p0 nth_append)
  qed
qed

lemma not_FullRune:
  assumes "\<not> FullRune p"
  shows "\<not> fst (DecodeRune p)" "length p < 4"
proof -
  show "length p < 4"
    using assms leadSize_bounds [of "p ! 0"] by (cases "p = []") (auto simp: FullRune_def split: if_splits)
  show "\<not> fst (DecodeRune p)"
  proof (cases "p = []")
    case False
    then have "length p < leadSize (p ! 0)" using assms by (auto simp: FullRune_def split: if_splits)
    moreover have "1 \<le> length p" using False by (cases p) auto
    ultimately show ?thesis using False by (simp add: DecodeRune_def Let_def)
  qed simp
qed

lemma FullRune_ascii: "p \<noteq> [] \<Longrightarrow> p ! 0 < 0x80 \<Longrightarrow> FullRune p \<and> DecodeRune p = (True, 1)"
proof -
  assume p: "p \<noteq> []" "p ! 0 < 0x80"
  have "\<not> 0xC2 \<le> p ! 0" "\<not> 0xE0 \<le> p ! 0" "\<not> 0xF0 \<le> p ! 0"
    using p(2) by (auto simp: not_le intro: less_trans)
  then have "leadSize (p ! 0) = 1" by (simp add: leadSize_def)
  then show ?thesis using p by (cases p) (auto simp: FullRune_def DecodeRune_def)
qed

end
