(* ===== verification/Ws_Frame.thy ===== *)
theory Ws_Frame
  imports Utf8
begin

text \<open>
  WebSocket connections (\<open>src/pkg/websocket/websocket.go\<close>): frames, the message writer, close
  frames and the streaming UTF-8 validator. The network connection is the byte stream the peer sends
  with what \<open>Read\<close> reports after it, the bytes written so far, and the answers of the coming
  writes. Deadlines are not modelled; a deadline that passes is such an answer. Locks only serialise
  the operations.
\<close>

section \<open>State\<close>

definition Continuation :: byte where "Continuation = 0x0"
definition Text :: byte where "Text = 0x1"
definition Binary :: byte where "Binary = 0x2"
definition Close :: byte where "Close = 0x8"
definition Ping :: byte where "Ping = 0x9"
definition Pong :: byte where "Pong = 0xA"

lemmas opcode_defs = Continuation_def Text_def Binary_def Close_def Ping_def Pong_def

definition CloseNormalClosure :: nat where "CloseNormalClosure = 1000"
definition CloseProtocolError :: nat where "CloseProtocolError = 1002"
definition CloseNoStatusReceived :: nat where "CloseNoStatusReceived = 1005"
definition CloseInvalidFramePayloadData :: nat where "CloseInvalidFramePayloadData = 1007"
definition ClosePolicyViolation :: nat where "ClosePolicyViolation = 1008"
definition CloseMessageTooBig :: nat where "CloseMessageTooBig = 1009"

datatype 'e ws_error = WsConn 'e | WsEOF | WsUnexpectedEOF | ErrWebSocketClosed
  | ErrWebSocketProtocol | ErrWebSocketTooLarge | ErrWebSocketRateLimit | CloseErr nat bytes

text \<open>
  \<open>ws_end\<close> is what a read reports after the last byte, \<^term>\<open>None\<close> for \<open>io.EOF\<close>. An answer
  \<open>Some (k, e)\<close> of a write accepts \<open>k\<close> bytes and fails; without an answer the write succeeds.
  \<open>messages\<close> lists the calls of \<open>onMessage\<close> and \<open>errors\<close> those of \<open>onError\<close>.
\<close>

record 'e Conn =
  ws_in :: bytes
  ws_end :: "'e option"
  ws_out :: bytes
  ws_answers :: "(nat \<times> 'e) option list"
  ws_closed :: bool
  net_closed :: bool
  maxMessage :: int
  maxFrame :: int
  maxFragments :: int
  lastPong :: int
  rateWindowStart :: "int option"
  rateCount :: int
  rateLimit :: int
  messages :: "(byte \<times> int) list"
  errors :: "'e ws_error list"

definition readFull :: "nat \<Rightarrow> 'e Conn \<Rightarrow> ('e ws_error + bytes) \<times> 'e Conn" where
  "readFull k c =
     (if k \<le> length (ws_in c) then (Inr (take k (ws_in c)), c\<lparr>ws_in := drop k (ws_in c)\<rparr>)
      else (Inl (case ws_end c of Some e \<Rightarrow> WsConn e
                 | None \<Rightarrow> if ws_in c = [] then WsEOF else WsUnexpectedEOF), c\<lparr>ws_in := []\<rparr>))"

definition WriteAll :: "bytes \<Rightarrow> 'e Conn \<Rightarrow> 'e ws_error option \<times> 'e Conn" where
  "WriteAll bs c =
     (case ws_answers c of
        [] \<Rightarrow> (None, c\<lparr>ws_out := ws_out c @ bs\<rparr>)
      | None # as \<Rightarrow> (None, c\<lparr>ws_out := ws_out c @ bs, ws_answers := as\<rparr>)
      | Some (k, e) # as \<Rightarrow> (Some (WsConn e), c\<lparr>ws_out := ws_out c @ take k bs, ws_answers := as\<rparr>))"

text \<open>\<open>binary.BigEndian\<close>\<close>

definition putBE :: "nat \<Rightarrow> nat \<Rightarrow> bytes" where
  "putBE k n = map (\<lambda>i. of_nat (n div 256 ^ (k - Suc i))) [0..<k]"

definition getBE :: "bytes \<Rightarrow> nat" where
  "getBE bs = foldl (\<lambda>a b. a * 256 + unat b) 0 bs"

section \<open>Streaming UTF-8 validation\<close>

text \<open>The result is \<^term>\<open>None\<close> for an error, otherwise the bytes of an unfinished rune.\<close>

function utf8_loop :: "bytes \<Rightarrow> bytes option" where
  "utf8_loop data =
     (if data = [] then Some []
      else if data ! 0 < 0x80 then utf8_loop (tl data)
      else if \<not> FullRune data then (if length data > 4 then None else Some data)
      else if \<not> fst (DecodeRune data) then None
      else utf8_loop (drop (snd (DecodeRune data)) data))"
  by pat_completeness auto

termination
  by (relation "measure length") (use DecodeRune_width in auto)

declare utf8_loop.simps [simp del]

text \<open>\<open>utf8StreamValidator\<close> is its tail; an error leaves the tail empty.\<close>

definition utf8_Write :: "bytes \<Rightarrow> bytes \<Rightarrow> bool \<times> bytes" where
  "utf8_Write tail p =
     (if p = [] then (True, tail)
      else (case utf8_loop (if tail \<noteq> [] then tail @ p else p) of None \<Rightarrow> (False, []) | Some t \<Rightarrow> (True, t)))"

definition utf8_Finish :: "bytes \<Rightarrow> bool" where
  "utf8_Finish tail \<longleftrightarrow> length tail = 0"

section \<open>Close payloads\<close>

definition parseClosePayload :: "bytes \<Rightarrow> nat \<times> bytes" where
  "parseClosePayload payload =
     (if length payload < 2 then (CloseNoStatusReceived, [])
      else (getBE (take 2 payload), if length payload > 2 then drop 2 payload else []))"

definition validClosePayload :: "bytes \<Rightarrow> bool" where
  "validClosePayload payload =
     (if length payload = 0 then True
      else if length payload = 1 then False
      else (let code = getBE (take 2 payload) in
        if code < 1000 \<or> code = 1004 \<or> code = 1005 \<or> code = 1006 \<or> code = 1015
           \<or> (code \<ge> 1016 \<and> code < 3000) \<or> code > 4999 then False
        else Valid (drop 2 payload)))"

function trimUTF8_loop :: "bytes \<Rightarrow> nat \<Rightarrow> bytes" where
  "trimUTF8_loop s mx =
     (if length s > mx then
        (let size = DecodeLastRuneSize s in
         if size = 0 then [] else trimUTF8_loop (take (length s - size) s) mx)
      else if \<not> Valid s then [] else s)"
  by pat_completeness auto

termination by (relation "measure (\<lambda>(s, mx). length s)") auto

declare trimUTF8_loop.simps [simp del]

definition trimUTF8Bytes :: "bytes \<Rightarrow> nat \<Rightarrow> bytes" where
  "trimUTF8Bytes s mx = (if mx = 0 then [] else trimUTF8_loop s mx)"

definition trimBytes :: "bytes \<Rightarrow> nat \<Rightarrow> bytes" where
  "trimBytes b mx = (if length b \<le> mx then b else take mx b)"

section \<open>Writing\<close>

definition frameHead :: "bool \<Rightarrow> byte \<Rightarrow> nat \<Rightarrow> bytes" where
  "frameHead fin opcode n =
     (if fin then 0x80 OR opcode else opcode) #
     (if n < 126 then [of_nat n] else if n \<le> 65535 then 126 # putBE 2 n else 127 # putBE 8 n)"

definition writeFrame :: "bool \<Rightarrow> byte \<Rightarrow> bytes \<Rightarrow> 'e Conn \<Rightarrow> 'e ws_error option \<times> 'e Conn" where
  "writeFrame fin opcode payload c =
     (case WriteAll (frameHead fin opcode (length payload)) c of
        (Some e, c) \<Rightarrow> (Some e, c)
      | (None, c) \<Rightarrow> if length payload > 0 then WriteAll payload c else (None, c))"

record MessageWriter =
  mw_opcode :: byte
  mw_first :: bool
  mw_control :: bool
  mw_closed :: bool
  mw_buf :: bytes
  mw_total :: int
  mw_tail :: bytes

text \<open>\<open>NextWriter\<close>: \<open>Inr None\<close> is the writer that discards everything.\<close>

definition NextWriter :: "byte \<Rightarrow> 'e Conn \<Rightarrow> 'e ws_error + MessageWriter option" where
  "NextWriter opcode c =
     (if opcode \<noteq> Text \<and> opcode \<noteq> Binary \<and> opcode \<noteq> Close \<and> opcode \<noteq> Ping \<and> opcode \<noteq> Pong
      then Inl ErrWebSocketProtocol
      else if ws_closed c then (if opcode = Close then Inr None else Inl ErrWebSocketClosed)
      else Inr (Some \<lparr>mw_opcode = opcode, mw_first = True, mw_control = (opcode \<ge> 0x8), mw_closed = False,
                     mw_buf = [], mw_total = 0, mw_tail = []\<rparr>))"

definition flushDataFrame :: "bool \<Rightarrow> MessageWriter \<Rightarrow> 'e Conn \<Rightarrow> 'e ws_error option \<times> MessageWriter \<times> 'e Conn" where
  "flushDataFrame final w c =
     (let op = (if mw_first w then mw_opcode w else Continuation); w = w\<lparr>mw_first := False\<rparr> in
      case writeFrame final op (mw_buf w) c of
        (Some e, c) \<Rightarrow> (Some e, w, c\<lparr>ws_closed := True\<rparr>)
      | (None, c) \<Rightarrow> (None, w\<lparr>mw_buf := []\<rparr>, c))"

text \<open>Writing changes the output, the coming answers and the closed flag, and nothing else.\<close>

definition onlyOut :: "'e Conn \<Rightarrow> 'e Conn \<Rightarrow> bool" where
  "onlyOut c c' \<longleftrightarrow> c' = c\<lparr>ws_out := ws_out c', ws_answers := ws_answers c', ws_closed := ws_closed c'\<rparr>"

lemma onlyOut_refl [simp]: "onlyOut c c"
  by (simp add: onlyOut_def)

lemma onlyOut_trans [trans]: "onlyOut a b \<Longrightarrow> onlyOut b c \<Longrightarrow> onlyOut a c"
  by (cases a; cases b; cases c) (simp add: onlyOut_def)

lemma onlyOut_closed [simp]: "onlyOut c (d\<lparr>ws_closed := b\<rparr>) \<longleftrightarrow> onlyOut c d"
  by (cases c; cases d) (auto simp: onlyOut_def)

lemma onlyOut_fields:
  assumes "onlyOut c c'"
  shows "ws_in c' = ws_in c" "ws_end c' = ws_end c" "maxFrame c' = maxFrame c" "maxMessage c' = maxMessage c"
    "maxFragments c' = maxFragments c" "messages c' = messages c" "rateLimit c' = rateLimit c"
    "rateCount c' = rateCount c" "rateWindowStart c' = rateWindowStart c"
  using assms by (cases c; cases c'; simp add: onlyOut_def)+

lemma WriteAll_onlyOut: "WriteAll bs c = (e, c') \<Longrightarrow> onlyOut c c' \<and> ws_closed c' = ws_closed c"
  by (cases c) (auto simp: WriteAll_def onlyOut_def split: list.splits option.splits prod.splits)

lemma writeFrame_onlyOut:
  assumes "writeFrame f op p c = (e, c')"
  shows "onlyOut c c' \<and> ws_closed c' = ws_closed c"
proof -
  obtain e1 c1 where 1: "WriteAll (frameHead f op (length p)) c = (e1, c1)" by fastforce
  note h = WriteAll_onlyOut [OF 1]
  show ?thesis
  proof (cases "e1 = None \<and> length p > 0")
    case True
    then have "WriteAll p c1 = (e, c')" using assms 1 by (simp add: writeFrame_def)
    from WriteAll_onlyOut [OF this] h show ?thesis using onlyOut_trans by metis
  next
    case False
    then show ?thesis using assms 1 h by (auto simp: writeFrame_def split: option.splits)
  qed
qed

lemma flush_onlyOut:
  assumes "flushDataFrame final w c = (e, w', c')"
  shows "onlyOut c c'" "e = None \<Longrightarrow> mw_buf w' = [] \<and> ws_closed c' = ws_closed c"
proof -
  let ?op = "if mw_first w then mw_opcode w else Continuation"
  obtain e1 c1 where 1: "writeFrame final ?op (mw_buf w) c = (e1, c1)" by fastforce
  note h = writeFrame_onlyOut [OF 1]
  have r: "(e, w', c') = (case e1 of Some e \<Rightarrow> (Some e, w\<lparr>mw_first := False\<rparr>, c1\<lparr>ws_closed := True\<rparr>)
      | None \<Rightarrow> (None, w\<lparr>mw_first := False, mw_buf := []\<rparr>, c1))"
    using assms 1 by (simp add: flushDataFrame_def Let_def split: option.splits)
  show "onlyOut c c'" "e = None \<Longrightarrow> mw_buf w' = [] \<and> ws_closed c' = ws_closed c"
    using r h by (auto split: option.splits)
qed

text \<open>The loop of \<open>Write\<close>; the number is that of the bytes not taken over.\<close>

definition frameFull :: "nat \<Rightarrow> MessageWriter \<Rightarrow> bytes \<Rightarrow> bool" where
  "frameFull limit w p \<longleftrightarrow> length (mw_buf w) = limit \<and> length p > 0"

function mw_loop :: "bytes \<Rightarrow> MessageWriter \<Rightarrow> 'e Conn \<Rightarrow> 'e ws_error option \<times> nat \<times> MessageWriter \<times> 'e Conn" where
  "mw_loop p w c =
     (if p = [] then (None, 0, w, c)
      else
        (let limit = (if maxFrame c \<le> 0 then length p else nat (maxFrame c)) in
         if limit \<le> length (mw_buf w) then
           (case flushDataFrame False w c of
              (Some e, w, c) \<Rightarrow> (Some e, length p, w, c)
            | (None, w, c) \<Rightarrow> mw_loop p w c)
         else
           (let space = min (limit - length (mw_buf w)) (length p);
                w1 = w\<lparr>mw_buf := mw_buf w @ take space p, mw_total := mw_total w + int space\<rparr>;
                p1 = drop space p in
            if frameFull limit w1 p1 then
              (case flushDataFrame False w1 c of
                 (Some e, w2, c) \<Rightarrow> (Some e, length p1, w2, c)
               | (None, w2, c) \<Rightarrow> mw_loop p1 w2 c)
            else mw_loop p1 w1 c)))"
  by pat_completeness auto

termination
proof (relation "measure (\<lambda>(p, w, c). 2 * length p +
    (if (if maxFrame c \<le> 0 then length p else nat (maxFrame c)) \<le> length (mw_buf w) then 1 else 0))", goal_cases)
  case (2 p w c limit e x w' c')
  then have "flushDataFrame False w c = (None, w', c')" by simp
  note f = flush_onlyOut [OF this]
  have "maxFrame c' = maxFrame c" using onlyOut_fields(3) [OF f(1)] .
  with f(2) show ?case using 2 by (auto split: if_splits)
qed (auto simp: frameFull_def split: if_splits)

declare mw_loop.simps [simp del]

definition mw_Write :: "bytes \<Rightarrow> MessageWriter \<Rightarrow> 'e Conn \<Rightarrow> nat \<times> 'e ws_error option \<times> MessageWriter \<times> 'e Conn" where
  "mw_Write p w c =
     (if mw_closed w then (0, Some ErrWebSocketClosed, w, c)
      else if length p = 0 then (0, None, w, c)
      else if maxMessage c > 0 \<and> mw_total w + int (length p) > maxMessage c then (0, Some ErrWebSocketTooLarge, w, c)
      else
        (let (ok, t) = (if mw_opcode w = Text then utf8_Write (mw_tail w) p else (True, mw_tail w));
             w = w\<lparr>mw_tail := t\<rparr> in
         if \<not> ok then (0, Some ErrWebSocketProtocol, w, c)
         else if mw_control w then
           (if length (mw_buf w) + length p > 125 then (0, Some ErrWebSocketProtocol, w, c)
            else (length p, None, w\<lparr>mw_buf := mw_buf w @ p, mw_total := mw_total w + int (length p)\<rparr>, c))
         else (case mw_loop p w c of (e, left, w, c) \<Rightarrow> (length p - left, e, w, c))))"

definition mw_Close :: "MessageWriter \<Rightarrow> 'e Conn \<Rightarrow> 'e ws_error option \<times> MessageWriter \<times> 'e Conn" where
  "mw_Close w c =
     (if mw_closed w then (None, w, c)
      else
        (let w = w\<lparr>mw_closed := True\<rparr> in
         if mw_control w then
           (if mw_opcode w = Close \<and> \<not> validClosePayload (mw_buf w) then (Some ErrWebSocketProtocol, w, c)
            else (case writeFrame True (mw_opcode w) (mw_buf w) c of
                (Some e, c) \<Rightarrow> (Some e, w, c\<lparr>ws_closed := True\<rparr>)
              | (None, c) \<Rightarrow> (None, w, if mw_opcode w = Close then c\<lparr>ws_closed := True\<rparr> else c)))
         else if mw_opcode w = Text \<and> \<not> utf8_Finish (mw_tail w) then (Some ErrWebSocketProtocol, w, c)
         else flushDataFrame True w c))"

definition WriteMessage :: "byte \<Rightarrow> bytes \<Rightarrow> 'e Conn \<Rightarrow> 'e ws_error option \<times> 'e Conn" where
  "WriteMessage opcode payload c =
     (case NextWriter opcode c of
        Inl e \<Rightarrow> (Some e, c)
      | Inr None \<Rightarrow> (None, c)
      | Inr (Some w) \<Rightarrow>
          if length payload > 0 then
            (case mw_Write payload w c of
               (n, Some e, w, c) \<Rightarrow> (Some e, snd (snd (mw_Close w c)))
             | (n, None, w, c) \<Rightarrow> (case mw_Close w c of (e, w, c) \<Rightarrow> (e, c)))
          else (case mw_Close w c of (e, w, c) \<Rightarrow> (e, c)))"

definition ws_Ping :: "bytes \<Rightarrow> 'e Conn \<Rightarrow> 'e ws_error option \<times> 'e Conn" where
  "ws_Ping payload c = (if length payload > 125 then (Some ErrWebSocketProtocol, c) else WriteMessage Ping payload c)"

definition ws_Pong :: "bytes \<Rightarrow> 'e Conn \<Rightarrow> 'e ws_error option \<times> 'e Conn" where
  "ws_Pong payload c = (if length payload > 125 then (Some ErrWebSocketProtocol, c) else WriteMessage Pong payload c)"

definition CloseWithStatus :: "nat \<Rightarrow> bytes \<Rightarrow> 'e Conn \<Rightarrow> 'e ws_error option \<times> 'e Conn" where
  "CloseWithStatus code reason0 c =
     (if code = 0 then WriteMessage Close [] c
      else
        (let payload = putBE 2 code @ trimUTF8Bytes reason0 123 in
         if \<not> validClosePayload payload then (Some ErrWebSocketProtocol, c) else WriteMessage Close payload c))"

text \<open>\<open>Conn.Close\<close> inside its \<open>sync.Once\<close>; \<open>net_closed\<close> is that it has run.\<close>

definition conn_Close :: "'e Conn \<Rightarrow> 'e Conn" where
  "conn_Close c = (if net_closed c then c
     else (snd (CloseWithStatus CloseNormalClosure [] c))\<lparr>ws_closed := True, net_closed := True\<rparr>)"

end
