(* ===== verification/Ws_Write.thy ===== *)
theory Ws_Write
  imports Ws_Frame
begin

text \<open>
  Properties of the writing half: the streaming validator accepts exactly the valid texts however
  they are cut, a message goes out as one first frame and continuations that concatenate to it, and
  nothing follows a close frame.
\<close>

section \<open>The streaming validator\<close>

fun utf8_feed :: "bytes \<Rightarrow> bytes list \<Rightarrow> bytes option" where
  "utf8_feed tail [] = Some tail"
| "utf8_feed tail (p # ps) = (case utf8_Write tail p of (False, t) \<Rightarrow> None | (True, t) \<Rightarrow> utf8_feed t ps)"

lemma utf8_loop_Nil [simp]: "utf8_loop [] = Some []"
  by (simp add: utf8_loop.simps)

text \<open>One step: the loop removes a full valid rune, whichever branch handles it.\<close>

lemma utf8_loop_step:
  assumes "data \<noteq> []"
  shows "utf8_loop data =
    (if FullRune data then
       (if fst (DecodeRune data) then utf8_loop (drop (snd (DecodeRune data)) data) else None)
     else Some data)"
proof (cases "data ! 0 < 0x80")
  case True
  then show ?thesis using FullRune_ascii [OF assms True] assms
    by (subst utf8_loop.simps) (simp add: drop_Suc)
next
  case False
  have "\<not> FullRune data \<Longrightarrow> \<not> 4 < length data" using not_FullRune(2) by fastforce
  then show ?thesis using assms False by (subst utf8_loop.simps) auto
qed

lemma utf8_loop_append:
  "utf8_loop (xs @ ys) = (case utf8_loop xs of None \<Rightarrow> None | Some t \<Rightarrow> utf8_loop (t @ ys))"
proof (induction xs rule: measure_induct_rule [of length])
  case (less xs)
  show ?case
  proof (cases "xs \<noteq> [] \<and> FullRune xs")
    case True
    then have d: "DecodeRune (xs @ ys) = DecodeRune xs" "FullRune (xs @ ys)"
      using FullRune_decode by (auto simp: FullRune_def nth_append split: if_splits)
    have w: "0 < snd (DecodeRune xs)" "snd (DecodeRune xs) \<le> length xs" using DecodeRune_width True by blast+
    then have "utf8_loop (drop (snd (DecodeRune xs)) xs @ ys) =
        (case utf8_loop (drop (snd (DecodeRune xs)) xs) of None \<Rightarrow> None | Some t \<Rightarrow> utf8_loop (t @ ys))"
      using True by (intro less.IH) simp
    then show ?thesis using True d w by (simp add: utf8_loop_step)
  next
    case False
    then show ?thesis by (cases "xs = []") (simp_all add: utf8_loop_step [of xs])
  qed
qed

lemma utf8_loop_Valid: "utf8_loop data = Some [] \<longleftrightarrow> Valid data"
proof (induction data rule: measure_induct_rule [of length])
  case (less data)
  show ?case
  proof (cases "data = []")
    case False
    have "Valid data \<longleftrightarrow> fst (DecodeRune data) \<and> Valid (drop (snd (DecodeRune data)) data)"
      using False by (subst Valid.simps) simp
    moreover have "utf8_loop (drop (snd (DecodeRune data)) data) = Some [] \<longleftrightarrow> Valid (drop (snd (DecodeRune data)) data)"
      using False DecodeRune_width [OF False] by (intro less.IH) auto
    ultimately show ?thesis using False not_FullRune(1) [of data] by (auto simp: utf8_loop_step)
  qed (simp add: Valid.simps)
qed

lemma utf8_feed_loop:
  "utf8_loop t0 = Some t0 \<Longrightarrow> utf8_feed t0 cs = utf8_loop (t0 @ concat cs)"
proof (induction cs arbitrary: t0)
  case (Cons p cs)
  have "utf8_Write t0 p = (case utf8_loop (t0 @ p) of None \<Rightarrow> (False, []) | Some t \<Rightarrow> (True, t))"
    using Cons.prems by (auto simp: utf8_Write_def)
  moreover have "utf8_loop t = Some t" if "utf8_loop (t0 @ p) = Some t" for t
    using that utf8_loop_append [of "t0 @ p" "[]"] by simp
  moreover have "utf8_loop (t0 @ p @ concat cs) = (case utf8_loop (t0 @ p) of None \<Rightarrow> None | Some t \<Rightarrow> utf8_loop (t @ concat cs))"
    using utf8_loop_append [of "t0 @ p" "concat cs"] by simp
  ultimately show ?case using Cons.IH by (auto split: option.split)
qed simp

text \<open>
  C21: The streaming UTF-8 validator accepts a text exactly if the whole text is valid UTF-8, however
  it is cut into pieces.
\<close>

theorem utf8_stream_valid:
  "(case utf8_feed [] cs of None \<Rightarrow> False | Some t \<Rightarrow> utf8_Finish t) \<longleftrightarrow> Valid (concat cs)"
  using utf8_feed_loop [of "[]" cs] utf8_loop_Valid [of "concat cs"]
  by (auto simp: utf8_Finish_def split: option.split)

section \<open>Frames of a message\<close>

type_synonym frame = "bool \<times> byte \<times> bytes"

fun frameBytes :: "frame \<Rightarrow> bytes" where
  "frameBytes (fin, op, payload) = frameHead fin op (length payload) @ payload"

text \<open>The non-final frames with these payloads; only the first carries the opcode.\<close>

fun dataFrames :: "bool \<Rightarrow> byte \<Rightarrow> bytes list \<Rightarrow> frame list" where
  "dataFrames first op [] = []"
| "dataFrames first op (b # bs) = (False, if first then op else Continuation, b) # dataFrames False op bs"

definition messageFrames :: "byte \<Rightarrow> bytes list \<Rightarrow> bytes \<Rightarrow> frame list" where
  "messageFrames op bs final = dataFrames True op bs @ [(True, if bs = [] then op else Continuation, final)]"

lemma dataFrames_append:
  "dataFrames first op (as @ bs) = dataFrames first op as @ dataFrames (first \<and> as = []) op bs"
  by (induction as arbitrary: first) auto

lemma writeFrame_ok:
  "ws_answers c = [] \<Longrightarrow> writeFrame fin op p c = (None, c\<lparr>ws_out := ws_out c @ frameBytes (fin, op, p)\<rparr>)"
  by (cases "p = []") (simp_all add: writeFrame_def WriteAll_def)

lemma flush_ok:
  "ws_answers c = [] \<Longrightarrow> flushDataFrame final w c =
     (None, w\<lparr>mw_first := False, mw_buf := []\<rparr>,
      c\<lparr>ws_out := ws_out c @ frameBytes (final, if mw_first w then mw_opcode w else Continuation, mw_buf w)\<rparr>)"
  by (simp add: flushDataFrame_def writeFrame_ok Let_def del: frameBytes.simps)

lemma mw_loop_ok:
  fixes c :: "'e Conn"
  assumes "ws_answers c = []" "0 < maxFrame c" "int (length (mw_buf w)) \<le> maxFrame c"
  shows "\<exists>bs buf tot. mw_loop p w c = (None, 0, w\<lparr>mw_buf := buf, mw_total := tot, mw_first := mw_first w \<and> bs = []\<rparr>,
        c\<lparr>ws_out := ws_out c @ concat (map frameBytes (dataFrames (mw_first w) (mw_opcode w) bs))\<rparr>)
    \<and> concat bs @ buf = mw_buf w @ p \<and> (\<forall>b \<in> set bs. int (length b) \<le> maxFrame c) \<and> int (length buf) \<le> maxFrame c"
  using assms
proof (induction "2 * length p + (if nat (maxFrame c) \<le> length (mw_buf w) then 1 else 0)" arbitrary: p w c rule: less_induct)
  case less
  let ?N = "nat (maxFrame c)"
  have N: "(if maxFrame c \<le> 0 then length p else ?N) = ?N" "0 < ?N" "length (mw_buf w) \<le> ?N"
    using less.prems by auto
  have np: "\<not> maxFrame c \<le> 0" using less.prems by simp
  consider (empty) "p = []" | (full) "p \<noteq> []" "?N \<le> length (mw_buf w)" | (room) "p \<noteq> []" "length (mw_buf w) < ?N" by linarith
  then show ?case
  proof cases
    case empty
    have "mw_loop p w c = (None, 0, w\<lparr>mw_buf := mw_buf w, mw_total := mw_total w, mw_first := mw_first w \<and> [] = []\<rparr>,
        c\<lparr>ws_out := ws_out c @ concat (map frameBytes (dataFrames (mw_first w) (mw_opcode w) []))\<rparr>)"
      using empty by (subst mw_loop.simps) simp
    then show ?thesis using empty less.prems by (intro exI [of _ "[]"] exI [of _ "mw_buf w"] exI [of _ "mw_total w"]) simp
  next
    case full
    let ?w1 = "w\<lparr>mw_first := False, mw_buf := []\<rparr>"
    let ?c1 = "c\<lparr>ws_out := ws_out c @ frameBytes (False, if mw_first w then mw_opcode w else Continuation, mw_buf w)\<rparr>"
    have l: "mw_loop p w c = mw_loop p ?w1 ?c1"
      using full less.prems(1) np by (subst mw_loop.simps) (simp add: Let_def flush_ok del: frameBytes.simps)
    obtain bs buf tot where IH: "mw_loop p ?w1 ?c1 = (None, 0, ?w1\<lparr>mw_buf := buf, mw_total := tot, mw_first := mw_first ?w1 \<and> bs = []\<rparr>,
        ?c1\<lparr>ws_out := ws_out ?c1 @ concat (map frameBytes (dataFrames (mw_first ?w1) (mw_opcode ?w1) bs))\<rparr>)"
      "concat bs @ buf = mw_buf ?w1 @ p" "\<forall>b \<in> set bs. int (length b) \<le> maxFrame ?c1" "int (length buf) \<le> maxFrame ?c1"
      using less.hyps [of p ?c1 ?w1] less.prems full N by (auto simp del: frameBytes.simps)
    show ?thesis
      using l IH less.prems by (intro exI [of _ "mw_buf w # bs"] exI [of _ buf] exI [of _ tot]) (simp del: frameBytes.simps)
  next
    case room
    define space where "space = min (?N - length (mw_buf w)) (length p)"
    define w1 where "w1 = w\<lparr>mw_buf := mw_buf w @ take space p, mw_total := mw_total w + int space\<rparr>"
    have sp: "0 < space" "space \<le> length p" "length (mw_buf w1) \<le> ?N" using room unfolding space_def w1_def by auto
    have np': "(if maxFrame c \<le> 0 then length p else ?N) = ?N" "(p = []) = False" "(?N \<le> length (mw_buf w)) = False"
      using np room by auto
    have step: "mw_loop p w c = (if length (mw_buf w1) = ?N \<and> length (drop space p) > 0 then
        (case flushDataFrame False w1 c of
           (Some e, w2, c) \<Rightarrow> (Some e, length (drop space p), w2, c)
         | (None, w2, c) \<Rightarrow> mw_loop (drop space p) w2 c)
        else mw_loop (drop space p) w1 c)"
      by (subst mw_loop.simps) (simp only: Let_def np' if_False space_def [symmetric] w1_def [symmetric] frameFull_def)
    show ?thesis
    proof (cases "length (mw_buf w1) = ?N \<and> length (drop space p) > 0")
      case True
      let ?w2 = "w1\<lparr>mw_first := False, mw_buf := []\<rparr>"
      let ?c1 = "c\<lparr>ws_out := ws_out c @ frameBytes (False, if mw_first w1 then mw_opcode w1 else Continuation, mw_buf w1)\<rparr>"
      have l: "mw_loop p w c = mw_loop (drop space p) ?w2 ?c1"
        using less.prems(1) by (simp only: step True if_True flush_ok [of c False w1] prod.case option.case simp_thms)
      obtain bs buf tot where IH: "mw_loop (drop space p) ?w2 ?c1 = (None, 0, ?w2\<lparr>mw_buf := buf, mw_total := tot, mw_first := mw_first ?w2 \<and> bs = []\<rparr>,
          ?c1\<lparr>ws_out := ws_out ?c1 @ concat (map frameBytes (dataFrames (mw_first ?w2) (mw_opcode ?w2) bs))\<rparr>)"
        "concat bs @ buf = mw_buf ?w2 @ drop space p" "\<forall>b \<in> set bs. int (length b) \<le> maxFrame ?c1" "int (length buf) \<le> maxFrame ?c1"
        using less.hyps [of "drop space p" ?c1 ?w2] less.prems room N sp by (auto simp del: frameBytes.simps)
      have "int (length (mw_buf w1)) \<le> maxFrame c" using sp less.prems by linarith
      then show ?thesis
        using l IH less.prems
        by (intro exI [of _ "mw_buf w1 # bs"] exI [of _ buf] exI [of _ tot]) (simp add: w1_def del: frameBytes.simps)
    next
      case False
      have m: "2 * length (drop space p) + (if ?N \<le> length (mw_buf w1) then 1 else 0)
          < 2 * length p + (if ?N \<le> length (mw_buf w) then 1 else 0)"
        using sp room by auto
      have b: "int (length (mw_buf w1)) \<le> maxFrame c" using sp less.prems by linarith
      have l: "mw_loop p w c = mw_loop (drop space p) w1 c"
        by (simp only: step False if_False)
      obtain bs buf tot where IH: "mw_loop (drop space p) w1 c = (None, 0, w1\<lparr>mw_buf := buf, mw_total := tot, mw_first := mw_first w1 \<and> bs = []\<rparr>,
          c\<lparr>ws_out := ws_out c @ concat (map frameBytes (dataFrames (mw_first w1) (mw_opcode w1) bs))\<rparr>)"
        "concat bs @ buf = mw_buf w1 @ drop space p" "\<forall>b \<in> set bs. int (length b) \<le> maxFrame c" "int (length buf) \<le> maxFrame c"
        using less.hyps [OF m less.prems(1,2) b] by blast
      then show ?thesis
        using l by (intro exI [of _ bs] exI [of _ buf] exI [of _ tot]) (simp add: w1_def del: frameBytes.simps)
    qed
  qed
qed

lemma NextWriter_data:
  assumes "op = Text \<or> op = Binary" "\<not> ws_closed c"
  shows "NextWriter op c = Inr (Some \<lparr>mw_opcode = op, mw_first = True, mw_control = False, mw_closed = False,
    mw_buf = [], mw_total = 0, mw_tail = []\<rparr>)"
proof -
  have "\<not> (8 :: byte) \<le> Text" "\<not> (8 :: byte) \<le> Binary" by code_simp+
  with assms show ?thesis by (auto simp: NextWriter_def)
qed

lemma mw_Close_data:
  assumes "ws_answers c = []" "\<not> mw_closed w" "\<not> mw_control w" "mw_opcode w = Text \<longrightarrow> mw_tail w = []"
  shows "\<exists>w'. mw_Close w c = (None, w', c\<lparr>ws_out := ws_out c @ frameBytes (True, if mw_first w then mw_opcode w else Continuation, mw_buf w)\<rparr>)"
  using assms by (auto simp: mw_Close_def Let_def flush_ok utf8_Finish_def simp del: frameBytes.simps)

text \<open>
  C11: A data message on an open connection whose writes succeed goes out as frames of at most
  \<open>maxFrame\<close> bytes whose payloads concatenate to the message: the first carries the opcode, the others
  are continuations, and exactly the last is final.
\<close>

theorem WriteMessage_frames:
  fixes c :: "'e Conn"
  assumes op: "op = Text \<or> op = Binary" and opn: "\<not> ws_closed c" "ws_answers c = []" and mf: "0 < maxFrame c"
    and size: "maxMessage c \<le> 0 \<or> int (length payload) \<le> maxMessage c" and utf: "op = Text \<longrightarrow> Valid payload"
  shows "\<exists>bs final. WriteMessage op payload c = (None, c\<lparr>ws_out := ws_out c @ concat (map frameBytes (messageFrames op bs final))\<rparr>)
    \<and> concat bs @ final = payload \<and> (\<forall>b \<in> set (bs @ [final]). int (length b) \<le> maxFrame c)"
proof -
  let ?w = "\<lparr>mw_opcode = op, mw_first = True, mw_control = False, mw_closed = False, mw_buf = [], mw_total = 0, mw_tail = []\<rparr>"
  note nw = NextWriter_data [OF op opn(1)]
  show ?thesis
  proof (cases "payload = []")
    case True
    obtain w' where "mw_Close ?w c = (None, w', c\<lparr>ws_out := ws_out c @ frameBytes (True, op, [])\<rparr>)"
      using mw_Close_data [OF opn(2), of ?w] by auto
    then have "WriteMessage op payload c = (None, c\<lparr>ws_out := ws_out c @ concat (map frameBytes (messageFrames op [] []))\<rparr>)"
      using True nw by (simp add: WriteMessage_def messageFrames_def)
    then show ?thesis using True mf by (intro exI [of _ "[]"]) simp
  next
    case False
    have u: "op = Text \<Longrightarrow> utf8_Write [] payload = (True, [])"
      using utf utf8_loop_Valid [of payload] False by (simp add: utf8_Write_def)
    obtain bs buf tot where l: "mw_loop payload ?w c = (None, 0, ?w\<lparr>mw_buf := buf, mw_total := tot, mw_first := mw_first ?w \<and> bs = []\<rparr>,
        c\<lparr>ws_out := ws_out c @ concat (map frameBytes (dataFrames (mw_first ?w) (mw_opcode ?w) bs))\<rparr>)"
      and b: "concat bs @ buf = mw_buf ?w @ payload" "\<forall>b \<in> set bs. int (length b) \<le> maxFrame c" "int (length buf) \<le> maxFrame c"
      using mw_loop_ok [OF opn(2) mf, of ?w payload] mf by auto
    let ?w1 = "?w\<lparr>mw_buf := buf, mw_total := tot, mw_first := bs = []\<rparr>"
    let ?c1 = "c\<lparr>ws_out := ws_out c @ concat (map frameBytes (dataFrames True op bs))\<rparr>"
    have w: "mw_Write payload ?w c = (length payload, None, ?w1, ?c1)"
      using False size u l by (cases "op = Text") (auto simp: mw_Write_def)
    obtain w' where "mw_Close ?w1 ?c1 = (None, w', ?c1\<lparr>ws_out := ws_out ?c1 @ frameBytes (True, if bs = [] then op else Continuation, buf)\<rparr>)"
      using mw_Close_data [of ?c1 ?w1] opn by auto
    then have "WriteMessage op payload c = (None, c\<lparr>ws_out := ws_out c @ concat (map frameBytes (messageFrames op bs buf))\<rparr>)"
      using False nw w by (simp add: WriteMessage_def messageFrames_def del: frameBytes.simps)
    then show ?thesis using b by (intro exI [of _ bs] exI [of _ buf]) auto
  qed
qed

definition demoConn :: "unit Conn" where
  "demoConn = \<lparr>ws_in = [], ws_end = None, ws_out = [], ws_answers = [], ws_closed = False, net_closed = False,
     maxMessage = 100, maxFrame = 2, maxFragments = 4, lastPong = 0, rateWindowStart = None, rateCount = 0,
     rateLimit = 0, messages = [], errors = []\<rparr>"

theorem WriteMessage_frames_witness:
  "\<exists>bs final. WriteMessage Binary [1, 2, 3] demoConn =
     (None, demoConn\<lparr>ws_out := concat (map frameBytes (messageFrames Binary bs final))\<rparr>) \<and> concat bs @ final = [1, 2, 3]"
proof -
  have "Binary \<noteq> Text" by (simp add: opcode_defs)
  then show ?thesis
    using WriteMessage_frames [of Binary demoConn "[1, 2, 3]"] by (auto simp: demoConn_def)
qed



end
