(* ===== verification/Ws_Read.thy ===== *)
theory Ws_Read
  imports Ws_Write
begin

text \<open>
  The reading half of \<open>src/pkg/websocket/websocket.go\<close>: frames from the client and the message
  reader, which answers pings, counts fragments and bytes, and validates text as it is read.
\<close>

section \<open>Frames\<close>

definition bindR :: "('e ws_error + 'a) \<times> 'e Conn \<Rightarrow> ('a \<Rightarrow> 'e Conn \<Rightarrow> ('e ws_error + 'b) \<times> 'e Conn) \<Rightarrow> ('e ws_error + 'b) \<times> 'e Conn" where
  "bindR r k = (case r of (Inl e, c) \<Rightarrow> (Inl e, c) | (Inr a, c) \<Rightarrow> k a c)"

definition failR :: "'e ws_error \<Rightarrow> nat \<Rightarrow> string \<Rightarrow> 'e Conn \<Rightarrow> ('e ws_error + 'b) \<times> 'e Conn" where
  "failR e code reason c = (Inl e, snd (CloseWithStatus code (s2b reason) c))"

definition frameLength :: "nat \<Rightarrow> 'e Conn \<Rightarrow> ('e ws_error + nat) \<times> 'e Conn" where
  "frameLength len7 c =
     (if len7 = 126 then
        bindR (readFull 2 c) (\<lambda>ext c.
          if getBE ext < 126 then failR ErrWebSocketProtocol CloseProtocolError ''non-minimal length'' c
          else (Inr (getBE ext), c))
      else if len7 = 127 then
        bindR (readFull 8 c) (\<lambda>ext c.
          if getBE ext \<ge> 2 ^ 63 \<or> getBE ext \<le> 65535
          then failR ErrWebSocketProtocol CloseProtocolError ''bad extended length'' c
          else (Inr (getBE ext), c))
      else (Inr len7, c))"

definition unmask :: "bytes \<Rightarrow> bytes \<Rightarrow> bytes" where
  "unmask key payload = map (\<lambda>(i, b). b XOR key ! (i mod 4)) (enumerate 0 payload)"

definition readPayload :: "bool \<Rightarrow> byte \<Rightarrow> nat \<Rightarrow> 'e Conn \<Rightarrow> ('e ws_error + frame) \<times> 'e Conn" where
  "readPayload fin opcode len c =
     bindR (readFull 4 c) (\<lambda>key c.
       if len > 0 then bindR (readFull len c) (\<lambda>payload c. (Inr (fin, opcode, unmask key payload), c))
       else (Inr (fin, opcode, []), c))"

definition readFrame :: "'e Conn \<Rightarrow> ('e ws_error + frame) \<times> 'e Conn" where
  "readFrame c =
     (if ws_closed c then (Inl ErrWebSocketClosed, c)
      else bindR (readFull 2 c) (\<lambda>head c.
        let fin = (head ! 0 AND 0x80 \<noteq> 0); opcode = head ! 0 AND 0x0f in
        if head ! 0 AND 0x70 \<noteq> 0 then failR ErrWebSocketProtocol CloseProtocolError ''rsv bits unsupported'' c
        else if opcode \<notin> set [Continuation, Text, Binary, Close, Ping, Pong]
        then failR ErrWebSocketProtocol CloseProtocolError ''bad opcode'' c
        else if head ! 1 AND 0x80 = 0
        then failR ErrWebSocketProtocol CloseProtocolError ''client frame not masked'' c
        else bindR (frameLength (unat (head ! 1 AND 0x7f)) c) (\<lambda>len c.
          if opcode \<ge> 0x8 \<and> (\<not> fin \<or> len > 125)
          then failR ErrWebSocketProtocol CloseProtocolError ''bad control frame'' c
          else if maxFrame c > 0 \<and> int len > maxFrame c
          then failR ErrWebSocketTooLarge CloseMessageTooBig ''frame too large'' c
          else if maxMessage c > 0 \<and> int len > maxMessage c
          then failR ErrWebSocketTooLarge CloseMessageTooBig ''message too large'' c
          else if len > 2 ^ 63 - 1
          then failR ErrWebSocketTooLarge CloseMessageTooBig ''frame too large'' c
          else readPayload fin opcode len c)))"

subsection \<open>A frame consumes input and leaves the rest of the connection alone\<close>

lemma mw_loop_onlyOut: "mw_loop p w c = (e, k, w', c') \<Longrightarrow> onlyOut c c'"
proof (induction p w c arbitrary: e k w' c' rule: mw_loop.induct)
  case (1 p w c)
  define limit where "limit = (if maxFrame c \<le> 0 then length p else nat (maxFrame c))"
  define space where "space = min (limit - length (mw_buf w)) (length p)"
  define w1 where "w1 = w\<lparr>mw_buf := mw_buf w @ take space p, mw_total := mw_total w + int space\<rparr>"
  consider (nil) "p = []" | (full) "p \<noteq> []" "limit \<le> length (mw_buf w)" | (room) "p \<noteq> []" "\<not> limit \<le> length (mw_buf w)" by blast
  then show ?case
  proof cases
    case nil
    then show ?thesis using "1.prems" by (subst (asm) mw_loop.simps) simp
  next
    case full
    obtain fe fw fc where f: "flushDataFrame False w c = (fe, fw, fc)" by (cases "flushDataFrame False w c")
    have fc: "onlyOut c fc" using flush_onlyOut(1) [OF f] .
    show ?thesis
    proof (cases fe)
      case (Some x)
      then have "c' = fc" using "1.prems" full f unfolding limit_def by (subst (asm) mw_loop.simps) (simp add: Let_def)
      then show ?thesis using fc by simp
    next
      case None
      then have "mw_loop p fw fc = (e, k, w', c')" using "1.prems" full f unfolding limit_def by (subst (asm) mw_loop.simps) (simp add: Let_def)
      from "1.IH"(1) [OF full(1) limit_def full(2) f [symmetric] None refl this] show ?thesis using fc onlyOut_trans by blast
    qed
  next
    case room
    have step: "mw_loop p w c = (if frameFull limit w1 (drop space p) then
        (case flushDataFrame False w1 c of
           (Some e, w2, c) \<Rightarrow> (Some e, length (drop space p), w2, c)
         | (None, w2, c) \<Rightarrow> mw_loop (drop space p) w2 c)
        else mw_loop (drop space p) w1 c)"
      using room by (subst mw_loop.simps) (simp only: Let_def limit_def [symmetric] if_False space_def [symmetric] w1_def [symmetric])
    show ?thesis
    proof (cases "frameFull limit w1 (drop space p)")
      case True
      obtain fe fw fc where f: "flushDataFrame False w1 c = (fe, fw, fc)" by (cases "flushDataFrame False w1 c")
      have fc: "onlyOut c fc" using flush_onlyOut(1) [OF f] .
      show ?thesis
      proof (cases fe)
        case (Some x)
        then have "c' = fc" using "1.prems" True f unfolding step by simp
        then show ?thesis using fc by simp
      next
        case None
        then have "mw_loop (drop space p) fw fc = (e, k, w', c')" using "1.prems" True f unfolding step by simp
        from "1.IH"(2) [OF room(1) limit_def room(2) space_def w1_def refl True f [symmetric] None refl this]
        show ?thesis using fc onlyOut_trans by blast
      qed
    next
      case False
      then have "mw_loop (drop space p) w1 c = (e, k, w', c')" using "1.prems" unfolding step by (simp only: if_False)
      from "1.IH"(3) [OF room(1) limit_def room(2) space_def w1_def refl False this] show ?thesis .
    qed
  qed
qed

lemma mw_Write_onlyOut: "mw_Write p w c = (n, e, w', c') \<Longrightarrow> onlyOut c c'"
  by (auto simp: mw_Write_def Let_def split: if_splits prod.splits dest!: mw_loop_onlyOut)

lemma mw_Close_onlyOut:
  assumes "mw_Close w c = (e, w', c')"
  shows "onlyOut c c'"
proof -
  obtain we wc where wf: "writeFrame True (mw_opcode w) (mw_buf w) c = (we, wc)" by fastforce
  obtain fe fw fc where fl: "flushDataFrame True (w\<lparr>mw_closed := True\<rparr>) c = (fe, fw, fc)" by (cases "flushDataFrame True (w\<lparr>mw_closed := True\<rparr>) c")
  show ?thesis
    using assms wf fl writeFrame_onlyOut [OF wf] flush_onlyOut(1) [OF fl]
    by (auto simp: mw_Close_def Let_def split: if_splits option.splits)
qed

lemma WriteMessage_onlyOut:
  assumes "WriteMessage op p c = (e, c')"
  shows "onlyOut c c'"
proof (cases "NextWriter op c")
  case (Inl x)
  then show ?thesis using assms by (simp add: WriteMessage_def)
next
  case (Inr ow)
  show ?thesis
  proof (cases ow)
    case None
    then show ?thesis using assms Inr by (simp add: WriteMessage_def)
  next
    case (Some w)
    obtain n we w1 c1 where w: "mw_Write p w c = (n, we, w1, c1)" by (cases "mw_Write p w c")
    obtain ce w2 c2 where cl: "mw_Close (if p = [] then w else w1) (if p = [] then c else c1) = (ce, w2, c2)"
      by (cases "mw_Close (if p = [] then w else w1) (if p = [] then c else c1)")
    have "c' = c2" using assms Inr Some w cl by (cases "p = []"; cases we) (auto simp: WriteMessage_def)
    moreover have "onlyOut (if p = [] then c else c1) c2" by (rule mw_Close_onlyOut [OF cl])
    moreover have "onlyOut c (if p = [] then c else c1)" using mw_Write_onlyOut [OF w] by simp
    ultimately show ?thesis using onlyOut_trans by blast
  qed
qed

lemma WriteMessage_snd: "onlyOut c (snd (WriteMessage op p c))"
  by (rule WriteMessage_onlyOut [of op p c "fst (WriteMessage op p c)"]) simp

lemma CloseWithStatus_onlyOut: "onlyOut c (snd (CloseWithStatus code reason c))"
  by (simp add: CloseWithStatus_def Let_def WriteMessage_snd)

lemma bindR_Inr: "bindR r k = (Inr b, c') \<longleftrightarrow> (\<exists>a c. r = (Inr a, c) \<and> k a c = (Inr b, c'))"
  by (auto simp: bindR_def split: prod.splits sum.splits)

lemma failR_Inr [simp]: "failR e code reason c \<noteq> (Inr b, c')"
  by (simp add: failR_def)

lemma readFull_Inr:
  "readFull k c = (Inr bs, c') \<longleftrightarrow> k \<le> length (ws_in c) \<and> bs = take k (ws_in c) \<and> c' = c\<lparr>ws_in := drop k (ws_in c)\<rparr>"
  by (auto simp: readFull_def)

text \<open>Reading removes a front part of the input and changes nothing else.\<close>

definition consumed :: "nat \<Rightarrow> 'e Conn \<Rightarrow> 'e Conn \<Rightarrow> bool" where
  "consumed k c c' \<longleftrightarrow> (\<exists>n. k \<le> n \<and> n \<le> length (ws_in c) \<and> c' = c\<lparr>ws_in := drop n (ws_in c)\<rparr>)"

lemma consumed_refl [simp]: "consumed 0 c c"
  unfolding consumed_def by (intro exI [of _ 0]) simp

lemma consumed_trans: "consumed i a b \<Longrightarrow> consumed j b c \<Longrightarrow> consumed (i + j) a c"
proof -
  assume "consumed i a b" "consumed j b c"
  then obtain m n where "i \<le> m" "m \<le> length (ws_in a)" "b = a\<lparr>ws_in := drop m (ws_in a)\<rparr>"
    "j \<le> n" "n \<le> length (ws_in b)" "c = b\<lparr>ws_in := drop n (ws_in b)\<rparr>" unfolding consumed_def by blast
  then show "consumed (i + j) a c" unfolding consumed_def by (intro exI [of _ "n + m"]) (auto simp: add.commute)
qed

lemma readFull_consumed: "readFull k c = (Inr bs, c') \<Longrightarrow> consumed k c c' \<and> length bs = k"
  by (auto simp: readFull_Inr consumed_def)

lemma frameLength_consumed: "frameLength n c = (Inr len, c') \<Longrightarrow> consumed 0 c c'"
  by (auto simp: frameLength_def bindR_Inr split: if_splits dest!: readFull_consumed)
     (auto simp: consumed_def)

lemma length_unmask [simp]: "length (unmask key payload) = length payload"
  by (simp add: unmask_def)

lemma readPayload_consumed:
  assumes "readPayload fin op len c = (Inr f, c')"
  shows "consumed (4 + length (snd (snd f))) c c'"
proof -
  obtain key c1 where k: "readFull 4 c = (Inr key, c1)"
    and r: "(if len > 0 then bindR (readFull len c1) (\<lambda>payload c. (Inr (fin, op, unmask key payload), c)) else (Inr (fin, op, []), c1)) = (Inr f, c')"
    using assms unfolding readPayload_def bindR_Inr by blast
  have "consumed (length (snd (snd f))) c1 c'"
    using r by (auto simp: bindR_Inr split: if_splits dest!: readFull_consumed)
  then show ?thesis using consumed_trans [of 4 c c1] readFull_consumed [OF k] by simp
qed

lemma readFrame_consumed:
  assumes "readFrame c = (Inr f, c')"
  shows "consumed (6 + length (snd (snd f))) c c' \<and> \<not> ws_closed c"
proof -
  have nc: "\<not> ws_closed c" using assms by (auto simp: readFrame_def split: if_splits)
  obtain head c1 len c2 fin op where h: "readFull 2 c = (Inr head, c1)"
    and l: "frameLength (unat (head ! 1 AND 0x7f)) c1 = (Inr len, c2)" and p: "readPayload fin op len c2 = (Inr f, c')"
    using assms nc unfolding readFrame_def by (auto simp: bindR_Inr Let_def split: if_splits)
  have "consumed (2 + 0) c c2" using consumed_trans readFull_consumed [OF h] frameLength_consumed [OF l] by blast
  from consumed_trans [OF this readPayload_consumed [OF p]] show ?thesis using nc by simp
qed

lemma readFrame_shorter:
  "readFrame c = (Inr f, c') \<Longrightarrow> length (snd (snd f)) + 6 + length (ws_in c') \<le> length (ws_in c)"
  using readFrame_consumed [of c f c'] by (auto simp: consumed_def)

section \<open>The message reader\<close>

record MessageReader =
  mr_op :: byte
  mr_payload :: bytes
  mr_offset :: nat
  mr_fragments :: int
  mr_total :: int
  mr_final :: bool
  mr_finished :: bool
  mr_closed :: bool
  mr_tail :: bytes

definition newReader :: MessageReader where
  "newReader = \<lparr>mr_op = 0, mr_payload = [], mr_offset = 0, mr_fragments = 0, mr_total = 0,
     mr_final = False, mr_finished = False, mr_closed = False, mr_tail = []\<rparr>"

text \<open>
  Every read of the clock happens after the last byte of a frame, so the clock is a function of the
  number of bytes still unread.
\<close>

definition markPong :: "(nat \<Rightarrow> int) \<Rightarrow> 'e Conn \<Rightarrow> 'e Conn" where
  "markPong clk c = c\<lparr>lastPong := clk (length (ws_in c))\<rparr>"

lemma markPong_in [simp]: "ws_in (markPong clk c) = ws_in c"
  by (simp add: markPong_def)

text \<open>The answer to a close frame, common to both frame loops.\<close>

definition onCloseFrame :: "bytes \<Rightarrow> 'e Conn \<Rightarrow> 'e ws_error \<times> 'e Conn" where
  "onCloseFrame payload c =
     (if \<not> validClosePayload payload
      then (ErrWebSocketProtocol, snd (CloseWithStatus CloseProtocolError (s2b ''bad close frame'') c))
      else (case parseClosePayload payload of (code, reason) \<Rightarrow>
        (CloseErr code reason, snd (WriteMessage Close payload c))))"

lemma onlyOut_in: "onlyOut c c' \<Longrightarrow> ws_in c' = ws_in c"
  by (rule onlyOut_fields(1))

lemma answered_shorter:
  assumes "(Inr f, c1) = readFrame c" and "(None, c2) = WriteMessage op p c1"
  shows "length (ws_in c2) < length (ws_in c)"
  using readFrame_shorter [OF assms(1) [symmetric]] onlyOut_in [OF WriteMessage_onlyOut [OF assms(2) [symmetric]]]
  by simp

lemma skipped_shorter: "(Inr f, c1) = readFrame c \<Longrightarrow> length (ws_in c1) < length (ws_in c)"
  using readFrame_shorter [of c f c1] by simp

function prepareFirstFrame :: "(nat \<Rightarrow> int) \<Rightarrow> MessageReader \<Rightarrow> 'e Conn \<Rightarrow> ('e ws_error + byte) \<times> MessageReader \<times> 'e Conn" where
  "prepareFirstFrame clk r c =
     (case readFrame c of
        (Inl e, c) \<Rightarrow> (Inl e, r, c)
      | (Inr (fin, op, payload), c) \<Rightarrow>
        if op = Ping then
          (case WriteMessage Pong payload c of
             (Some e, c) \<Rightarrow> (Inl e, r, c)
           | (None, c) \<Rightarrow> prepareFirstFrame clk r c)
        else if op = Pong then prepareFirstFrame clk r (markPong clk c)
        else if op = Close then (case onCloseFrame payload c of (e, c) \<Rightarrow> (Inl e, r, c))
        else if op = Text \<or> op = Binary then
          (let r = r\<lparr>mr_op := op, mr_fragments := 1, mr_payload := payload, mr_offset := 0,
                     mr_total := int (length payload), mr_final := fin\<rparr> in
           if maxMessage c > 0 \<and> mr_total r > maxMessage c
           then (Inl ErrWebSocketTooLarge, r, snd (CloseWithStatus CloseMessageTooBig (s2b ''message too large'') c))
           else (Inr op, r, c))
        else if op = Continuation
        then (Inl ErrWebSocketProtocol, r, snd (CloseWithStatus CloseProtocolError (s2b ''unexpected continuation'') c))
        else (Inl ErrWebSocketProtocol, r, snd (CloseWithStatus CloseProtocolError (s2b ''bad opcode'') c)))"
  by pat_completeness auto

termination
  by (relation "measure (\<lambda>(clk, r, c). length (ws_in c))") (auto dest: answered_shorter skipped_shorter)

declare prepareFirstFrame.simps [simp del]

function nextContinuationFrame :: "(nat \<Rightarrow> int) \<Rightarrow> MessageReader \<Rightarrow> 'e Conn \<Rightarrow> 'e ws_error option \<times> MessageReader \<times> 'e Conn" where
  "nextContinuationFrame clk r c =
     (case readFrame c of
        (Inl e, c) \<Rightarrow> (Some e, r, c)
      | (Inr (fin, op, payload), c) \<Rightarrow>
        if op = Ping then
          (case WriteMessage Pong payload c of
             (Some e, c) \<Rightarrow> (Some e, r, c)
           | (None, c) \<Rightarrow> nextContinuationFrame clk r c)
        else if op = Pong then nextContinuationFrame clk r (markPong clk c)
        else if op = Close then (case onCloseFrame payload c of (e, c) \<Rightarrow> (Some e, r, c))
        else if op = Continuation then
          (let r = r\<lparr>mr_fragments := mr_fragments r + 1\<rparr> in
           if maxFragments c > 0 \<and> mr_fragments r > maxFragments c
           then (Some ErrWebSocketTooLarge, r, snd (CloseWithStatus CloseMessageTooBig (s2b ''too many fragments'') c))
           else
             (let r = r\<lparr>mr_total := mr_total r + int (length payload)\<rparr> in
              if maxMessage c > 0 \<and> mr_total r > maxMessage c
              then (Some ErrWebSocketTooLarge, r, snd (CloseWithStatus CloseMessageTooBig (s2b ''message too large'') c))
              else (None, r\<lparr>mr_payload := payload, mr_offset := 0, mr_final := fin\<rparr>, c)))
        else if op = Text \<or> op = Binary
        then (Some ErrWebSocketProtocol, r,
              snd (CloseWithStatus CloseProtocolError (s2b ''new data frame before final continuation'') c))
        else (Some ErrWebSocketProtocol, r, snd (CloseWithStatus CloseProtocolError (s2b ''bad opcode'') c)))"
  by pat_completeness auto

termination
  by (relation "measure (\<lambda>(clk, r, c). length (ws_in c))") (auto dest: answered_shorter skipped_shorter)

declare nextContinuationFrame.simps [simp del]

lemma nextContinuationFrame_shorter:
  "nextContinuationFrame clk r c = (None, r', c') \<Longrightarrow>
     length (mr_payload r') + 6 + length (ws_in c') \<le> length (ws_in c) \<and> mr_offset r' = 0"
proof (induction clk r c rule: nextContinuationFrame.induct)
  case (1 clk r c)
  obtain fin op payload c1 where f: "readFrame c = (Inr (fin, op, payload), c1)"
    using "1.prems" by (subst (asm) nextContinuationFrame.simps) (auto split: prod.splits sum.splits)
  have le: "length payload + 6 + length (ws_in c1) \<le> length (ws_in c)" using readFrame_shorter [OF f] by simp
  consider "op = Ping" | "op \<noteq> Ping" "op = Pong" | "op \<noteq> Ping" "op \<noteq> Pong" by blast
  then show ?case
  proof cases
    case 1
    obtain c2 where w: "WriteMessage Pong payload c1 = (None, c2)" and n: "nextContinuationFrame clk r c2 = (None, r', c')"
      using "1.prems" f 1 by (subst (asm) nextContinuationFrame.simps) (auto split: prod.splits option.splits)
    from "1.IH"(1) [OF f [symmetric] refl refl refl 1 w [symmetric] refl n] show ?thesis
      using le onlyOut_in [OF WriteMessage_onlyOut [OF w]] by simp
  next
    case 2
    then have n: "nextContinuationFrame clk r (markPong clk c1) = (None, r', c')"
      using "1.prems" f by (subst (asm) nextContinuationFrame.simps) simp
    from "1.IH"(2) [OF f [symmetric] refl refl refl 2 n] show ?thesis using le by simp
  next
    case 3
    then show ?thesis
      using "1.prems" f le by (subst (asm) nextContinuationFrame.simps) (auto simp: Let_def split: if_splits prod.splits)
  qed
qed

definition emitError :: "'e ws_error \<Rightarrow> 'e Conn \<Rightarrow> 'e Conn" where
  "emitError e c = c\<lparr>errors := errors c @ [e]\<rparr>"

definition allowMessage :: "int \<Rightarrow> 'e Conn \<Rightarrow> bool \<times> 'e Conn" where
  "allowMessage now c =
     (if rateLimit c \<le> 0 then (True, c)
      else
        (let c = (if (case rateWindowStart c of None \<Rightarrow> True | Some t \<Rightarrow> now - t \<ge> 1000000000)
                  then c\<lparr>rateWindowStart := Some now, rateCount := 0\<rparr> else c);
             c = c\<lparr>rateCount := rateCount c + 1\<rparr> in
         (rateCount c \<le> rateLimit c, c)))"

definition finishMessage :: "(nat \<Rightarrow> int) \<Rightarrow> MessageReader \<Rightarrow> 'e Conn \<Rightarrow> 'e ws_error option \<times> MessageReader \<times> 'e Conn" where
  "finishMessage clk r c =
     (if mr_finished r then (None, r, c)
      else
        (let r = r\<lparr>mr_finished := True\<rparr> in
         if mr_op r = Text \<and> \<not> utf8_Finish (mr_tail r)
         then (Some ErrWebSocketProtocol, r, snd (CloseWithStatus CloseInvalidFramePayloadData (s2b ''invalid utf-8'') c))
         else
           (case allowMessage (clk (length (ws_in c))) c of
              (False, c) \<Rightarrow> (Some ErrWebSocketRateLimit, r, snd (CloseWithStatus ClosePolicyViolation (s2b ''message rate exceeded'') c))
            | (True, c) \<Rightarrow> (None, r, c\<lparr>messages := messages c @ [(mr_op r, mr_total r)]\<rparr>))))"

text \<open>\<open>Read\<close> into a buffer of \<open>k\<close> bytes: the bytes stored, the error, and the new states.\<close>

function mr_Read_loop :: "(nat \<Rightarrow> int) \<Rightarrow> nat \<Rightarrow> MessageReader \<Rightarrow> 'e Conn \<Rightarrow> bytes \<times> 'e ws_error option \<times> MessageReader \<times> 'e Conn" where
  "mr_Read_loop clk k r c =
     (if mr_offset r < length (mr_payload r) then
        (let chunk = take k (drop (mr_offset r) (mr_payload r)); r = r\<lparr>mr_offset := mr_offset r + length chunk\<rparr> in
         if mr_op r = Text then
           (case utf8_Write (mr_tail r) chunk of
              (False, t) \<Rightarrow> ([], Some ErrWebSocketProtocol, r\<lparr>mr_tail := t\<rparr>,
                emitError ErrWebSocketProtocol (snd (CloseWithStatus CloseInvalidFramePayloadData (s2b ''invalid utf-8'') c)))
            | (True, t) \<Rightarrow> (chunk, None, r\<lparr>mr_tail := t\<rparr>, c))
         else (chunk, None, r, c))
      else if mr_final r then
        (case finishMessage clk r c of
           (Some e, r, c) \<Rightarrow> ([], Some e, r, emitError e c)
         | (None, r, c) \<Rightarrow> ([], Some WsEOF, r, c))
      else
        (case nextContinuationFrame clk r c of
           (Some e, r, c) \<Rightarrow> ([], Some e, r, emitError e c)
         | (None, r, c) \<Rightarrow> mr_Read_loop clk k r c))"
  by pat_completeness auto

termination
  by (relation "measure (\<lambda>(clk, k, r, c). length (ws_in c))") (auto dest!: nextContinuationFrame_shorter [OF sym])

declare mr_Read_loop.simps [simp del]

definition mr_Read :: "(nat \<Rightarrow> int) \<Rightarrow> nat \<Rightarrow> MessageReader \<Rightarrow> 'e Conn \<Rightarrow> bytes \<times> 'e ws_error option \<times> MessageReader \<times> 'e Conn" where
  "mr_Read clk k r c =
     (if mr_closed r then ([], Some ErrWebSocketClosed, r, c)
      else if k = 0 then ([], None, r, c)
      else mr_Read_loop clk k r c)"

function mr_drain :: "(nat \<Rightarrow> int) \<Rightarrow> MessageReader \<Rightarrow> 'e Conn \<Rightarrow> 'e ws_error option \<times> MessageReader \<times> 'e Conn" where
  "mr_drain clk r c =
     (if mr_final r then (None, r, c)
      else (case nextContinuationFrame clk r c of
          (Some e, r, c) \<Rightarrow> (Some e, r, c)
        | (None, r, c) \<Rightarrow> mr_drain clk r c))"
  by pat_completeness auto

termination
  by (relation "measure (\<lambda>(clk, r, c). length (ws_in c))") (auto dest!: nextContinuationFrame_shorter [OF sym])

declare mr_drain.simps [simp del]

definition mr_Close :: "(nat \<Rightarrow> int) \<Rightarrow> MessageReader \<Rightarrow> 'e Conn \<Rightarrow> 'e ws_error option \<times> MessageReader \<times> 'e Conn" where
  "mr_Close clk r c =
     (if mr_closed r then (None, r, c)
      else
        (let r = r\<lparr>mr_closed := True\<rparr> in
         if mr_finished r then (None, r, c)
         else
           (case mr_drain clk r c of
              (Some e, r, c) \<Rightarrow> (Some e, r, c)
            | (None, r, c) \<Rightarrow>
              if mr_offset r < length (mr_payload r) then
                (case (if mr_op r = Text then utf8_Write (mr_tail r) (drop (mr_offset r) (mr_payload r)) else (True, mr_tail r)) of
                   (False, t) \<Rightarrow> (Some ErrWebSocketProtocol, r\<lparr>mr_tail := t\<rparr>,
                     snd (CloseWithStatus CloseInvalidFramePayloadData (s2b ''invalid utf-8'') c))
                 | (True, t) \<Rightarrow> finishMessage clk (r\<lparr>mr_tail := t, mr_offset := length (mr_payload r)\<rparr>) c)
              else finishMessage clk r c)))"

definition NextReader :: "(nat \<Rightarrow> int) \<Rightarrow> 'e Conn \<Rightarrow> ('e ws_error + byte \<times> MessageReader) \<times> 'e Conn" where
  "NextReader clk c =
     (if ws_closed c then (Inl ErrWebSocketClosed, c)
      else (case prepareFirstFrame clk newReader c of
          (Inl e, r, c) \<Rightarrow> (Inl e, emitError e c)
        | (Inr op, r, c) \<Rightarrow> (Inr (op, r), c)))"

text \<open>What is still to be delivered: the rest of the current frame and the unread input.\<close>

abbreviation pending :: "MessageReader \<Rightarrow> 'e Conn \<Rightarrow> nat" where
  "pending r c \<equiv> length (ws_in c) + (length (mr_payload r) - mr_offset r)"

lemma mr_Read_loop_progress:
  "0 < k \<Longrightarrow> mr_Read_loop clk k r c = (bs, None, r', c') \<Longrightarrow> pending r' c' < pending r c"
proof (induction clk k r c rule: mr_Read_loop.induct)
  case (1 clk k r c)
  consider "mr_offset r < length (mr_payload r)" | "\<not> mr_offset r < length (mr_payload r)" "mr_final r"
    | "\<not> mr_offset r < length (mr_payload r)" "\<not> mr_final r" by blast
  then show ?case
  proof cases
    case 1
    then show ?thesis using "1.prems"
      by (subst (asm) mr_Read_loop.simps) (auto simp: Let_def split: if_splits prod.splits bool.splits)
  next
    case 2
    then show ?thesis using "1.prems"
      by (subst (asm) mr_Read_loop.simps) (auto split: prod.splits option.splits)
  next
    case 3
    obtain r1 c1 where n: "nextContinuationFrame clk r c = (None, r1, c1)" and l: "mr_Read_loop clk k r1 c1 = (bs, None, r', c')"
      using "1.prems"(2) 3 by (subst (asm) mr_Read_loop.simps) (auto split: prod.splits option.splits)
    have "pending r' c' < pending r1 c1" by (rule "1.IH" [OF 3 n [symmetric] refl refl "1.prems"(1) l])
    moreover have "pending r1 c1 < pending r c" using nextContinuationFrame_shorter [OF n] by simp
    ultimately show ?thesis by simp
  qed
qed

lemma mr_Read_progress: "mr_Read clk (Suc k) r c = (bs, None, r', c') \<Longrightarrow> pending r' c' < pending r c"
  by (auto simp: mr_Read_def split: if_splits intro: mr_Read_loop_progress [of "Suc k"])

text \<open>\<open>io.ReadAll\<close>: with \<open>n\<close> bytes read its buffer has room for \<open>Suc (room n)\<close> more.\<close>

function readAll :: "(nat \<Rightarrow> int) \<Rightarrow> (nat \<Rightarrow> nat) \<Rightarrow> bytes \<Rightarrow> MessageReader \<Rightarrow> 'e Conn
    \<Rightarrow> bytes \<times> 'e ws_error option \<times> MessageReader \<times> 'e Conn" where
  "readAll clk room acc r c =
     (case mr_Read clk (Suc (room (length acc))) r c of
        (bs, Some e, r, c) \<Rightarrow> (acc @ bs, case e of WsEOF \<Rightarrow> None | _ \<Rightarrow> Some e, r, c)
      | (bs, None, r, c) \<Rightarrow> readAll clk room (acc @ bs) r c)"
  by pat_completeness auto

termination
  by (relation "measure (\<lambda>(clk, room, acc, r, c). pending r c)") (auto dest!: mr_Read_progress [OF sym])

declare readAll.simps [simp del]

definition ReadMessage :: "(nat \<Rightarrow> int) \<Rightarrow> (nat \<Rightarrow> nat) \<Rightarrow> 'e Conn \<Rightarrow> ('e ws_error + byte \<times> bytes) \<times> 'e Conn" where
  "ReadMessage clk room c =
     (case NextReader clk c of
        (Inl e, c) \<Rightarrow> (Inl e, c)
      | (Inr (op, r), c) \<Rightarrow>
          (case readAll clk room [] r c of
             (payload, e, r, c) \<Rightarrow>
               (let c = snd (snd (mr_Close clk r c)) in
                case e of Some e \<Rightarrow> (Inl e, c) | None \<Rightarrow> (Inr (op, payload), c))))"

end
