(* ===== verification/Ws_Message.thy ===== *)
theory Ws_Message
  imports Ws_Read
begin

text \<open>
  What a client sends arrives: masked frames are read back with any masking keys, and a fragmented
  message with control frames between its fragments is delivered whole, whatever buffer sizes
  \<open>io.ReadAll\<close> uses.
\<close>

section \<open>Masked frames\<close>

text \<open>A client's frame (RFC 6455, 5.2): the masking bit, the key, and the payload masked with the
  bytes of the key in turn.\<close>

fun masked :: "bytes \<Rightarrow> bytes \<Rightarrow> bytes" where
  "masked key [] = []"
| "masked key (b # bs) = (b XOR hd key) # masked (rotate1 key) bs"

fun maskedBytes :: "bytes \<Rightarrow> frame \<Rightarrow> bytes" where
  "maskedBytes key (fin, op, payload) =
     (let head = frameHead fin op (length payload) in
      head ! 0 # (0x80 OR head ! 1) # drop 2 head @ key @ masked key payload)"

lemma length_masked [simp]: "length (masked key payload) = length payload"
  by (induction key payload rule: masked.induct) simp_all

lemma masked_nth: "length key = 4 \<Longrightarrow> i < length payload \<Longrightarrow> masked key payload ! i = payload ! i XOR key ! (i mod 4)"
proof (induction key payload arbitrary: i rule: masked.induct)
  case (2 key b bs)
  show ?case
  proof (cases i)
    case 0
    have "key \<noteq> []" using "2.prems"(1) by auto
    then show ?thesis using 0 by (simp add: hd_conv_nth)
  next
    case (Suc j)
    then have "masked (rotate1 key) bs ! j = bs ! j XOR rotate1 key ! (j mod 4)" using 2 by simp
    also have "rotate1 key ! (j mod 4) = key ! (Suc j mod 4)"
      using "2.prems"(1) nth_rotate1 [of "j mod 4" key] by (simp add: mod_Suc_eq)
    finally show ?thesis using Suc by simp
  qed
qed simp

lemma unmask_masked [simp]: "length key = 4 \<Longrightarrow> unmask key (masked key payload) = payload"
  by (rule nth_equalityI) (simp_all add: unmask_def nth_enumerate_eq masked_nth xor.assoc)

lemma putBE_Suc: "putBE (Suc k) n = putBE k (n div 256) @ [of_nat n]"
  by (auto simp: putBE_def div_mult2_eq [symmetric] Suc_diff_Suc simp flip: power_Suc)

lemma getBE_putBE: "n < 256 ^ k \<Longrightarrow> getBE (putBE k n) = n"
proof (induction k arbitrary: n)
  case (Suc k)
  then have "getBE (putBE k (n div 256)) = n div 256" by (simp add: less_mult_imp_div_less mult.commute)
  then show ?case by (simp add: putBE_Suc getBE_def unsigned_of_nat take_bit_eq_mod)
qed (simp add: putBE_def getBE_def)

lemma length_putBE [simp]: "length (putBE k n) = k"
  by (simp add: putBE_def)

lemma opcode_bits:
  assumes "op \<in> set [Continuation, Text, Binary, Close, Ping, Pong]"
  shows "(0x80 OR op) AND 0x80 \<noteq> 0" "op AND 0x80 = 0" "(0x80 OR op) AND 0x0f = op" "op AND 0x0f = op"
    "(0x80 OR op) AND 0x70 = 0" "op AND 0x70 = 0"
proof -
  have "\<forall>op \<in> set [Continuation, Text, Binary, Close, Ping, Pong]. (0x80 OR op) AND 0x80 \<noteq> 0 \<and> op AND 0x80 = 0
    \<and> (0x80 OR op) AND 0x0f = op \<and> op AND 0x0f = op \<and> (0x80 OR op) AND 0x70 = 0 \<and> op AND 0x70 = 0" by code_simp
  with assms show "(0x80 OR op) AND 0x80 \<noteq> 0" "op AND 0x80 = 0" "(0x80 OR op) AND 0x0f = op" "op AND 0x0f = op"
    "(0x80 OR op) AND 0x70 = 0" "op AND 0x70 = 0" by blast+
qed

lemma len7_bits:
  assumes "n < 128"
  shows "(0x80 OR of_nat n :: byte) AND 0x80 \<noteq> 0" "unat ((0x80 OR of_nat n :: byte) AND 0x7f) = n"
proof -
  have "\<forall>i \<in> set [0..<128]. (0x80 OR of_nat i :: byte) AND 0x80 \<noteq> 0 \<and> unat ((0x80 OR of_nat i :: byte) AND 0x7f) = i"
    by code_simp
  then have "\<forall>i < 128. (0x80 OR of_nat i :: byte) AND 0x80 \<noteq> 0 \<and> unat ((0x80 OR of_nat i :: byte) AND 0x7f) = i"
    unfolding set_upt atLeast0LessThan by blast
  with assms show "(0x80 OR of_nat n :: byte) AND 0x80 \<noteq> 0" "unat ((0x80 OR of_nat n :: byte) AND 0x7f) = n" by blast+
qed

definition len7 :: "nat \<Rightarrow> nat" where
  "len7 n = (if n < 126 then n else if n \<le> 65535 then 126 else 127)"

definition lenExt :: "nat \<Rightarrow> bytes" where
  "lenExt n = (if n < 126 then [] else if n \<le> 65535 then putBE 2 n else putBE 8 n)"

lemma frameHead_len: "frameHead fin op n = (if fin then 0x80 OR op else op) # of_nat (len7 n) # lenExt n"
  by (simp add: frameHead_def len7_def lenExt_def)

lemma readFull_append: "length bs = k \<Longrightarrow> ws_in c = bs @ rest \<Longrightarrow> readFull k c = (Inr bs, c\<lparr>ws_in := rest\<rparr>)"
  by (auto simp: readFull_def)

lemma frameLength_ok:
  assumes "n < 2 ^ 63" "ws_in c = lenExt n @ rest"
  shows "frameLength (len7 n) c = (Inr n, c\<lparr>ws_in := rest\<rparr>)"
proof -
  consider "n < 126" | "\<not> n < 126" "n \<le> 65535" | "\<not> n \<le> 65535" by linarith
  then show ?thesis
  proof cases
    case 1
    then show ?thesis using assms(2) by (simp add: frameLength_def len7_def lenExt_def)
  next
    case 2
    then have "readFull 2 c = (Inr (putBE 2 n), c\<lparr>ws_in := rest\<rparr>)" "getBE (putBE 2 n) = n"
      using assms(2) by (auto intro!: readFull_append getBE_putBE simp: lenExt_def)
    then show ?thesis using 2 by (simp add: frameLength_def len7_def bindR_def)
  next
    case 3
    then have "readFull 8 c = (Inr (putBE 8 n), c\<lparr>ws_in := rest\<rparr>)" "getBE (putBE 8 n) = n"
      using assms by (auto intro!: readFull_append getBE_putBE simp: lenExt_def)
    then show ?thesis using 3 assms(1) by (simp add: frameLength_def len7_def bindR_def)
  qed
qed

lemma readPayload_ok:
  assumes "length key = 4" "ws_in c = key @ masked key payload @ rest"
  shows "readPayload fin op (length payload) c = (Inr (fin, op, payload), c\<lparr>ws_in := rest\<rparr>)"
proof -
  have k: "readFull 4 c = (Inr key, c\<lparr>ws_in := masked key payload @ rest\<rparr>)" by (rule readFull_append [OF assms])
  have p: "readFull (length payload) (c\<lparr>ws_in := masked key payload @ rest\<rparr>) = (Inr (masked key payload), c\<lparr>ws_in := rest\<rparr>)"
    by (subst readFull_append [where bs = "masked key payload" and rest = rest]) simp_all
  show ?thesis
  proof (cases "payload = []")
    case True
    then have "masked key payload = []" by simp
    with True show ?thesis using k by (simp add: readPayload_def bindR_def)
  next
    case False
    then show ?thesis using assms(1) by (simp add: readPayload_def bindR_def k p)
  qed
qed

text \<open>A frame the connection's limits allow.\<close>

fun frameAllowed :: "'e Conn \<Rightarrow> frame \<Rightarrow> bool" where
  "frameAllowed c (fin, op, payload) \<longleftrightarrow>
     op \<in> set [Continuation, Text, Binary, Close, Ping, Pong] \<and> (op \<ge> 0x8 \<longrightarrow> fin \<and> length payload \<le> 125)
     \<and> (maxFrame c > 0 \<longrightarrow> int (length payload) \<le> maxFrame c)
     \<and> (maxMessage c > 0 \<longrightarrow> int (length payload) \<le> maxMessage c) \<and> length payload < 2 ^ 63"

lemma readFrame_masked:
  assumes "\<not> ws_closed c" "ws_in c = maskedBytes key f @ rest" "length key = 4" "frameAllowed c f"
  shows "readFrame c = (Inr f, c\<lparr>ws_in := rest\<rparr>)"
proof -
  obtain fin op payload where f: "f = (fin, op, payload)" by (cases f)
  let ?n = "length payload"
  have op: "op \<in> set [Continuation, Text, Binary, Close, Ping, Pong]" and ctl: "\<not> (op \<ge> 0x8 \<and> (\<not> fin \<or> ?n > 125))"
    and mf: "\<not> (maxFrame c > 0 \<and> int ?n > maxFrame c)" and mm: "\<not> (maxMessage c > 0 \<and> int ?n > maxMessage c)"
    and n: "?n < 2 ^ 63"
    using assms(4) unfolding f by auto
  define b0 where "b0 = (if fin then 0x80 OR op else op)"
  define b1 where "b1 = (0x80 OR of_nat (len7 ?n) :: byte)"
  have bits: "(b0 AND 0x80 = 0) = (\<not> fin)" "b0 AND 0x0f = op" "b0 AND 0x70 = 0" using opcode_bits [OF op] by (simp_all add: b0_def)
  have "len7 ?n < 128" by (simp add: len7_def)
  from len7_bits [OF this] have b1: "b1 AND 0x80 \<noteq> 0" "unat (b1 AND 0x7f) = len7 ?n" by (simp_all add: b1_def)
  have "ws_in c = [b0, b1] @ lenExt ?n @ key @ masked key payload @ rest"
    using assms(2) by (simp add: f frameHead_len Let_def b0_def b1_def)
  then have h: "readFull 2 c = (Inr [b0, b1], c\<lparr>ws_in := lenExt ?n @ key @ masked key payload @ rest\<rparr>)"
    by (intro readFull_append) simp_all
  have l: "frameLength (len7 ?n) (c\<lparr>ws_in := lenExt ?n @ key @ masked key payload @ rest\<rparr>)
      = (Inr ?n, c\<lparr>ws_in := key @ masked key payload @ rest\<rparr>)"
    by (subst frameLength_ok [OF n, of _ "key @ masked key payload @ rest"]) simp_all
  have p: "readPayload fin op ?n (c\<lparr>ws_in := key @ masked key payload @ rest\<rparr>) = (Inr f, c\<lparr>ws_in := rest\<rparr>)"
    unfolding f by (subst readPayload_ok [OF assms(3), of _ payload rest]) simp_all
  have big: "\<not> ?n > 2 ^ 63 - 1" using n by simp
  have lim: "maxFrame (c\<lparr>ws_in := x\<rparr>) = maxFrame c" "maxMessage (c\<lparr>ws_in := x\<rparr>) = maxMessage c" for x by simp_all
  show ?thesis
    unfolding readFrame_def h
    using assms(1) op ctl mf mm big
    by (simp only: bindR_def prod.case sum.case nth_Cons_0 nth_Cons_Suc One_nat_def bits b1 l p Let_def if_False lim not_not refl HOL.simp_thms)
qed

section \<open>Control frames between fragments\<close>

lemma WriteMessage_Pong:
  assumes "\<not> ws_closed c" "ws_answers c = []" "length p \<le> 125" "maxMessage c > 0 \<longrightarrow> int (length p) \<le> maxMessage c"
  shows "WriteMessage Pong p c = (None, c\<lparr>ws_out := ws_out c @ frameBytes (True, Pong, p)\<rparr>)"
proof -
  have ops: "(8 :: byte) \<le> Pong" "Pong \<noteq> Close" "Pong \<noteq> Text" by code_simp+
  define w where "w = \<lparr>mw_opcode = Pong, mw_first = True, mw_control = True, mw_closed = False, mw_buf = [], mw_total = 0, mw_tail = []\<rparr>"
  have nw: "NextWriter Pong c = Inr (Some w)" using assms(1) ops by (simp add: NextWriter_def w_def)
  have cl: "mw_Close (w\<lparr>mw_buf := b, mw_total := t\<rparr>) c = (None, w\<lparr>mw_buf := b, mw_total := t, mw_closed := True\<rparr>, c\<lparr>ws_out := ws_out c @ frameBytes (True, Pong, b)\<rparr>)" for b t
    using ops by (simp add: mw_Close_def w_def writeFrame_ok [OF assms(2)] del: frameBytes.simps)
  show ?thesis
  proof (cases "p = []")
    case True
    then show ?thesis using cl [where b = "[]" and t = 0] by (simp add: WriteMessage_def nw w_def del: frameBytes.simps)
  next
    case False
    then have "mw_Write p w c = (length p, None, w\<lparr>mw_buf := p, mw_total := int (length p)\<rparr>, c)"
      using assms(3,4) ops by (auto simp: mw_Write_def w_def Let_def)
    with False show ?thesis using cl by (simp add: WriteMessage_def nw del: frameBytes.simps)
  qed
qed

type_synonym keyed_frame = "bytes \<times> frame"

definition keyedBytes :: "keyed_frame list \<Rightarrow> bytes" where
  "keyedBytes kfs = concat (map (\<lambda>(key, f). maskedBytes key f) kfs)"

fun isControl :: "'e Conn \<Rightarrow> keyed_frame \<Rightarrow> bool" where
  "isControl c (key, fin, op, p) \<longleftrightarrow> length key = 4 \<and> (op = Ping \<or> op = Pong) \<and> frameAllowed c (fin, op, p)"

definition pongs :: "keyed_frame list \<Rightarrow> bytes" where
  "pongs kfs = concat (map (\<lambda>(key, fin, op, p). if op = Ping then frameBytes (True, Pong, p) else []) kfs)"

lemma ctl_ops: "(8 :: byte) \<le> Ping" "(8 :: byte) \<le> Pong" "Ping \<noteq> Pong" "Pong \<noteq> Ping"
  by code_simp+

text \<open>
  A control frame at the front of the input is answered or noted, and the loop goes on behind it.
\<close>

definition pastControl :: "(nat \<Rightarrow> int) \<Rightarrow> keyed_frame \<Rightarrow> bytes \<Rightarrow> 'e Conn \<Rightarrow> 'e Conn" where
  "pastControl clk kf rest c = c\<lparr>ws_in := rest, ws_out := ws_out c @ pongs [kf],
     lastPong := (if fst (snd (snd kf)) = Ping then lastPong c else clk (length rest))\<rparr>"

lemma control_step:
  assumes "\<not> ws_closed c" "ws_answers c = []" "ws_in c = keyedBytes (kf # kfs) @ rest" "isControl c kf"
  shows "prepareFirstFrame clk r c = prepareFirstFrame clk r (pastControl clk kf (keyedBytes kfs @ rest) c)"
    "nextContinuationFrame clk r c = nextContinuationFrame clk r (pastControl clk kf (keyedBytes kfs @ rest) c)"
proof -
  obtain key fin op p where kf: "kf = (key, fin, op, p)" by (cases kf)
  let ?c = "c\<lparr>ws_in := keyedBytes kfs @ rest\<rparr>"
  have f: "readFrame c = (Inr (fin, op, p), ?c)"
    using readFrame_masked [of c key "(fin, op, p)" "keyedBytes kfs @ rest"] assms
    by (simp add: kf keyedBytes_def del: maskedBytes.simps)
  have wm: "WriteMessage Pong p ?c = (None, ?c\<lparr>ws_out := ws_out c @ frameBytes (True, Pong, p)\<rparr>)"
    using WriteMessage_Pong [of ?c p] assms ctl_ops by (auto simp: kf simp del: frameBytes.simps)
  have "op = Ping \<or> op = Pong" using assms(4) by (simp add: kf)
  then show "prepareFirstFrame clk r c = prepareFirstFrame clk r (pastControl clk kf (keyedBytes kfs @ rest) c)"
    "nextContinuationFrame clk r c = nextContinuationFrame clk r (pastControl clk kf (keyedBytes kfs @ rest) c)"
    using ctl_ops
    by (auto simp: prepareFirstFrame.simps [of clk r c] nextContinuationFrame.simps [of clk r c] f wm pastControl_def kf pongs_def markPong_def
        simp del: frameBytes.simps)
qed

lemma isControl_cong: "maxFrame c' = maxFrame c \<Longrightarrow> maxMessage c' = maxMessage c \<Longrightarrow> isControl c' kf = isControl c kf"
  by (cases kf) simp

lemma controls_skip:
  assumes "\<not> ws_closed c" "ws_answers c = []" "ws_in c = keyedBytes kfs @ rest" "\<forall>kf \<in> set kfs. isControl c kf"
  shows "\<exists>lp. prepareFirstFrame clk r c = prepareFirstFrame clk r (c\<lparr>ws_in := rest, ws_out := ws_out c @ pongs kfs, lastPong := lp\<rparr>)
    \<and> nextContinuationFrame clk r c = nextContinuationFrame clk r (c\<lparr>ws_in := rest, ws_out := ws_out c @ pongs kfs, lastPong := lp\<rparr>)"
  using assms
proof (induction kfs arbitrary: c)
  case Nil
  then have "c = c\<lparr>ws_in := rest, ws_out := ws_out c @ pongs [], lastPong := lastPong c\<rparr>"
    by (cases c) (simp add: keyedBytes_def pongs_def)
  then show ?case by metis
next
  case (Cons kf kfs)
  define c1 where "c1 = pastControl clk kf (keyedBytes kfs @ rest) c"
  have s: "prepareFirstFrame clk r c = prepareFirstFrame clk r c1" "nextContinuationFrame clk r c = nextContinuationFrame clk r c1"
    unfolding c1_def by (rule control_step [OF Cons.prems(1-3)]; use Cons.prems(4) in simp)+
  have "\<exists>lp. prepareFirstFrame clk r c1 = prepareFirstFrame clk r (c1\<lparr>ws_in := rest, ws_out := ws_out c1 @ pongs kfs, lastPong := lp\<rparr>)
    \<and> nextContinuationFrame clk r c1 = nextContinuationFrame clk r (c1\<lparr>ws_in := rest, ws_out := ws_out c1 @ pongs kfs, lastPong := lp\<rparr>)"
  proof (rule Cons.IH)
    show "\<forall>kf \<in> set kfs. isControl c1 kf" using Cons.prems(4) isControl_cong [of c1 c] by (simp add: c1_def pastControl_def)
  qed (use Cons.prems(1,2) in \<open>simp_all add: c1_def pastControl_def\<close>)
  moreover have "c1\<lparr>ws_in := rest, ws_out := ws_out c1 @ pongs kfs, lastPong := lp\<rparr>
      = c\<lparr>ws_in := rest, ws_out := ws_out c @ pongs (kf # kfs), lastPong := lp\<rparr>" for lp
    by (cases c) (simp add: c1_def pastControl_def pongs_def)
  ultimately show ?case unfolding s by (simp only:)
qed

declare maskedBytes.simps [simp del]

section \<open>Messages\<close>

text \<open>A fragment: the control frames before it, its masking key and its payload.\<close>

type_synonym fragment = "keyed_frame list \<times> bytes \<times> bytes"

abbreviation fragData :: "fragment \<Rightarrow> bytes" where
  "fragData fr \<equiv> snd (snd fr)"

fun wire :: "bool \<Rightarrow> byte \<Rightarrow> fragment list \<Rightarrow> bytes" where
  "wire complete op [] = []"
| "wire complete op ((kfs, key, p) # fs) =
     keyedBytes kfs @ maskedBytes key (complete \<and> fs = [], op, p) @ wire complete Continuation fs"

fun fragAllowed :: "'e Conn \<Rightarrow> fragment \<Rightarrow> bool" where
  "fragAllowed c (kfs, key, p) \<longleftrightarrow>
     (\<forall>kf \<in> set kfs. isControl c kf) \<and> length key = 4 \<and> frameAllowed c (True, Binary, p)"

abbreviation allData :: "fragment list \<Rightarrow> bytes" where
  "allData fs \<equiv> concat (map fragData fs)"

abbreviation allPongs :: "fragment list \<Rightarrow> bytes" where
  "allPongs fs \<equiv> concat (map (\<lambda>fr. pongs (fst fr)) fs)"

text \<open>
  The reader in the middle of a message: \<open>fs\<close> are the fragments still on the wire and \<open>data\<close> the
  bytes still to be delivered. \<open>base\<close> is the connection up to its input, its output and the last
  pong, and \<open>out\<close> and \<open>tot\<close> are what the output and the byte count will be in the end.
\<close>

definition onWire :: "bool \<Rightarrow> 'e Conn \<Rightarrow> bytes \<Rightarrow> bytes \<Rightarrow> fragment list \<Rightarrow> 'e Conn \<Rightarrow> bool" where
  "onWire complete base rest out fs c \<longleftrightarrow>
     (\<exists>o1 lp. c = base\<lparr>ws_in := wire complete Continuation fs @ rest, ws_out := o1, lastPong := lp\<rparr> \<and> o1 @ allPongs fs = out)"

definition reading :: "bool \<Rightarrow> 'e Conn \<Rightarrow> byte \<Rightarrow> bytes \<Rightarrow> bytes \<Rightarrow> int \<Rightarrow> MessageReader \<Rightarrow> 'e Conn \<Rightarrow> fragment list \<Rightarrow> bytes \<Rightarrow> bool" where
  "reading complete base op rest out tot r c fs data \<longleftrightarrow>
     onWire complete base rest out fs c
     \<and> mr_op r = op \<and> (mr_final r \<longleftrightarrow> complete \<and> fs = []) \<and> \<not> mr_closed r \<and> \<not> mr_finished r
     \<and> mr_offset r \<le> length (mr_payload r) \<and> data = drop (mr_offset r) (mr_payload r) @ allData fs
     \<and> mr_total r + int (length (allData fs)) = tot \<and> (maxMessage base > 0 \<longrightarrow> tot \<le> maxMessage base)
     \<and> (maxFragments base > 0 \<longrightarrow> mr_fragments r + int (length fs) \<le> maxFragments base)
     \<and> (op = Text \<longrightarrow> utf8_loop (mr_tail r) = Some (mr_tail r) \<and> utf8_loop (mr_tail r @ data) \<noteq> None
          \<and> (complete \<longrightarrow> utf8_loop (mr_tail r @ data) = Some []))
     \<and> (\<forall>fr \<in> set fs. fragAllowed base fr)"

lemma frameAllowed_data:
  assumes "frameAllowed c (True, Binary, p)" "op = Continuation \<or> op = Text \<or> op = Binary"
    "maxFrame c' = maxFrame c" "maxMessage c' = maxMessage c"
  shows "frameAllowed c' (fin, op, p)"
proof -
  have "\<not> (8 :: byte) \<le> Continuation" "\<not> (8 :: byte) \<le> Text" "\<not> (8 :: byte) \<le> Binary" by code_simp+
  with assms show ?thesis by auto
qed

lemma data_ops: "Continuation \<noteq> Ping" "Continuation \<noteq> Pong" "Continuation \<noteq> Close" "Text \<noteq> Ping" "Text \<noteq> Pong" "Text \<noteq> Close"
  "Binary \<noteq> Ping" "Binary \<noteq> Pong" "Binary \<noteq> Close" "Continuation \<noteq> Text" "Continuation \<noteq> Binary"
  by code_simp+

text \<open>Both frame loops skip the control frames and read the fragment behind them.\<close>

lemma fragment_read:
  assumes "\<not> ws_closed c" "ws_answers c = []" "ws_in c = keyedBytes kfs @ maskedBytes key (fin, op, p) @ rest"
    "fragAllowed c (kfs, key, p)" "op = Continuation \<or> op = Text \<or> op = Binary"
  shows "\<exists>lp c1. prepareFirstFrame clk r c = prepareFirstFrame clk r c1 \<and> nextContinuationFrame clk r c = nextContinuationFrame clk r c1
    \<and> readFrame c1 = (Inr (fin, op, p), c\<lparr>ws_in := rest, ws_out := ws_out c @ pongs kfs, lastPong := lp\<rparr>)"
proof -
  obtain lp where s: "prepareFirstFrame clk r c = prepareFirstFrame clk r (c\<lparr>ws_in := maskedBytes key (fin, op, p) @ rest, ws_out := ws_out c @ pongs kfs, lastPong := lp\<rparr>)"
    "nextContinuationFrame clk r c = nextContinuationFrame clk r (c\<lparr>ws_in := maskedBytes key (fin, op, p) @ rest, ws_out := ws_out c @ pongs kfs, lastPong := lp\<rparr>)"
    using controls_skip [OF assms(1-3), of clk r] assms(4) unfolding fragAllowed.simps by blast
  define c1 where "c1 = c\<lparr>ws_in := maskedBytes key (fin, op, p) @ rest, ws_out := ws_out c @ pongs kfs, lastPong := lp\<rparr>"
  have "readFrame c1 = (Inr (fin, op, p), c1\<lparr>ws_in := rest\<rparr>)"
  proof (rule readFrame_masked)
    show "frameAllowed c1 (fin, op, p)" by (rule frameAllowed_data [of c]) (use assms(4,5) in \<open>simp_all add: c1_def\<close>)
    show "length key = 4" using assms(4) by simp
  qed (use assms(1) in \<open>simp_all add: c1_def\<close>)
  moreover have "c1\<lparr>ws_in := rest\<rparr> = c\<lparr>ws_in := rest, ws_out := ws_out c @ pongs kfs, lastPong := lp\<rparr>" by (simp add: c1_def)
  ultimately show ?thesis using s unfolding c1_def [symmetric] by metis
qed

lemma fragAllowed_cong:
  "maxFrame c' = maxFrame c \<Longrightarrow> maxMessage c' = maxMessage c \<Longrightarrow> fragAllowed c' fr = fragAllowed c fr"
  using isControl_cong [of c' c] by (cases fr) simp

lemma nextContinuationFrame_ok:
  assumes b: "\<not> ws_closed base" "ws_answers base = []"
    and r: "reading complete base op rest out tot r c ((kfs, key, p) # fs) data" and e: "mr_offset r = length (mr_payload r)"
  shows "\<exists>r' c'. nextContinuationFrame clk r c = (None, r', c') \<and> reading complete base op rest out tot r' c' fs data"
proof -
  obtain o1 lp where c: "c = base\<lparr>ws_in := wire complete Continuation ((kfs, key, p) # fs) @ rest, ws_out := o1, lastPong := lp\<rparr>"
    and o1: "o1 @ pongs kfs @ allPongs fs = out"
    using r unfolding reading_def onWire_def by auto
  have fa: "fragAllowed base (kfs, key, p)" using r by (simp add: reading_def)
  obtain lp2 c1 where s: "nextContinuationFrame clk r c = nextContinuationFrame clk r c1"
    and f: "readFrame c1 = (Inr (complete \<and> fs = [], Continuation, p),
      c\<lparr>ws_in := wire complete Continuation fs @ rest, ws_out := ws_out c @ pongs kfs, lastPong := lp2\<rparr>)"
    using fragment_read [of c kfs key "complete \<and> fs = []" Continuation p "wire complete Continuation fs @ rest" clk r]
      b fa fragAllowed_cong [of c base] by (auto simp: c simp del: fragAllowed.simps)
  define c2 where "c2 = c\<lparr>ws_in := wire complete Continuation fs @ rest, ws_out := ws_out c @ pongs kfs, lastPong := lp2\<rparr>"
  define r2 where "r2 = r\<lparr>mr_fragments := mr_fragments r + 1, mr_total := mr_total r + int (length p), mr_payload := p, mr_offset := 0,
     mr_final := complete \<and> fs = []\<rparr>"
  have lim: "\<not> (maxFragments c2 > 0 \<and> mr_fragments r + 1 > maxFragments c2)" "\<not> (maxMessage c2 > 0 \<and> mr_total r + int (length p) > maxMessage c2)"
    using r unfolding reading_def c2_def c by auto
  have "nextContinuationFrame clk r c1 = (None, r2, c2)"
    using lim data_ops by (subst nextContinuationFrame.simps) (simp add: f c2_def [symmetric] Let_def r2_def)
  moreover have "reading complete base op rest out tot r2 c2 fs data"
  proof -
    have "c2 = base\<lparr>ws_in := wire complete Continuation fs @ rest, ws_out := o1 @ pongs kfs, lastPong := lp2\<rparr>" by (simp add: c2_def c)
    then have "onWire complete base rest out fs c2" using o1 unfolding onWire_def by (metis append.assoc)
    then show ?thesis using r e unfolding reading_def r2_def by (clarsimp simp: algebra_simps)
  qed
  ultimately show ?thesis using s by metis
qed

text \<open>A read in the middle of a frame delivers a part of it.\<close>

lemma mr_Read_loop_chunk:
  assumes r: "reading complete base op rest out tot r c fs data" and k: "0 < k" and o: "mr_offset r < length (mr_payload r)"
  shows "\<exists>bs r'. mr_Read_loop clk k r c = (bs, None, r', c) \<and> bs \<noteq> [] \<and>
    (\<exists>data'. data = bs @ data' \<and> reading complete base op rest out tot r' c fs data')"
proof -
  define bs where "bs = take k (drop (mr_offset r) (mr_payload r))"
  define data' where "data' = drop (mr_offset r + length bs) (mr_payload r) @ allData fs"
  define r1 where "r1 = r\<lparr>mr_offset := mr_offset r + length bs\<rparr>"
  have bs: "bs \<noteq> []" using k o by (simp add: bs_def)
  have "drop (mr_offset r) (mr_payload r) = bs @ drop (mr_offset r + length bs) (mr_payload r)"
    using append_take_drop_id [of k "drop (mr_offset r) (mr_payload r)"] by (simp add: bs_def min_def) (simp add: add.commute)
  then have data: "data = bs @ data'" using r by (simp add: reading_def data'_def)
  have le: "mr_offset r + length bs \<le> length (mr_payload r)" using o by (simp add: bs_def)
  show ?thesis
  proof (cases "op = Text")
    case False
    then have "mr_Read_loop clk k r c = (bs, None, r1, c)"
      using r o by (subst mr_Read_loop.simps) (simp add: Let_def bs_def [symmetric] r1_def reading_def)
    moreover have "reading complete base op rest out tot r1 c fs data'"
      using r le False unfolding reading_def r1_def data'_def by simp
    ultimately show ?thesis using bs data by blast
  next
    case True
    have u: "utf8_loop (mr_tail r) = Some (mr_tail r)" "utf8_loop (mr_tail r @ bs @ data') \<noteq> None"
      "complete \<Longrightarrow> utf8_loop (mr_tail r @ bs @ data') = Some []"
      using r True unfolding data [symmetric] reading_def by blast+
    obtain t where t: "utf8_loop (mr_tail r @ bs) = Some t" "utf8_loop (t @ data') = utf8_loop (mr_tail r @ bs @ data')"
      using u(2) utf8_loop_append [of "mr_tail r @ bs" data'] by (auto split: option.splits)
    have tt: "utf8_loop t = Some t" using t(1) utf8_loop_append [of "mr_tail r @ bs" "[]"] by simp
    have "utf8_Write (mr_tail r) bs = (True, t)" using bs t(1) by (auto simp: utf8_Write_def)
    then have "mr_Read_loop clk k r c = (bs, None, r1\<lparr>mr_tail := t\<rparr>, c)"
      using r o True by (subst mr_Read_loop.simps) (simp add: Let_def bs_def [symmetric] r1_def reading_def)
    moreover have "reading complete base op rest out tot (r1\<lparr>mr_tail := t\<rparr>) c fs data'"
      using r le True t(2) tt u unfolding reading_def r1_def data'_def by simp
    ultimately show ?thesis using bs data by blast
  qed
qed

text \<open>How the reading of a message ends: after the final frame, or with the connection before it.\<close>

definition atEnd :: "(nat \<Rightarrow> int) \<Rightarrow> bool \<Rightarrow> 'e Conn \<Rightarrow> byte \<Rightarrow> bytes \<Rightarrow> bytes \<Rightarrow> int \<Rightarrow> MessageReader \<Rightarrow> 'e Conn \<Rightarrow> bool" where
  "atEnd clk complete base op rest out tot r c \<longleftrightarrow> \<not> mr_closed r \<and> (\<exists>lp.
     if complete then mr_finished r \<and> c = (snd (allowMessage (clk (length rest)) base))
       \<lparr>ws_in := rest, ws_out := out, lastPong := lp, messages := messages base @ [(op, tot)]\<rparr>
     else \<not> mr_finished r \<and> \<not> mr_final r \<and> c = base\<lparr>ws_in := [], ws_out := out, lastPong := lp, errors := errors base @ [WsEOF]\<rparr>)"

lemma allowMessage_frame:
  "allowMessage t (c\<lparr>ws_in := a, ws_out := b, lastPong := d\<rparr>) =
     (fst (allowMessage t c), (snd (allowMessage t c))\<lparr>ws_in := a, ws_out := b, lastPong := d\<rparr>)"
  by (simp add: allowMessage_def Let_def)

lemma allowMessage_messages: "messages (snd (allowMessage t c)) = messages c"
  by (simp add: allowMessage_def Let_def)

definition endsWell :: "(nat \<Rightarrow> int) \<Rightarrow> bool \<Rightarrow> 'e Conn \<Rightarrow> bytes \<Rightarrow> bool" where
  "endsWell clk complete base rest \<longleftrightarrow> \<not> ws_closed base \<and> ws_answers base = [] \<and>
     (if complete then fst (allowMessage (clk (length rest)) base) else rest = [] \<and> ws_end base = None)"

lemma mr_Read_loop_end:
  assumes b: "endsWell clk complete base rest" and r: "reading complete base op rest out tot r c [] data"
    and o: "\<not> mr_offset r < length (mr_payload r)"
  shows "\<exists>r' c'. mr_Read_loop clk k r c = ([], Some WsEOF, r', c') \<and> atEnd clk complete base op rest out tot r' c'"
proof -
  obtain lp where c: "c = base\<lparr>ws_in := rest, ws_out := out, lastPong := lp\<rparr>"
    using r by (auto simp: reading_def onWire_def)
  show ?thesis
  proof (cases complete)
    case True
    have "utf8_Finish (mr_tail r)" if "op = Text" using r o that True by (auto simp: reading_def utf8_Finish_def)
    then have "\<exists>r' c'. finishMessage clk r c = (None, r', c') \<and> atEnd clk complete base op rest out tot r' c'"
      using r b True c
      by (auto simp: finishMessage_def reading_def endsWell_def Let_def allowMessage_frame atEnd_def allowMessage_messages)
    then show ?thesis using r o True by (subst mr_Read_loop.simps) (auto simp: reading_def)
  next
    case False
    have "nextContinuationFrame clk r c = (Some WsEOF, r, c)"
      using b False c by (subst nextContinuationFrame.simps) (simp add: readFrame_def endsWell_def readFull_def bindR_def)
    then have "mr_Read_loop clk k r c = ([], Some WsEOF, r, emitError WsEOF c)"
      using r o False by (subst mr_Read_loop.simps) (simp add: reading_def)
    moreover have "atEnd clk complete base op rest out tot r (emitError WsEOF c)"
      using r b False c by (auto simp: atEnd_def reading_def emitError_def endsWell_def)
    ultimately show ?thesis by blast
  qed
qed

lemma mr_Read_loop_ok:
  assumes "endsWell clk complete base rest" "reading complete base op rest out tot r c fs data" "0 < k"
  shows "(\<exists>bs r' c' fs' data'. mr_Read_loop clk k r c = (bs, None, r', c') \<and> bs \<noteq> [] \<and> data = bs @ data'
       \<and> reading complete base op rest out tot r' c' fs' data')
    \<or> data = [] \<and> (\<exists>r' c'. mr_Read_loop clk k r c = ([], Some WsEOF, r', c') \<and> atEnd clk complete base op rest out tot r' c')"
  using assms(2)
proof (induction fs arbitrary: r c)
  case Nil
  show ?case
  proof (cases "mr_offset r < length (mr_payload r)")
    case True
    show ?thesis using mr_Read_loop_chunk [OF Nil assms(3) True, of clk] by blast
  next
    case False
    then have "data = []" using Nil by (simp add: reading_def)
    then show ?thesis using mr_Read_loop_end [OF assms(1) Nil False, of k] by blast
  qed
next
  case (Cons fr fs)
  obtain kfs key p where fr: "fr = (kfs, key, p)" by (cases fr)
  show ?case
  proof (cases "mr_offset r < length (mr_payload r)")
    case True
    show ?thesis using mr_Read_loop_chunk [OF Cons.prems assms(3) True, of clk] by blast
  next
    case False
    then have "mr_offset r = length (mr_payload r)" using Cons.prems by (simp add: reading_def)
    moreover have b: "\<not> ws_closed base" "ws_answers base = []" using assms(1) by (simp_all add: endsWell_def)
    ultimately obtain r1 c1 where n: "nextContinuationFrame clk r c = (None, r1, c1)" and r1: "reading complete base op rest out tot r1 c1 fs data"
      using nextContinuationFrame_ok [OF b] Cons.prems unfolding fr by blast
    have "\<not> mr_final r" using Cons.prems by (simp add: reading_def)
    then have "mr_Read_loop clk k r c = mr_Read_loop clk k r1 c1"
      using False n by (subst mr_Read_loop.simps) simp
    then show ?thesis using Cons.IH [OF r1] by (simp only:)
  qed
qed

lemma readAll_ok:
  assumes "endsWell clk complete base rest" "reading complete base op rest out tot r c fs data"
  shows "\<exists>r' c'. readAll clk room acc r c = (acc @ data, None, r', c') \<and> atEnd clk complete base op rest out tot r' c'"
  using assms(2)
proof (induction data arbitrary: acc r c fs rule: measure_induct_rule [of length])
  case (less data)
  let ?k = "Suc (room (length acc))"
  have rd: "mr_Read clk ?k r c = mr_Read_loop clk ?k r c" using less.prems by (simp add: mr_Read_def reading_def)
  consider (more) bs r' c' fs' data' where "mr_Read_loop clk ?k r c = (bs, None, r', c')" "bs \<noteq> []" "data = bs @ data'"
      "reading complete base op rest out tot r' c' fs' data'"
    | (last) r' c' where "data = []" "mr_Read_loop clk ?k r c = ([], Some WsEOF, r', c')" "atEnd clk complete base op rest out tot r' c'"
    using mr_Read_loop_ok [OF assms(1) less.prems zero_less_Suc, of "room (length acc)"] by blast
  then show ?case
  proof cases
    case more
    then have "readAll clk room acc r c = readAll clk room (acc @ bs) r' c'" by (subst readAll.simps) (simp add: rd)
    then show ?thesis using less.IH [of data', OF _ more(4), of "acc @ bs"] more(2,3) by simp
  next
    case last
    then have "readAll clk room acc r c = (acc @ data, None, r', c')" by (subst readAll.simps) (simp add: rd)
    then show ?thesis using last(3) by blast
  qed
qed

text \<open>Closing the reader afterwards changes the connection no more.\<close>

lemma atEnd_Close:
  assumes "endsWell clk complete base rest" "atEnd clk complete base op rest out tot r c"
  shows "snd (snd (mr_Close clk r c)) = c"
proof (cases complete)
  case True
  then show ?thesis using assms(2) by (auto simp: atEnd_def mr_Close_def)
next
  case False
  then have c: "\<not> ws_closed c" "ws_in c = []" "ws_end c = None" and r: "\<not> mr_final r"
    using assms by (auto simp: atEnd_def endsWell_def)
  have "c\<lparr>ws_in := []\<rparr> = c" using c(2) by (cases c) simp
  then have "nextContinuationFrame clk r' c = (Some WsEOF, r', c)" for r'
    using c by (subst nextContinuationFrame.simps) (simp add: readFrame_def readFull_def bindR_def)
  then have "mr_drain clk (r\<lparr>mr_closed := True\<rparr>) c = (Some WsEOF, r\<lparr>mr_closed := True\<rparr>, c)"
    using r by (subst mr_drain.simps) simp
  then show ?thesis by (simp add: mr_Close_def Let_def)
qed

section \<open>Reading a message\<close>

text \<open>A client's data message, possibly without its final frame, that the connection allows.\<close>

definition clientMessage :: "bool \<Rightarrow> byte \<Rightarrow> fragment list \<Rightarrow> 'e Conn \<Rightarrow> bool" where
  "clientMessage complete op fs c \<longleftrightarrow> (op = Text \<or> op = Binary) \<and> fs \<noteq> [] \<and> (\<forall>fr \<in> set fs. fragAllowed c fr)
     \<and> (maxFragments c > 0 \<longrightarrow> int (length fs) \<le> maxFragments c)
     \<and> (maxMessage c > 0 \<longrightarrow> int (length (allData fs)) \<le> maxMessage c)
     \<and> (op = Text \<longrightarrow> (if complete then Valid (allData fs) else utf8_loop (allData fs) \<noteq> None))"

lemma NextReader_ok:
  assumes b: "\<not> ws_closed c" "ws_answers c = []" and w: "ws_in c = wire complete op fs @ rest" and m: "clientMessage complete op fs c"
  shows "\<exists>r c' fs'. NextReader clk c = (Inr (op, r), c') \<and>
    reading complete c op rest (ws_out c @ allPongs fs) (int (length (allData fs))) r c' fs' (allData fs)"
proof -
  obtain kfs key p fs' where fs: "fs = (kfs, key, p) # fs'" using m by (cases fs) (auto simp: clientMessage_def)
  have op: "op = Text \<or> op = Binary" using m by (simp add: clientMessage_def)
  have fa: "fragAllowed c (kfs, key, p)" using m by (simp add: clientMessage_def fs)
  have i: "ws_in c = keyedBytes kfs @ maskedBytes key (complete \<and> fs' = [], op, p) @ wire complete Continuation fs' @ rest"
    using w by (simp add: fs)
  obtain lp c1 where s: "prepareFirstFrame clk newReader c = prepareFirstFrame clk newReader c1"
    and f: "readFrame c1 = (Inr (complete \<and> fs' = [], op, p),
      c\<lparr>ws_in := wire complete Continuation fs' @ rest, ws_out := ws_out c @ pongs kfs, lastPong := lp\<rparr>)"
    using fragment_read [OF b i fa, of clk newReader] op by blast
  define c2 where "c2 = c\<lparr>ws_in := wire complete Continuation fs' @ rest, ws_out := ws_out c @ pongs kfs, lastPong := lp\<rparr>"
  define r where "r = newReader\<lparr>mr_op := op, mr_fragments := 1, mr_payload := p, mr_offset := 0, mr_total := int (length p),
     mr_final := complete \<and> fs' = []\<rparr>"
  have lim: "\<not> (maxMessage c2 > 0 \<and> int (length p) > maxMessage c2)" using m by (auto simp: clientMessage_def fs c2_def)
  have ops: "op \<noteq> Ping" "op \<noteq> Pong" "op \<noteq> Close" using op data_ops by auto
  have "prepareFirstFrame clk newReader c1 = (Inr op, r, c2)"
    using lim op ops by (subst prepareFirstFrame.simps) (simp add: f c2_def [symmetric] Let_def r_def)
  then have "NextReader clk c = (Inr (op, r), c2)" using b(1) s by (simp add: NextReader_def)
  moreover have "onWire complete c rest (ws_out c @ allPongs fs) fs' c2" by (auto simp: onWire_def c2_def fs)
  moreover have "op = Text \<longrightarrow> utf8_loop (allData fs) \<noteq> None \<and> (complete \<longrightarrow> utf8_loop (allData fs) = Some [])"
    using m utf8_loop_Valid [of "allData fs"] unfolding clientMessage_def by (cases complete) (auto simp del: fragAllowed.simps)
  ultimately have "NextReader clk c = (Inr (op, r), c2)"
    "reading complete c op rest (ws_out c @ allPongs fs) (int (length (allData fs))) r c2 fs' (allData fs)"
    using m by (simp_all add: reading_def clientMessage_def r_def newReader_def fs del: fragAllowed.simps)
  then show ?thesis by blast
qed

lemma ReadMessage_ok:
  assumes "endsWell clk complete c rest" and "ws_in c = wire complete op fs @ rest" and "clientMessage complete op fs c"
  shows "\<exists>r c'. ReadMessage clk room c = (Inr (op, allData fs), c')
    \<and> atEnd clk complete c op rest (ws_out c @ allPongs fs) (int (length (allData fs))) r c'"
proof -
  have b: "\<not> ws_closed c" "ws_answers c = []" using assms(1) by (simp_all add: endsWell_def)
  obtain r c1 fs' where n: "NextReader clk c = (Inr (op, r), c1)"
    and r: "reading complete c op rest (ws_out c @ allPongs fs) (int (length (allData fs))) r c1 fs' (allData fs)"
    using NextReader_ok [OF b assms(2,3), of clk] by blast
  obtain r2 c2 where a: "readAll clk room [] r c1 = (allData fs, None, r2, c2)"
    and e: "atEnd clk complete c op rest (ws_out c @ allPongs fs) (int (length (allData fs))) r2 c2"
    using readAll_ok [OF assms(1) r, of room "[]"] by auto
  have "ReadMessage clk room c = (Inr (op, allData fs), c2)"
    by (simp add: ReadMessage_def n a atEnd_Close [OF assms(1) e])
  then show ?thesis using e by blast
qed

text \<open>
  C4: \<open>Conn.ReadMessage\<close> delivers a client's message whole: fragments with arbitrary masking keys,
  with pings and pongs before and between them, within the connection's limits, valid UTF-8 if the
  message is text, and within the rate limit, come back as one payload with the opcode of the first
  frame, whatever buffer sizes the read loop uses. Every ping is answered by a pong with its payload,
  in order, the message is reported once with its length, and the input behind it is untouched.
\<close>

theorem ReadMessage_delivers:
  assumes "\<not> ws_closed c" "ws_answers c = []" "ws_in c = wire True op fs @ rest" "clientMessage True op fs c"
    and "fst (allowMessage (clk (length rest)) c)"
  shows "\<exists>lp. ReadMessage clk room c = (Inr (op, allData fs), (snd (allowMessage (clk (length rest)) c))
    \<lparr>ws_in := rest, ws_out := ws_out c @ allPongs fs, lastPong := lp,
     messages := messages c @ [(op, int (length (allData fs)))]\<rparr>)"
proof -
  have "endsWell clk True c rest" using assms by (simp add: endsWell_def)
  from ReadMessage_ok [OF this assms(3,4), of room] show ?thesis by (auto simp: atEnd_def)
qed

text \<open>
  C34: A message whose connection ends at a frame boundary before the final frame is delivered as if it
  were complete: \<open>readFrame\<close> passes on the \<open>io.EOF\<close> of its first read, \<open>MessageReader.Read\<close> returns it,
  and \<open>io.ReadAll\<close> takes it for the end of the message. \<open>ReadMessage\<close> returns the fragments received
  so far without an error; text is not checked to end with a whole character, and the rate limit and
  \<open>onMessage\<close> do not see the message.
\<close>

theorem ReadMessage_truncated:
  assumes "\<not> ws_closed c" "ws_answers c = []" "ws_in c = wire False op fs" "clientMessage False op fs c" "ws_end c = None"
  shows "\<exists>lp. ReadMessage clk room c = (Inr (op, allData fs),
    c\<lparr>ws_in := [], ws_out := ws_out c @ allPongs fs, lastPong := lp, errors := errors c @ [WsEOF]\<rparr>)"
proof -
  have "endsWell clk False c []" using assms by (simp add: endsWell_def)
  from ReadMessage_ok [OF this _ assms(4), of room] assms(3) show ?thesis by (auto simp: atEnd_def)
qed

text \<open>A ping, the fragment \<open>Hi\<close>, a pong and the final fragment \<open>!\<close>.\<close>

definition demoFrags :: "fragment list" where
  "demoFrags = [([([1, 2, 3, 4], True, Ping, [7])], [5, 6, 7, 8], [0x48, 0x69]), ([([0, 0, 0, 0], True, Pong, [])], [9, 9, 9, 9], [0x21])]"

lemma demoFrags_allowed: "clientMessage complete Text demoFrags (demoConn\<lparr>ws_in := i\<rparr>)"
proof -
  have "Valid [0x48, 0x69, 0x21]" by code_simp
  moreover have "utf8_loop [0x48, 0x69, 0x21] = Some []" by code_simp
  ultimately show ?thesis by (simp add: clientMessage_def demoFrags_def demoConn_def)
qed

lemma demoFrags_data: "allData demoFrags = [0x48, 0x69, 0x21]" "allPongs demoFrags = [0x8A, 1, 7]"
  by code_simp+

theorem ReadMessage_delivers_witness:
  "\<exists>lp. ReadMessage (\<lambda>_. 5) (\<lambda>_. 0) (demoConn\<lparr>ws_in := wire True Text demoFrags @ [1]\<rparr>) = (Inr (Text, [0x48, 0x69, 0x21]),
     demoConn\<lparr>ws_in := [1], ws_out := [0x8A, 1, 7], lastPong := lp, messages := [(Text, 3)]\<rparr>)"
proof -
  let ?c = "demoConn\<lparr>ws_in := wire True Text demoFrags @ [1]\<rparr>"
  have "allowMessage t ?c = (True, ?c)" for t by (simp add: allowMessage_def demoConn_def)
  moreover have "\<not> ws_closed ?c" "ws_answers ?c = []" "ws_out ?c = []" "messages ?c = []" by (simp_all add: demoConn_def)
  ultimately show ?thesis
    using demoFrags_allowed [of True] demoFrags_data ReadMessage_delivers [of ?c Text demoFrags "[1]" "\<lambda>_. 5" "\<lambda>_. 0"] by simp
qed

theorem ReadMessage_truncated_witness:
  "\<exists>lp. ReadMessage (\<lambda>_. 5) (\<lambda>_. 0) (demoConn\<lparr>ws_in := wire False Text demoFrags\<rparr>) = (Inr (Text, [0x48, 0x69, 0x21]),
     demoConn\<lparr>ws_in := [], ws_out := [0x8A, 1, 7], lastPong := lp, errors := [WsEOF]\<rparr>)"
proof -
  let ?c = "demoConn\<lparr>ws_in := wire False Text demoFrags\<rparr>"
  have "\<not> ws_closed ?c" "ws_answers ?c = []" "ws_out ?c = []" "errors ?c = []" "ws_end ?c = None" by (simp_all add: demoConn_def)
  then show ?thesis
    using demoFrags_allowed [of False] demoFrags_data ReadMessage_truncated [of ?c Text demoFrags "\<lambda>_. 5" "\<lambda>_. 0"] by simp
qed

end
