(* ===== verification/Ws_Manager.thy ===== *)
theory Ws_Manager
  imports Ws_Message
begin

text \<open>
  The queueing writer and the connection manager of \<open>src/pkg/websocket/websocket.go\<close>. The goroutine
  of a writer and its callers take turns in any order: a run is a sequence of their steps. The
  goroutines of a broadcast work on different connections, so they are run one after the other.
\<close>

section \<open>The queueing writer\<close>

type_synonym OutboundMessage = "byte \<times> bytes"

definition CloseGoingAway :: nat where "CloseGoingAway = 1001"

text \<open>\<open>wr_closed\<close> is that the \<open>sync.Once\<close> has run and \<open>Done\<close> is closed; \<open>wr_running\<close> is that the goroutine has not returned.\<close>

record 'e Writer =
  wr_conn :: "'e Conn"
  wr_queue :: "OutboundMessage list"
  wr_cap :: nat
  wr_closed :: bool
  wr_running :: bool

definition NewWriter :: "'e Conn \<Rightarrow> int \<Rightarrow> 'e Writer" where
  "NewWriter conn queueSize = \<lparr>wr_conn = conn, wr_queue = [], wr_cap = nat (if queueSize \<le> 0 then 64 else queueSize),
     wr_closed = False, wr_running = True\<rparr>"

definition wr_CloseWithStatus :: "nat \<Rightarrow> bytes \<Rightarrow> 'e Writer \<Rightarrow> 'e Writer" where
  "wr_CloseWithStatus code reason w =
     (if wr_closed w then w
      else w\<lparr>wr_closed := True, wr_conn := conn_Close (snd (CloseWithStatus code reason (wr_conn w)))\<rparr>)"

definition Send :: "byte \<Rightarrow> bytes \<Rightarrow> 'e Writer \<Rightarrow> bool \<times> 'e Writer" where
  "Send opcode payload w =
     (if wr_closed w then (False, w)
      else if length (wr_queue w) < wr_cap w then (True, w\<lparr>wr_queue := wr_queue w @ [(opcode, payload)]\<rparr>)
      else (False, wr_CloseWithStatus ClosePolicyViolation (s2b ''slow client'') w))"

text \<open>One round of the goroutine that takes a message from the queue.\<close>

definition loop_take :: "OutboundMessage \<Rightarrow> 'e Writer \<Rightarrow> 'e Writer" where
  "loop_take msg w =
     (case WriteMessage (fst msg) (snd msg) (wr_conn w) of
        (Some e, c) \<Rightarrow> (wr_CloseWithStatus CloseGoingAway (s2b ''write failed'') (w\<lparr>wr_conn := c\<rparr>))\<lparr>wr_running := False\<rparr>
      | (None, c) \<Rightarrow> w\<lparr>wr_conn := c\<rparr>)"

datatype wr_event = Sent OutboundMessage bool | Taken OutboundMessage | Stopped | Closing

inductive wr_step :: "'e Writer \<Rightarrow> wr_event \<Rightarrow> 'e Writer \<Rightarrow> bool" where
  send: "Send op p w = (ok, w') \<Longrightarrow> wr_step w (Sent (op, p) ok) w'"
| take_message: "wr_running w \<Longrightarrow> wr_queue w = m # ms \<Longrightarrow> wr_step w (Taken m) (loop_take m (w\<lparr>wr_queue := ms\<rparr>))"
| stop: "wr_running w \<Longrightarrow> wr_closed w \<Longrightarrow> wr_step w Stopped (w\<lparr>wr_running := False\<rparr>)"
| close: "wr_step w Closing (wr_CloseWithStatus code reason w)"

inductive_cases wr_stepE: "wr_step w ev w'"

inductive wr_run :: "'e Writer \<Rightarrow> wr_event list \<Rightarrow> 'e Writer \<Rightarrow> bool" where
  nil: "wr_run w [] w"
| snoc: "wr_run w evs w' \<Longrightarrow> wr_step w' ev w'' \<Longrightarrow> wr_run w (evs @ [ev]) w''"

definition accepted :: "wr_event list \<Rightarrow> OutboundMessage list" where
  "accepted evs = concat (map (\<lambda>ev. case ev of Sent m True \<Rightarrow> [m] | _ \<Rightarrow> []) evs)"

definition taken :: "wr_event list \<Rightarrow> OutboundMessage list" where
  "taken evs = concat (map (\<lambda>ev. case ev of Taken m \<Rightarrow> [m] | _ \<Rightarrow> []) evs)"

lemma trace_simps [simp]:
  "accepted [] = []" "taken [] = []" "accepted (es @ fs) = accepted es @ accepted fs" "taken (es @ fs) = taken es @ taken fs"
  by (simp_all add: accepted_def taken_def)

lemma trace_single [simp]:
  "accepted [Sent m ok] = (if ok then [m] else [])" "accepted [Taken m] = []" "accepted [Stopped] = []" "accepted [Closing] = []"
  "taken [Sent m ok] = []" "taken [Taken m] = [m]" "taken [Stopped] = []" "taken [Closing] = []"
  by (auto simp: accepted_def taken_def split: bool.splits)

lemma wr_Close_fields [simp]:
  "wr_queue (wr_CloseWithStatus code reason w) = wr_queue w" "wr_cap (wr_CloseWithStatus code reason w) = wr_cap w"
  "wr_closed (wr_CloseWithStatus code reason w)"
  by (simp_all add: wr_CloseWithStatus_def)

lemma loop_take_fields [simp]: "wr_queue (loop_take m w) = wr_queue w" "wr_cap (loop_take m w) = wr_cap w"
  by (simp_all add: loop_take_def split: prod.split option.split)

lemma conn_Close_closed: "ws_closed (conn_Close c) \<or> net_closed c" "net_closed (conn_Close c)"
  by (simp_all add: conn_Close_def)



section \<open>The connection manager\<close>

text \<open>A connection is given by its address; managers and connections are not nil.\<close>

record 'c Manager =
  conns :: "'c set"
  MaxConnections :: int
  activeConns :: int

definition NewManager :: "'c Manager" where
  "NewManager = \<lparr>conns = {}, MaxConnections = 10000, activeConns = 0\<rparr>"

definition TryAdd :: "'c \<Rightarrow> 'c Manager \<Rightarrow> bool \<times> 'c Manager" where
  "TryAdd c m =
     (if c \<in> conns m then (True, m)
      else if MaxConnections m > 0 \<and> int (card (conns m)) \<ge> MaxConnections m then (False, m)
      else (True, m\<lparr>conns := insert c (conns m), activeConns := activeConns m + 1\<rparr>))"

definition Remove :: "'c \<Rightarrow> 'c Manager \<Rightarrow> 'c Manager" where
  "Remove c m = (if c \<in> conns m then m\<lparr>conns := conns m - {c}, activeConns := activeConns m - 1\<rparr> else m)"

definition Count :: "'c Manager \<Rightarrow> int" where
  "Count m = activeConns m"

inductive managed :: "int \<Rightarrow> 'c Manager \<Rightarrow> bool" where
  new_manager: "managed mx (NewManager\<lparr>MaxConnections := mx\<rparr>)"
| try_add: "managed mx m \<Longrightarrow> managed mx (snd (TryAdd c m))"
| remove: "managed mx m \<Longrightarrow> managed mx (Remove c m)"

text \<open>
  C23: A manager that is only changed by \<open>TryAdd\<close> and \<open>Remove\<close> is well-formed: its counter is the
  number of registered connections, and with a positive limit they are never more than the limit,
  however often connections are added or removed twice.
\<close>

theorem manager_wf:
  assumes "managed mx m"
  shows "finite (conns m) \<and> MaxConnections m = mx \<and> Count m = int (card (conns m)) \<and> (0 < mx \<longrightarrow> Count m \<le> mx)"
  using assms
proof (induction rule: managed.induct)
  case (remove mx m c)
  then show ?case using card_Suc_Diff1 [of "conns m" c] by (auto simp: Remove_def Count_def)
qed (auto simp: NewManager_def TryAdd_def Count_def)

theorem manager_wf_witness:
  "Count (snd (TryAdd 3 (snd (TryAdd (2 :: nat) (snd (TryAdd 2 (NewManager\<lparr>MaxConnections := 1\<rparr>))))))) \<le> 1"
  using manager_wf [OF managed.try_add [OF managed.try_add [OF managed.try_add [OF managed.new_manager]]], of 3 "2 :: nat" 2 1] by simp

text \<open>\<open>Broadcast\<close> and \<open>CloseAll\<close> over a snapshot, in the order the map's iteration gives it.\<close>

definition broadcast_step :: "byte \<Rightarrow> bytes \<Rightarrow> 'c \<Rightarrow> ('c \<Rightarrow> 'e Conn) \<times> nat \<Rightarrow> ('c \<Rightarrow> 'e Conn) \<times> nat" where
  "broadcast_step opcode payload c st =
     (case st of (store, sent) \<Rightarrow>
        if ws_closed (store c) then (store, sent)
        else (case WriteMessage opcode payload (store c) of
            (None, c') \<Rightarrow> (store(c := c'), Suc sent)
          | (Some e, c') \<Rightarrow> (store(c := c'), sent)))"

definition Broadcast :: "'c list \<Rightarrow> byte \<Rightarrow> bytes \<Rightarrow> ('c \<Rightarrow> 'e Conn) \<Rightarrow> ('c \<Rightarrow> 'e Conn) \<times> nat" where
  "Broadcast snapshot opcode payload store = fold (broadcast_step opcode payload) snapshot (store, 0)"

definition CloseAll :: "'c list \<Rightarrow> nat \<Rightarrow> bytes \<Rightarrow> ('c \<Rightarrow> 'e Conn) \<Rightarrow> 'c \<Rightarrow> 'e Conn" where
  "CloseAll snapshot code reason store =
     fold (\<lambda>c store. store(c := conn_Close (snd (CloseWithStatus code reason (store c))))) snapshot store"

lemma Broadcast_fold:
  assumes "distinct cs"
  shows "fold (broadcast_step op p) cs (store, n) =
    ((\<lambda>c. if c \<in> set cs \<and> \<not> ws_closed (store c) then snd (WriteMessage op p (store c)) else store c),
     n + length (filter (\<lambda>c. \<not> ws_closed (store c) \<and> fst (WriteMessage op p (store c)) = None) cs))"
  using assms
proof (induction cs arbitrary: store n)
  case (Cons a cs)
  let ?st = "if ws_closed (store a) then store else store(a := snd (WriteMessage op p (store a)))"
  let ?n = "if \<not> ws_closed (store a) \<and> fst (WriteMessage op p (store a)) = None then Suc n else n"
  have s: "broadcast_step op p a (store, n) = (?st, ?n)"
    by (auto simp: broadcast_step_def split: prod.split option.split)
  have same: "filter (\<lambda>c. \<not> ws_closed (?st c) \<and> fst (WriteMessage op p (?st c)) = None) cs
      = filter (\<lambda>c. \<not> ws_closed (store c) \<and> fst (WriteMessage op p (store c)) = None) cs"
    using Cons.prems by (intro filter_cong) auto
  show ?case
    unfolding fold_Cons o_apply s Cons.IH [OF distinct.simps(2) [THEN iffD1, OF Cons.prems, THEN conjunct2]] same
    using Cons.prems by (auto simp: fun_eq_iff)
qed simp

text \<open>
  A broadcast acts on every connection of the snapshot by itself: each open one gets the message
  exactly as a single \<open>WriteMessage\<close> would send it, closed ones and others are not touched, and the
  result is the number of open ones whose write succeeded, whatever order the snapshot has.
\<close>

lemma Broadcast_pointwise:
  assumes "distinct snapshot"
  shows "Broadcast snapshot op p store =
    ((\<lambda>c. if c \<in> set snapshot \<and> \<not> ws_closed (store c) then snd (WriteMessage op p (store c)) else store c),
     card {c \<in> set snapshot. \<not> ws_closed (store c) \<and> fst (WriteMessage op p (store c)) = None})"
proof -
  have "length (filter P snapshot) = card {c \<in> set snapshot. P c}" for P
    using distinct_card [OF distinct_filter [OF assms, of P]] by simp
  then show ?thesis unfolding Broadcast_def Broadcast_fold [OF assms] by simp
qed

lemma CloseAll_closed: "c \<in> set snapshot \<Longrightarrow> net_closed (CloseAll snapshot code reason store c)"
proof -
  have keep: "net_closed (store c) \<Longrightarrow> net_closed (CloseAll cs code reason store c)" for cs store
    unfolding CloseAll_def
    by (induction cs arbitrary: store) (auto simp: conn_Close_def)
  show "c \<in> set snapshot \<Longrightarrow> net_closed (CloseAll snapshot code reason store c)"
  proof (induction snapshot arbitrary: store)
    case (Cons a cs)
    let ?st = "store(a := conn_Close (snd (CloseWithStatus code reason (store a))))"
    have "CloseAll (a # cs) code reason store = CloseAll cs code reason ?st" by (simp add: CloseAll_def)
    then show ?case using Cons keep [of ?st cs] conn_Close_closed(2) by (cases "c = a") auto
  qed simp
qed

end
