(* ===== verification/Spec2Isabelle.thy ===== *)
theory Spec2Isabelle
  imports Hpack_Encoder Http_Header_Store Http_Body_Stream Http_Budget Http_Body_Limit Router_Methods Ws_Manager
begin

text \<open>
  A verification development for the web framework \<open>fh\<close>, whose Go sources are under \<open>src/\<close>.

  \<^bold>\<open>The program.\<close> A server reads a request head and parses it (\<open>src/header.go\<close>), decides how the body
  is framed, and reads it either whole (\<open>src/chunked.go\<close>) or as a stream (\<open>src/request_stream.go\<close>),
  within limits per request (\<open>src/request_limit.go\<close>) and a memory budget shared by all requests
  (\<open>src/body_budget.go\<close>). The router (\<open>src/router.go\<close>) finds the handler. HTTP/2 connections
  compress headers with HPACK (\<open>src/pkg/hpack\<close>); an upgraded connection exchanges messages in
  WebSocket frames (\<open>src/pkg/websocket/websocket.go\<close>). These are the modelled parts.

  \<^bold>\<open>Conventions.\<close> A byte is an \<^typ>\<open>8 word\<close>, a slice or a string a list of bytes. Structs are records
  with the fields of the source, methods are functions from the receiver to the new receiver and the
  results, errors are values, and a panic is \<^term>\<open>None\<close> or a value of its own. Widths are kept
  where the code can wrap: 32-bit table sizes and the Huffman accumulators are words, and Go's 64-bit
  \<open>int\<close> is an integer with the wrap-around written out where a computation can reach it. \<open>Prelude\<close>
  has the shared lemmas on bytes, lists and words, \<open>Bit_Strings\<close> the view of words as bit strings,
  \<open>Utf8\<close> the functions of \<open>unicode/utf8\<close>.

  \<^bold>\<open>HPACK.\<close> \<open>Hpack_Base\<close>: header fields and variable-length integers. \<open>Hpack_Table\<close>: the tables with
  their lookup maps; the locale \<open>indexed_table\<close> is their contract and the dynamic table refines a list
  cut to a size. \<open>Hpack_Huffman\<close>, with \<open>Hpack_Huffman_Code\<close>, \<open>Hpack_Huffman_Tree\<close> and
  \<open>Hpack_Huffman_Correct\<close>: the Huffman decoder is total, inverts the encoder and accepts nothing else.
  \<open>Hpack_Decoder\<close>: the decoder does not depend on how its input is cut into writes, its fast path
  changes nothing, and its limits hold. \<open>Hpack_Encoder\<close>: what is encoded is decoded, with the tables
  of both ends in agreement.

  \<^bold>\<open>HTTP/1.\<close> \<open>Http_Lexical\<close>, \<open>Http_Request\<close> and \<open>Http_Request_Correct\<close>: the request line and the
  header block; what is accepted has the documented form and admits one framing only, and printed
  heads are read back. \<open>Http_Header_Store\<close>: the store as a multimap. \<open>Http_Chunked\<close> and
  \<open>Http_Body_Stream\<close>: the body does not depend on the segments the network delivers and is delivered
  whole. \<open>Http_Budget\<close>: the budgets hold in every interleaving of their compare-and-swap loops.
  \<open>Http_Body_Limit\<close>: nested limits on a body, and the Priority field.

  \<^bold>\<open>Router.\<close> \<open>Router_Path\<close>: patterns, paths and constraints. \<open>Router_Trie\<close>, \<open>Router_Trie_Correct\<close> and
  \<open>Router_Search\<close>: the trie, its invariant, and its traversals as a search over candidates in the
  order of precedence. \<open>Router\<close>, \<open>Router_Correct\<close>, \<open>Router_Dispatch\<close> and \<open>Router_Methods\<close>: the
  tables around it, and what the lookups return in terms of the registered routes.

  \<^bold>\<open>WebSocket.\<close> \<open>Ws_Frame\<close>: the connection, close payloads, the streaming UTF-8 validator and the
  message writer. \<open>Ws_Write\<close>: messages go out as frames that concatenate to them. \<open>Ws_Read\<close> and
  \<open>Ws_Message\<close>: masked and fragmented messages with control frames between them are delivered whole.
  \<open>Ws_Manager\<close>: the queueing writer in every interleaving, and the set of connections.

  \<^bold>\<open>Termination.\<close> No definition has fuel. Loops that read from a connection terminate because the
  input that will ever arrive is a finite list, which every iteration shortens; the loops of the
  Huffman decoder, the parsers and the trie shorten their input; a compare-and-swap loop is a step
  relation over single iterations, and may retry.

  \<^bold>\<open>Parameters.\<close> The writer below the HPACK encoder, the reader below a body limit, Unicode case
  folding outside ASCII, the regular-expression engine, the growth of slices and the clock are
  arguments of the definitions that use them. What a network connection answers is data of the state.

  \<^bold>\<open>Not modelled.\<close> Sockets, listeners, deadlines and TLS; the HTTP/2 stream machinery, which is
  condition variables and socket writes; \<open>src/ctx.go\<close> and the middleware, closures around a context of
  buffers and interface values; codecs, validation and typed routes, which work by reflection; the
  HTTP client, storage drivers, cryptographic protocols and kernel interfaces, which call libraries
  and the operating system; the WebSocket handshake, heartbeat and hub. Mutexes of the modelled parts
  serialise operations, each of which is one step here. Slices are values: that two slices share an
  array is not represented.
\<close>

end
